(* ===== verification/Prelude.thy ===== *)
theory Prelude
  imports Main "HOL-Library.Word" "HOL-Library.Signed_Division"
begin

text \<open>
  Shared vocabulary of the development: the machine integer types of the C++ sources, the
  theorem collections the components feed, and the generic lemmas on lists, options and words
  that several components use.

  The widths follow the sources: \<^verbatim>\<open>uint8_t\<close>, \<^verbatim>\<open>uint16_t\<close>, \<^verbatim>\<open>uint32_t\<close> and \<^verbatim>\<open>uint64_t\<close> are words of
  that width, and \<^verbatim>\<open>std::vector<uint8_t>\<close> is a list of bytes.  A C++ \<^verbatim>\<open>int\<close> is a HOL \<^typ>\<open>int\<close>
  and its range is written out wherever an operation can leave it.
\<close>

unbundle bit_operations_syntax

type_synonym byte = "8 word"
type_synonym u16 = "16 word"
type_synonym u32 = "32 word"
type_synonym u64 = "64 word"
type_synonym bytes = "8 word list"

named_theorems wire_simps \<open>evaluation of the wire format definitions\<close>
named_theorems cache_simps \<open>evaluation of the cache definitions\<close>
named_theorems json_simps \<open>evaluation of the JSON builder\<close>

section \<open>Ranges of the C++ integer types\<close>

abbreviation int32_min :: int where "int32_min \<equiv> - 2147483648"
abbreviation int32_max :: int where "int32_max \<equiv> 2147483647"
abbreviation int64_min :: int where "int64_min \<equiv> - 9223372036854775808"
abbreviation int64_max :: int where "int64_max \<equiv> 9223372036854775807"

text \<open>\<^verbatim>\<open>duration_cast\<close> and integer division round towards zero: \<open>sdiv\<close> of the signed division theory.\<close>

lemma sdiv_pos_nonneg: "0 \<le> a \<Longrightarrow> 0 < c \<Longrightarrow> a sdiv c = a div (c :: int)"
  by (auto simp: signed_divide_int_def sgn_if)

lemma sdiv_neg: "a \<le> 0 \<Longrightarrow> 0 < c \<Longrightarrow> a sdiv c = - (- a div (c :: int))"
  by (auto simp: signed_divide_int_def sgn_if)

lemma sdiv_pos_mono:
  assumes "a \<le> b" "0 < (c :: int)"
  shows "a sdiv c \<le> b sdiv c"
proof -
  consider "0 \<le> a" | "a \<le> 0" "0 \<le> b" | "b \<le> 0" by linarith
  then show ?thesis
  proof cases
    case 1
    with assms show ?thesis by (simp add: sdiv_pos_nonneg zdiv_mono1)
  next
    case 2
    then have "a sdiv c \<le> 0" "0 \<le> b sdiv c"
      using assms by (simp_all add: sdiv_pos_nonneg sdiv_neg pos_imp_zdiv_nonneg_iff)
    then show ?thesis by linarith
  next
    case 3
    with assms show ?thesis by (simp add: sdiv_neg zdiv_mono1)
  qed
qed

section \<open>Undefined behaviour\<close>

text \<open>
  Where a C++ expression has undefined behaviour on some inputs (a reversed iterator range, a
  null dereference, a signed overflow), the operation returns an \<open>outcome\<close> and the undefined
  inputs are its value \<open>UB\<close>.
\<close>

datatype 'a outcome = UB | Ret (the_ret: 'a)

section \<open>Bytes and words\<close>

text \<open>The two nibbles of a byte and the two bytes of a 16-bit value put it together again.\<close>

lemma nibbles_join: "push_bit 4 (drop_bit 4 b AND 15) OR (b AND 15) = (b :: byte)"
proof (rule bit_word_eqI)
  fix n assume "n < LENGTH(8)"
  then have "n \<in> {0,1,2,3,4,5,6,7}" by auto
  then show "bit (push_bit 4 (drop_bit 4 b AND 15) OR (b AND 15)) n = bit b n"
    by (auto simp: bit_simps)
qed

lemma nibbles_join_masked [simp]: "push_bit 4 (drop_bit 4 b) AND 240 OR (b AND 15) = (b :: byte)"
  using nibbles_join [of b] by simp

lemma less_16_cases:
  "d < (16 :: nat) \<Longrightarrow> d \<in> {0, 1, 2, 3, 4, 5, 6, 7, 8, 9, 10, 11, 12, 13, 14, 15}"
proof -
  assume "d < 16"
  then have "d \<in> set [0..<16]" by simp
  then show ?thesis by (simp add: upt_rec numeral_eq_Suc)
qed

text \<open>Two nibbles joined by a shift and an \<open>or\<close> are a sum.\<close>

lemma push_bit_or_nibble: "0 \<le> b \<Longrightarrow> b < 16 \<Longrightarrow> push_bit 4 a OR b = a * 16 + (b :: int)"
proof -
  assume "0 \<le> b" "b < 16"
  then have "b = take_bit 4 b" by (simp add: take_bit_eq_mod)
  then have "push_bit 4 a OR b = push_bit 4 a + b"
    by (metis disjunctive_add bit_push_bit_iff bit_take_bit_iff linorder_not_less)
  then show ?thesis by (simp add: push_bit_eq_mult)
qed

lemma unat_byte_less: "unat (b :: byte) < 256"
  using unsigned_less [of b, where ?'a = nat] by simp

lemma unat_u16_less: "unat (w :: u16) < 65536"
  using unsigned_less [of w, where ?'a = nat] by simp

lemma unat_u32_less: "unat (w :: u32) < 4294967296"
  using unsigned_less [of w, where ?'a = nat] by simp

lemma unat_ucast_byte [simp]:
  "unat (ucast (b :: byte) :: u16) = unat b" "unat (ucast (b :: byte) :: u32) = unat b"
  using unat_byte_less [of b] by (simp_all add: unsigned_ucast_eq take_bit_eq_mod)

lemma unat_and_15_less: "unat ((b :: byte) AND 15) < 16"
proof -
  have "b AND 15 \<le> 15" by (rule word_and_le1)
  then show ?thesis by (simp add: word_le_nat_alt)
qed

text \<open>Big-endian 16-bit values on the wire.\<close>

definition be16 :: "byte \<Rightarrow> byte \<Rightarrow> u16" where
  "be16 hi lo = push_bit 8 (ucast hi) OR ucast lo"

definition hi_byte :: "u16 \<Rightarrow> byte" where
  "hi_byte w = ucast (drop_bit 8 w AND 255)"

definition lo_byte :: "u16 \<Rightarrow> byte" where
  "lo_byte w = ucast (w AND 255)"

lemma unat_be16: "unat (be16 hi lo) = 256 * unat hi + unat lo"
proof -
  have "be16 hi lo = push_bit 8 (ucast hi) + ucast lo"
    unfolding be16_def
    by (rule disjunctive_add [symmetric]) (auto simp: bit_simps dest: bit_imp_le_length)
  also have "unat \<dots> = 256 * unat hi + unat lo"
    using unat_byte_less [of hi] unat_byte_less [of lo]
    by (simp add: push_bit_eq_mult unat_word_ariths)
  finally show ?thesis .
qed

lemma unat_hi_byte: "unat (hi_byte w) = unat w div 256"
proof -
  have "drop_bit 8 w AND 255 = take_bit 8 (drop_bit 8 w)"
    by (simp add: take_bit_eq_mask mask_eq_exp_minus_1)
  then show ?thesis
    using unat_u16_less [of w]
    by (simp add: hi_byte_def unsigned_ucast_eq unsigned_take_bit_eq unsigned_drop_bit_eq
        drop_bit_eq_div take_bit_eq_mod unat_div unat_mod)
qed

lemma unat_lo_byte: "unat (lo_byte w) = unat w mod 256"
proof -
  have "w AND 255 = take_bit 8 w"
    by (simp add: take_bit_eq_mask mask_eq_exp_minus_1)
  then show ?thesis
    by (simp add: lo_byte_def unsigned_ucast_eq unsigned_take_bit_eq take_bit_eq_mod unat_div unat_mod)
qed

lemma be16_bytes [simp]: "be16 (hi_byte w) (lo_byte w) = w"
  by (simp add: word_unat_eq_iff unat_be16 unat_hi_byte unat_lo_byte)

section \<open>Counting in lists\<close>

lemma length_filter_update:
  "i < length ws \<Longrightarrow>
     length (filter P (ws[i := x])) + (if P (ws ! i) then 1 else 0) = length (filter P ws) + (if P x then 1 else 0)"
proof (induction ws arbitrary: i)
  case (Cons w ws)
  then show ?case by (cases i) (auto split: if_splits)
qed simp

end
