(* ===== verification/Codec.thy ===== *)
theory Codec
  imports Prelude
begin

text \<open>
  The interface every wire encoding of the program has: an encoder, a decoder that may reject,
  and the values that can be encoded.  A provider shows that decoding undoes encoding; the
  client facts (encodings are unambiguous, what is encoded is accepted) are proved once here.
  The hex strings, the group addresses in text and in 16-bit form, and the eibd messages
  interpret it.
\<close>

locale codec =
  fixes encode :: "'a \<Rightarrow> 'w"
    and decode :: "'w \<Rightarrow> 'a option"
    and valid :: "'a \<Rightarrow> bool"
  assumes decode_encode: "valid x \<Longrightarrow> decode (encode x) = Some x"
begin

lemma encode_inj: "valid x \<Longrightarrow> valid y \<Longrightarrow> encode x = encode y \<Longrightarrow> x = y"
  by (metis decode_encode option.inject)

lemma inj_on_encode: "inj_on encode {x. valid x}"
  by (auto intro!: inj_onI dest: encode_inj)

lemma encode_accepted: "valid x \<Longrightarrow> decode (encode x) \<noteq> None"
  by (simp add: decode_encode)

lemma encode_list_inj:
  "list_all valid xs \<Longrightarrow> list_all valid ys \<Longrightarrow> map encode xs = map encode ys \<Longrightarrow> xs = ys"
  by (rule map_inj_on, assumption, rule inj_on_subset [OF inj_on_encode])
    (auto simp: list_all_iff)

end

text \<open>
  A decoder that accepts nothing but encodings: what it returns is valid, and encoding it gives
  the input back.
\<close>

locale tight_codec = codec +
  assumes decode_valid: "decode w = Some x \<Longrightarrow> valid x"
    and encode_decode: "decode w = Some x \<Longrightarrow> encode x = w"
begin

lemma decode_iff: "decode w = Some x \<longleftrightarrow> valid x \<and> encode x = w"
  using decode_encode decode_valid encode_decode by blast

lemma decode_inj: "decode v = Some x \<Longrightarrow> decode w = Some x \<Longrightarrow> v = w"
  using encode_decode by blast

end

end
