(* ===== verification/Cpp_Std.thy ===== *)
theory Cpp_Std
  imports Prelude
begin

text \<open>
  The parts of the C++ standard library the sources use: searching and slicing of
  \<^verbatim>\<open>std::string_view\<close>, \<^verbatim>\<open>std::to_string\<close>, \<^verbatim>\<open>std::from_chars\<close> for \<^verbatim>\<open>int\<close>, \<^verbatim>\<open>std::strtol\<close> with base 10, and
  \<^verbatim>\<open>std::isxdigit\<close>.  A string is a list of \<^typ>\<open>char\<close> (8-bit), \<^verbatim>\<open>npos\<close> is \<^term>\<open>None\<close>.
\<close>

section \<open>Searching and slicing\<close>

fun find_char :: "char \<Rightarrow> string \<Rightarrow> nat option" where
  "find_char c [] = None"
| "find_char c (x # xs) = (if x = c then Some 0 else map_option Suc (find_char c xs))"

definition find_from :: "char \<Rightarrow> string \<Rightarrow> nat \<Rightarrow> nat option" where
  "find_from c s pos = map_option (\<lambda>i. pos + i) (find_char c (drop pos s))"

fun rfind_char :: "char \<Rightarrow> string \<Rightarrow> nat option" where
  "rfind_char c [] = None"
| "rfind_char c (x # xs) =
     (case rfind_char c xs of Some i \<Rightarrow> Some (Suc i) | None \<Rightarrow> if x = c then Some 0 else None)"

definition substr :: "string \<Rightarrow> nat \<Rightarrow> nat \<Rightarrow> string" where
  "substr s pos n = take n (drop pos s)"

lemma find_char_None [simp]: "find_char c s = None \<longleftrightarrow> c \<notin> set s"
  by (induction s) auto

lemma find_char_not_in [simp]: "c \<notin> set s \<Longrightarrow> find_char c s = None"
  by simp

lemma find_char_SomeD:
  "find_char c s = Some i \<Longrightarrow> i < length s \<and> s ! i = c \<and> c \<notin> set (take i s)"
  by (induction s arbitrary: i) (auto split: if_splits)

lemma find_char_append_not_in [simp]:
  "c \<notin> set xs \<Longrightarrow> find_char c (xs @ c # ys) = Some (length xs)"
  by (induction xs) auto

lemma find_char_Some_split:
  assumes "find_char c s = Some i"
  shows "s = take i s @ c # drop (Suc i) s" and "c \<notin> set (take i s)"
  using find_char_SomeD [OF assms] id_take_nth_drop [of i s] by auto

lemma find_char_Some_iff:
  "find_char c s = Some i \<longleftrightarrow> (\<exists>xs ys. s = xs @ c # ys \<and> c \<notin> set xs \<and> i = length xs)"
proof
  assume "find_char c s = Some i"
  from find_char_Some_split [OF this] find_char_SomeD [OF this]
  show "\<exists>xs ys. s = xs @ c # ys \<and> c \<notin> set xs \<and> i = length xs"
    by (intro exI [of _ "take i s"] exI [of _ "drop (Suc i) s"]) simp
qed auto

section \<open>Decimal digits\<close>

abbreviation ord :: "char \<Rightarrow> nat" where
  "ord c \<equiv> of_char c"

definition is_digit :: "char \<Rightarrow> bool" where
  "is_digit c \<longleftrightarrow> 48 \<le> ord c \<and> ord c \<le> 57"

definition digit_val :: "char \<Rightarrow> nat" where
  "digit_val c = ord c - 48"

definition digit_char :: "nat \<Rightarrow> char" where
  "digit_char d = ''0123456789'' ! d"

definition dec_value :: "string \<Rightarrow> nat" where
  "dec_value ds = foldl (\<lambda>v c. v * 10 + digit_val c) 0 ds"

fun to_string :: "nat \<Rightarrow> string" where
  "to_string n =
     (if n < 10 then [digit_char n] else to_string (n div 10) @ [digit_char (n mod 10)])"

definition to_string_int :: "int \<Rightarrow> string" where
  "to_string_int v = (if v < 0 then CHR ''-'' # to_string (nat (- v)) else to_string (nat v))"

declare to_string.simps [simp del]

lemma less_10_cases: "d < (10 :: nat) \<Longrightarrow> d \<in> {0, 1, 2, 3, 4, 5, 6, 7, 8, 9}"
  by auto

lemma digit_char_is_digit [simp]: "d < 10 \<Longrightarrow> is_digit (digit_char d)"
  using less_10_cases [of d] by (auto simp: digit_char_def is_digit_def)

lemma digit_val_digit_char [simp]: "d < 10 \<Longrightarrow> digit_val (digit_char d) = d"
  using less_10_cases [of d] by (auto simp: digit_char_def digit_val_def)

lemma digit_val_less: "is_digit c \<Longrightarrow> digit_val c < 10"
  by (auto simp: is_digit_def digit_val_def)

lemma dec_value_Nil [simp]: "dec_value [] = 0"
  by (simp add: dec_value_def)

lemma dec_value_snoc [simp]: "dec_value (ds @ [c]) = dec_value ds * 10 + digit_val c"
  by (simp add: dec_value_def)

lemma to_string_digits: "\<forall>c \<in> set (to_string n). is_digit c"
proof (induction n rule: to_string.induct)
  case (1 n)
  then show ?case by (subst to_string.simps) auto
qed

lemma to_string_not_Nil [simp]: "to_string n \<noteq> []"
  by (subst to_string.simps) simp

lemma dec_value_to_string [simp]: "dec_value (to_string n) = n"
proof (induction n rule: to_string.induct)
  case (1 n)
  show ?case
  proof (cases "n < 10")
    case True
    then show ?thesis using dec_value_snoc [of "[]"] by (simp add: to_string.simps)
  next
    case False
    with "1.IH" show ?thesis by (subst to_string.simps) simp
  qed
qed

lemma to_string_inj [simp]: "to_string m = to_string n \<longleftrightarrow> m = n"
  by (metis dec_value_to_string)

lemma takeWhile_digits_append:
  assumes "\<forall>c \<in> set ds. is_digit c" and "rest = [] \<or> \<not> is_digit (hd rest)"
  shows "takeWhile is_digit (ds @ rest) = ds" and "dropWhile is_digit (ds @ rest) = rest"
  using assms by (cases rest; simp)+

lemma foldl_dec_mono: "v \<le> foldl (\<lambda>v c. v * 10 + digit_val c) v ds"
proof (induction ds arbitrary: v)
  case (Cons c ds)
  have "v \<le> v * 10 + digit_val c" by simp
  also have "\<dots> \<le> foldl (\<lambda>v c. v * 10 + digit_val c) (v * 10 + digit_val c) ds"
    by (rule Cons.IH)
  finally show ?case by simp
qed simp

section \<open>\<^verbatim>\<open>std::from_chars\<close> and \<^verbatim>\<open>std::strtol\<close>\<close>

text \<open>
  \<^verbatim>\<open>from_chars\<close> for \<^verbatim>\<open>int\<close> reads an optional minus sign and decimal digits, accepts neither
  white space nor a plus sign, and tells where it stopped.  \<^verbatim>\<open>strtol\<close> skips white space, takes
  either sign and saturates at the bounds of \<^verbatim>\<open>long\<close>; no conversion is \<^term>\<open>None\<close>.
\<close>

datatype from_chars_result = Parsed int string | Invalid_argument | Out_of_range

definition from_chars_int :: "string \<Rightarrow> from_chars_result" where
  "from_chars_int s =
     (let neg = (s \<noteq> [] \<and> hd s = CHR ''-'');
          body = (if neg then tl s else s);
          ds = takeWhile is_digit body;
          v = (if neg then - int (dec_value ds) else int (dec_value ds))
      in if ds = [] then Invalid_argument
         else if v < int32_min \<or> int32_max < v then Out_of_range
         else Parsed v (dropWhile is_digit body))"

definition is_space :: "char \<Rightarrow> bool" where
  "is_space c \<longleftrightarrow> ord c = 32 \<or> (9 \<le> ord c \<and> ord c \<le> 13)"

definition strtol10 :: "string \<Rightarrow> (int \<times> string) option" where
  "strtol10 s =
     (let t = dropWhile is_space s;
          neg = (t \<noteq> [] \<and> hd t = CHR ''-'');
          body = (if t \<noteq> [] \<and> (hd t = CHR ''-'' \<or> hd t = CHR ''+'') then tl t else t);
          ds = takeWhile is_digit body;
          v = (if neg then - int (dec_value ds) else int (dec_value ds))
      in if ds = [] then None
         else Some (max int64_min (min int64_max v), dropWhile is_digit body))"

lemma from_chars_range:
  "from_chars_int s = Parsed v rest \<Longrightarrow> int32_min \<le> v \<and> v \<le> int32_max"
  by (auto simp: from_chars_int_def Let_def split: if_splits)

lemma hd_to_string_digit: "is_digit (hd (to_string n))"
  using to_string_digits [of n] by (cases "to_string n") auto

lemma minus_not_digit [simp]: "\<not> is_digit (CHR ''-'')"
  by (simp add: is_digit_def)

lemma from_chars_to_string_int:
  assumes "int32_min \<le> v" "v \<le> int32_max"
  shows "from_chars_int (to_string_int v) = Parsed v []"
proof -
  have tk: "takeWhile is_digit (to_string n) = to_string n"
    and dr: "dropWhile is_digit (to_string n) = []" for n
    using takeWhile_digits_append [of "to_string n" "[]"] to_string_digits by auto
  have nohd: "hd (to_string n) \<noteq> CHR ''-''" for n
    using hd_to_string_digit [of n] by auto
  show ?thesis
    using assms by (auto simp: from_chars_int_def to_string_int_def tk dr nohd)
qed

section \<open>Hexadecimal characters\<close>

definition isxdigit :: "char \<Rightarrow> bool" where
  "isxdigit c \<longleftrightarrow>
     is_digit c \<or> (97 \<le> ord c \<and> ord c \<le> 102) \<or> (65 \<le> ord c \<and> ord c \<le> 70)"

end
