(* ===== verification/Hex.thy ===== *)
theory Hex
  imports Codec Cpp_Std
begin

text \<open>
  \<^verbatim>\<open>src/util/hex.cpp\<close>: conversion between byte vectors and lower-case hex strings.
\<close>

definition nibble :: "char \<Rightarrow> byte" where
  "nibble c =
     (if 48 \<le> ord c \<and> ord c \<le> 57 then of_nat (ord c - 48)
      else if 97 \<le> ord c \<and> ord c \<le> 102 then of_nat (ord c - 97 + 10)
      else if 65 \<le> ord c \<and> ord c \<le> 70 then of_nat (ord c - 65 + 10)
      else 0)"

text \<open>The loop of \<^verbatim>\<open>hex_decode\<close>; \<^term>\<open>None\<close> is its early return of an empty vector.\<close>

fun hex_decode_loop :: "string \<Rightarrow> bytes option" where
  "hex_decode_loop [] = Some []"
| "hex_decode_loop [_] = None"
| "hex_decode_loop (hi # lo # rest) =
     (if \<not> isxdigit hi \<or> \<not> isxdigit lo then None
      else map_option (\<lambda>bs. (push_bit 4 (nibble hi) OR nibble lo) # bs) (hex_decode_loop rest))"

definition hex_decode :: "string \<Rightarrow> bytes" where
  "hex_decode hex =
     (if length hex mod 2 \<noteq> 0 then []
      else case hex_decode_loop hex of None \<Rightarrow> [] | Some bs \<Rightarrow> bs)"

definition kHexChars :: string where
  "kHexChars = ''0123456789abcdef''"

definition hex_byte :: "byte \<Rightarrow> string" where
  "hex_byte b = [kHexChars ! unat (drop_bit 4 b AND 15), kHexChars ! unat (b AND 15)]"

definition hex_encode :: "bytes \<Rightarrow> string" where
  "hex_encode data = concat (map hex_byte data)"

section \<open>Behaviour\<close>

definition lower_hex :: "char \<Rightarrow> bool" where
  "lower_hex c \<longleftrightarrow> is_digit c \<or> (97 \<le> ord c \<and> ord c \<le> 102)"

lemma kHexChars_lower [simp]: "d < 16 \<Longrightarrow> lower_hex (kHexChars ! d)"
  using less_16_cases [of d] by (auto simp: kHexChars_def lower_hex_def is_digit_def)

lemma lower_hex_isxdigit: "lower_hex c \<Longrightarrow> isxdigit c"
  by (auto simp: lower_hex_def isxdigit_def)

lemma nibble_kHexChars: "d < 16 \<Longrightarrow> nibble (kHexChars ! d) = of_nat d"
  using less_16_cases [of d] by (auto simp: kHexChars_def nibble_def)

lemma nibble_hex_digit: "nibble (kHexChars ! unat (b AND 15)) = b AND 15"
  by (simp add: nibble_kHexChars unat_and_15_less)

lemma isxdigit_hex_digit: "isxdigit (kHexChars ! unat ((b :: byte) AND 15))"
  by (simp add: lower_hex_isxdigit unat_and_15_less)

lemma hex_decode_loop_byte:
  "hex_decode_loop (hex_byte b @ rest) = map_option ((#) b) (hex_decode_loop rest)"
  by (simp add: hex_byte_def isxdigit_hex_digit nibble_hex_digit nibbles_join)

lemma hex_decode_loop_encode: "hex_decode_loop (hex_encode data) = Some data"
  by (induction data) (auto simp: hex_encode_def hex_decode_loop_byte)

lemma length_hex_encode [simp]: "length (hex_encode data) = 2 * length data"
  by (induction data) (auto simp: hex_encode_def hex_byte_def)

lemma hex_decode_encode: "hex_decode (hex_encode data) = data"
  by (simp add: hex_decode_def hex_decode_loop_encode)

lemma hex_encode_lower: "c \<in> set (hex_encode data) \<Longrightarrow> lower_hex c"
  by (induction data) (auto simp: hex_encode_def hex_byte_def unat_and_15_less)

lemma hex_decode_loop_length:
  "hex_decode_loop hex = Some bs \<Longrightarrow> length hex = 2 * length bs"
  by (induction hex arbitrary: bs rule: hex_decode_loop.induct) (auto split: if_splits)

lemma hex_decode_loop_iff:
  "(\<exists>bs. hex_decode_loop hex = Some bs) \<longleftrightarrow> even (length hex) \<and> list_all isxdigit hex"
  by (induction hex rule: hex_decode_loop.induct) auto

section \<open>Properties of the hexadecimal codec\<close>

text \<open>The codec contract, with the strict decoder behind \<^verbatim>\<open>hex_decode\<close>.\<close>

interpretation hexadecimal: codec hex_encode hex_decode_loop "\<lambda>_. True"
  by unfold_locales (simp add: hex_decode_loop_encode)

text \<open>
  Hexadecimal text round trips: encoding writes two lower case hexadecimal digits per byte,
  decoding the text gives the bytes back, and different byte strings have different texts.
\<close>

lemma hex_round_trip:
  "hex_decode (hex_encode data) = data \<and> length (hex_encode data) = 2 * length data \<and>
   list_all lower_hex (hex_encode data) \<and> inj hex_encode"
  using hexadecimal.inj_on_encode
  by (auto simp: hex_decode_encode list_all_iff hex_encode_lower inj_on_def)

lemma hex_decode_loop_nth:
  "hex_decode_loop hex = Some bs \<Longrightarrow> i < length bs \<Longrightarrow>
     bs ! i = push_bit 4 (nibble (hex ! (2 * i))) OR nibble (hex ! (2 * i + 1))"
proof (induction hex arbitrary: bs i rule: hex_decode_loop.induct)
  case (3 hi lo rest)
  then obtain cs where cs: "hex_decode_loop rest = Some cs" "isxdigit hi" "isxdigit lo"
    "bs = (push_bit 4 (nibble hi) OR nibble lo) # cs" by (auto split: if_splits)
  with 3 show ?case by (cases i) auto
qed auto

text \<open>
  Decoding accepts exactly the texts of even length made of hexadecimal digits of either case,
  and byte \<open>i\<close> then has the digits \<open>2 i\<close> and \<open>2 i + 1\<close>; every other text gives the empty byte string,
  never a partial result.
\<close>

lemma hex_decode_strict:
  "if even (length hex) \<and> list_all isxdigit hex
   then 2 * length (hex_decode hex) = length hex \<and>
     hex_decode hex = map (\<lambda>i. push_bit 4 (nibble (hex ! (2 * i))) OR nibble (hex ! (2 * i + 1))) [0..<length hex div 2]
   else hex_decode hex = []"
proof (cases "hex_decode_loop hex")
  case None
  then show ?thesis using hex_decode_loop_iff [of hex] by (auto simp: hex_decode_def)
next
  case (Some bs)
  have len: "length hex = 2 * length bs" using hex_decode_loop_length [OF Some] .
  moreover have "bs = map (\<lambda>i. push_bit 4 (nibble (hex ! (2 * i))) OR nibble (hex ! (2 * i + 1))) [0..<length bs]"
    using hex_decode_loop_nth [OF Some] by (intro nth_equalityI) auto
  ultimately show ?thesis using hex_decode_loop_iff [of hex] Some by (simp add: hex_decode_def)
qed

end
