(* ===== verification/Json_Builder.thy ===== *)
theory Json_Builder
  imports Codec Cpp_Std
begin

text \<open>
  \<^verbatim>\<open>src/util/json_builder.cpp\<close>: the incremental JSON writer.  The object is a record of its three
  fields; every member function is a state transformer.
\<close>

section \<open>The builder\<close>

record json_builder =
  jb_buffer :: string
  jb_first :: bool
  jb_open_objects :: int

definition jb_new :: json_builder where
  "jb_new = \<lparr>jb_buffer = [], jb_first = True, jb_open_objects = 0\<rparr>"

definition jb_append :: "string \<Rightarrow> json_builder \<Rightarrow> json_builder" where
  "jb_append s jb = jb\<lparr>jb_buffer := jb_buffer jb @ s\<rparr>"

definition start_object :: "json_builder \<Rightarrow> json_builder" where
  "start_object jb = jb\<lparr>jb_buffer := jb_buffer jb @ ''{'', jb_first := True,
     jb_open_objects := jb_open_objects jb + 1\<rparr>"

definition end_object :: "json_builder \<Rightarrow> json_builder" where
  "end_object jb = jb\<lparr>jb_buffer := jb_buffer jb @ ''}'',
     jb_open_objects := jb_open_objects jb - 1, jb_first := False\<rparr>"

definition add_comma :: "json_builder \<Rightarrow> json_builder" where
  "add_comma jb = (if \<not> jb_first jb then jb_append '','' jb else jb)"

definition escape_char :: "char \<Rightarrow> string" where
  "escape_char c =
     (if c = CHR 0x22 then [CHR 0x5C, CHR 0x22]
      else if c = CHR 0x5C then [CHR 0x5C, CHR 0x5C]
      else if c = CHR 0x0A then [CHR 0x5C, CHR ''n'']
      else if c = CHR 0x0D then [CHR 0x5C, CHR ''r'']
      else if c = CHR 0x09 then [CHR 0x5C, CHR ''t'']
      else [c])"

definition add_quoted :: "string \<Rightarrow> json_builder \<Rightarrow> json_builder" where
  "add_quoted str jb =
     jb_append [CHR 0x22] (fold (\<lambda>c. jb_append (escape_char c)) str (jb_append [CHR 0x22] jb))"

definition add_string :: "string \<Rightarrow> string \<Rightarrow> json_builder \<Rightarrow> json_builder" where
  "add_string key val jb =
     (add_quoted val (jb_append '':'' (add_quoted key (add_comma jb))))\<lparr>jb_first := False\<rparr>"

definition add_number :: "string \<Rightarrow> int \<Rightarrow> json_builder \<Rightarrow> json_builder" where
  "add_number key val jb =
     (jb_append (to_string_int val) (jb_append '':'' (add_quoted key (add_comma jb))))
       \<lparr>jb_first := False\<rparr>"

definition add_key :: "string \<Rightarrow> json_builder \<Rightarrow> json_builder" where
  "add_key key jb = (jb_append '':'' (add_quoted key (add_comma jb)))\<lparr>jb_first := True\<rparr>"

definition add_raw :: "string \<Rightarrow> json_builder \<Rightarrow> json_builder" where
  "add_raw raw jb = (jb_append raw (add_comma jb))\<lparr>jb_first := False\<rparr>"

definition jb_take :: "json_builder \<Rightarrow> string" where
  "jb_take jb = jb_buffer jb"

definition jb_clear :: "json_builder \<Rightarrow> json_builder" where
  "jb_clear jb = jb\<lparr>jb_buffer := [], jb_first := True, jb_open_objects := 0\<rparr>"

section \<open>JSON documents\<close>

text \<open>
  What the builder is meant to write: the compact rendering of a tree.  \<open>JRaw\<close> is the text of
  \<^verbatim>\<open>LOGIN_EXTRA_CONFIG\<close>, which is copied as it is between the members of an object.
\<close>

datatype json = JString string | JNumber int | JObject "member list"
and member = Member string json | JRaw string

definition json_quote :: "string \<Rightarrow> string" where
  "json_quote s = [CHR 0x22] @ concat (map escape_char s) @ [CHR 0x22]"

fun render :: "json \<Rightarrow> string"
and render_member :: "member \<Rightarrow> string"
and render_members :: "member list \<Rightarrow> string" where
  "render (JString s) = json_quote s"
| "render (JNumber n) = to_string_int n"
| "render (JObject ms) = ''{'' @ render_members ms @ ''}''"
| "render_member (Member k v) = json_quote k @ '':'' @ render v"
| "render_member (JRaw s) = s"
| "render_members [] = []"
| "render_members [m] = render_member m"
| "render_members (m # ms) = render_member m @ '','' @ render_members ms"

text \<open>The builder calls that write a member, and a list of members.\<close>

fun emit :: "member \<Rightarrow> json_builder \<Rightarrow> json_builder"
and emit_all :: "member list \<Rightarrow> json_builder \<Rightarrow> json_builder" where
  "emit (Member k (JString s)) jb = add_string k s jb"
| "emit (Member k (JNumber n)) jb = add_number k n jb"
| "emit (Member k (JObject ms)) jb = end_object (emit_all ms (start_object (add_key k jb)))"
| "emit (JRaw s) jb = add_raw s jb"
| "emit_all [] jb = jb"
| "emit_all (m # ms) jb = emit_all ms (emit m jb)"

definition emit_document :: "member list \<Rightarrow> json_builder \<Rightarrow> json_builder" where
  "emit_document ms jb = end_object (emit_all ms (start_object jb))"

section \<open>The builder writes the rendering\<close>

lemma buffer_append [simp]:
  "jb_buffer (jb_append s jb) = jb_buffer jb @ s"
  "jb_first (jb_append s jb) = jb_first jb"
  "jb_open_objects (jb_append s jb) = jb_open_objects jb"
  by (simp_all add: jb_append_def)

lemma fold_escape:
  "fold (\<lambda>c. jb_append (escape_char c)) str jb = jb_append (concat (map escape_char str)) jb"
  by (induction str arbitrary: jb) (simp_all add: jb_append_def)

lemma add_quoted_eq [json_simps]: "add_quoted str jb = jb_append (json_quote str) jb"
  by (simp add: add_quoted_def fold_escape json_quote_def jb_append_def)

definition sep :: "json_builder \<Rightarrow> string" where
  "sep jb = (if jb_first jb then [] else '','')"

lemma add_comma_eq [json_simps]: "add_comma jb = jb_append (sep jb) jb"
  by (simp add: add_comma_def sep_def jb_append_def)

lemmas builder_defs = start_object_def end_object_def add_string_def add_number_def add_key_def
  add_raw_def

text \<open>
  A member writes its separator and its rendering and leaves the object count as it was; a list
  of members writes them with commas between.
\<close>

lemma emit_spec:
  "jb_buffer (emit m jb) = jb_buffer jb @ sep jb @ render_member m \<and>
   \<not> jb_first (emit m jb) \<and> jb_open_objects (emit m jb) = jb_open_objects jb"
  "jb_buffer (emit_all ms jb) = jb_buffer jb @ (if ms = [] then [] else sep jb) @ render_members ms \<and>
   jb_open_objects (emit_all ms jb) = jb_open_objects jb"
proof (induction m jb and ms jb rule: emit_emit_all.induct)
  case (6 m ms jb)
  then show ?case by (cases ms) (auto simp: sep_def)
qed (auto simp: builder_defs json_simps sep_def)

lemma emit_document_render:
  "jb_buffer (emit_document ms jb) = jb_buffer jb @ render (JObject ms)"
  by (simp add: emit_document_def end_object_def emit_spec) (simp add: builder_defs sep_def)


section \<open>Reading JSON back\<close>

text \<open>
  A reader for the fragment of JSON the builder writes, strict about what a string may hold:
  control characters below 32 must be escaped.
\<close>

definition unescape :: "char \<Rightarrow> char option" where
  "unescape e =
     (if e = CHR 0x22 then Some (CHR 0x22)
      else if e = CHR 0x5C then Some (CHR 0x5C)
      else if e = CHR ''/'' then Some (CHR ''/'')
      else if e = CHR ''n'' then Some (CHR 0x0A)
      else if e = CHR ''r'' then Some (CHR 0x0D)
      else if e = CHR ''t'' then Some (CHR 0x09)
      else None)"

fun read_chars :: "string \<Rightarrow> (string \<times> string) option" where
  "read_chars [] = None"
| "read_chars (c # cs) =
     (if c = CHR 0x22 then Some ([], cs)
      else if c = CHR 0x5C then
        (case cs of [] \<Rightarrow> None
         | e # cs' \<Rightarrow> (case unescape e of None \<Rightarrow> None
             | Some x \<Rightarrow> map_option (\<lambda>(s, r). (x # s, r)) (read_chars cs')))
      else if ord c < 32 then None
      else map_option (\<lambda>(s, r). (c # s, r)) (read_chars cs))"

definition read_string :: "string \<Rightarrow> (string \<times> string) option" where
  "read_string s = (case s of [] \<Rightarrow> None | c # cs \<Rightarrow> if c = CHR 0x22 then read_chars cs else None)"

definition read_number :: "string \<Rightarrow> (int \<times> string) option" where
  "read_number s =
     (let neg = (s \<noteq> [] \<and> hd s = CHR ''-'');
          body = (if neg then tl s else s);
          ds = takeWhile is_digit body
      in if ds = [] then None
         else Some (if neg then - int (dec_value ds) else int (dec_value ds), dropWhile is_digit body))"

fun read_value :: "nat \<Rightarrow> string \<Rightarrow> (json \<times> string) option"
and read_members :: "nat \<Rightarrow> string \<Rightarrow> (member list \<times> string) option" where
  "read_value 0 s = None"
| "read_value (Suc fuel) s =
     (case s of [] \<Rightarrow> None
      | c # cs \<Rightarrow>
          if c = CHR 0x22 then map_option (\<lambda>(t, r). (JString t, r)) (read_string s)
          else if c = CHR ''{'' then
            (case cs of
               [] \<Rightarrow> None
             | d # ds \<Rightarrow> if d = CHR ''}'' then Some (JObject [], ds)
                 else map_option (\<lambda>(ms, r). (JObject ms, r)) (read_members fuel cs))
          else map_option (\<lambda>(n, r). (JNumber n, r)) (read_number s))"
| "read_members 0 s = None"
| "read_members (Suc fuel) s =
     (case read_string s of
        Some (k, c # r) \<Rightarrow>
          if c \<noteq> CHR '':'' then None
          else (case read_value fuel r of
                  Some (v, d # r') \<Rightarrow>
                    if d = CHR ''}'' then Some ([Member k v], r')
                    else if d = CHR '','' then
                      map_option (\<lambda>(ms, r''). (Member k v # ms, r'')) (read_members fuel r')
                    else None
                | _ \<Rightarrow> None)
      | _ \<Rightarrow> None)"

definition printable :: "string \<Rightarrow> bool" where
  "printable s \<longleftrightarrow> (\<forall>c \<in> set s. 32 \<le> ord c \<or> c = CHR 0x0A \<or> c = CHR 0x0D \<or> c = CHR 0x09)"

fun json_ok :: "json \<Rightarrow> bool"
and member_ok :: "member \<Rightarrow> bool"
and members_ok :: "member list \<Rightarrow> bool" where
  "json_ok (JString s) = printable s"
| "json_ok (JNumber n) = True"
| "json_ok (JObject ms) = members_ok ms"
| "member_ok (Member k v) = (printable k \<and> json_ok v)"
| "member_ok (JRaw s) = False"
| "members_ok [] = True"
| "members_ok (m # ms) = (member_ok m \<and> members_ok ms)"

fun json_fuel :: "json \<Rightarrow> nat"
and member_fuel :: "member \<Rightarrow> nat"
and members_fuel :: "member list \<Rightarrow> nat" where
  "json_fuel (JString s) = 1"
| "json_fuel (JNumber n) = 1"
| "json_fuel (JObject ms) = 1 + members_fuel ms"
| "member_fuel (Member k v) = json_fuel v"
| "member_fuel (JRaw s) = 0"
| "members_fuel [] = 0"
| "members_fuel (m # ms) = 1 + max (member_fuel m) (members_fuel ms)"

lemma read_chars_escape:
  "printable s \<Longrightarrow> read_chars (concat (map escape_char s) @ CHR 0x22 # rest) = Some (s, rest)"
  by (induction s) (auto simp: printable_def escape_char_def unescape_def)

lemma read_string_quote: "printable s \<Longrightarrow> read_string (json_quote s @ rest) = Some (s, rest)"
  by (simp add: read_string_def json_quote_def read_chars_escape)

lemma hd_to_string_not_minus [simp]: "hd (to_string k) \<noteq> CHR ''-''"
  using hd_to_string_digit [of k] by auto

lemma read_number_to_string:
  assumes "rest = [] \<or> \<not> is_digit (hd rest)"
  shows "read_number (to_string_int n @ rest) = Some (n, rest)"
  using takeWhile_digits_append [OF to_string_digits assms]
  by (auto simp: read_number_def to_string_int_def Let_def)

lemma to_string_int_hd:
  "\<exists>c cs. to_string_int n = c # cs \<and> c \<noteq> CHR 0x22 \<and> c \<noteq> CHR ''{''"
  using hd_to_string_digit [of "nat n"]
  by (cases "to_string (nat n)") (auto simp: to_string_int_def is_digit_def)

lemma render_members_hd:
  assumes "members_ok ms" "ms \<noteq> []"
  obtains cs where "render_members ms = CHR 0x22 # cs"
proof -
  obtain m ms' where ms: "ms = m # ms'" using assms(2) by (cases ms) auto
  then obtain k v where "m = Member k v" using assms(1) by (cases m) auto
  with ms that show ?thesis by (cases ms') (auto simp: json_quote_def)
qed

lemma read_render:
  "json_ok j \<Longrightarrow> json_fuel j \<le> fuel \<Longrightarrow> rest = [] \<or> \<not> is_digit (hd rest) \<Longrightarrow>
    read_value fuel (render j @ rest) = Some (j, rest)"
  "member_ok m \<Longrightarrow> member_fuel m \<le> fuel \<Longrightarrow> rest = [] \<or> \<not> is_digit (hd rest) \<Longrightarrow>
    \<exists>k v. m = Member k v \<and> printable k \<and> read_value fuel (render v @ rest) = Some (v, rest)"
  "members_ok ms \<Longrightarrow> ms \<noteq> [] \<Longrightarrow> members_fuel ms \<le> fuel \<Longrightarrow>
    read_members fuel (render_members ms @ CHR ''}'' # rest') = Some (ms, rest')"
proof (induction j and m and ms arbitrary: fuel rest and fuel rest and fuel rest'
    rule: render_render_member_render_members.induct)
  case (1 s)
  then show ?case
    by (cases fuel) (simp_all add: read_string_def json_quote_def read_chars_escape)
next
  case (2 n)
  obtain c cs where "to_string_int n = c # cs" "c \<noteq> CHR 0x22" "c \<noteq> CHR ''{''"
    using to_string_int_hd by blast
  with 2 show ?case
    using read_number_to_string [OF 2(3), of n] by (cases fuel) simp_all
next
  case (3 ms)
  then obtain f where f: "fuel = Suc f" "members_fuel ms \<le> f" by (cases fuel) auto
  show ?case
  proof (cases "ms = []")
    case False
    with 3 f obtain cs where "render_members ms = CHR 0x22 # cs"
      by (auto elim: render_members_hd)
    with False 3 f show ?thesis by auto
  qed (use f in simp)
next
  case (7 m)
  then obtain f where f: "fuel = Suc f" "member_fuel m \<le> f" by (cases fuel) auto
  obtain k v where "m = Member k v" "printable k"
    "read_value f (render v @ CHR ''}'' # rest') = Some (v, CHR ''}'' # rest')"
    using "7.IH" [of f "CHR ''}'' # rest'"] "7.prems" f by (auto simp: is_digit_def)
  with f show ?case by (simp add: read_string_quote)
next
  case (8 m m' ms)
  then obtain f where f: "fuel = Suc f" "member_fuel m \<le> f" "members_fuel (m' # ms) \<le> f"
    by (cases fuel) auto
  let ?rest = "render_members (m' # ms) @ CHR ''}'' # rest'"
  obtain k v where "m = Member k v" "printable k"
    "read_value f (render v @ CHR '','' # ?rest) = Some (v, CHR '','' # ?rest)"
    using "8.IH"(1) [of f "CHR '','' # ?rest"] "8.prems" f by (auto simp: is_digit_def)
  moreover have "read_members f ?rest = Some (m' # ms, rest')"
    using "8.IH"(2) "8.prems" f by simp
  ultimately show ?case using f by (simp add: read_string_quote)
qed auto


text \<open>The length of the text is fuel enough.\<close>

definition parse_document :: "string \<Rightarrow> json option" where
  "parse_document s = (case read_value (length s) s of Some (j, []) \<Rightarrow> Some j | _ \<Rightarrow> None)"

lemma fuel_le_length:
  "json_ok j \<Longrightarrow> json_fuel j \<le> length (render j)"
  "member_ok m \<Longrightarrow> member_fuel m < length (render_member m)"
  "members_ok ms \<Longrightarrow> members_fuel ms \<le> length (render_members ms)"
  by (induction j and m and ms rule: render_render_member_render_members.induct)
    (auto simp: json_quote_def to_string_int_def Suc_le_eq)

lemma parse_document_render: "json_ok j \<Longrightarrow> parse_document (render j) = Some j"
  using read_render(1) [of j "length (render j)" "[]"] fuel_le_length(1)
  by (simp add: parse_document_def)

interpretation json_doc: codec render parse_document json_ok
  by unfold_locales (rule parse_document_render)

section \<open>Properties of the builder\<close>

text \<open>
  The builder's calls for the members of an object, nested objects included, append exactly the
  compact rendering of that object to the buffer: commas between members and nowhere else, braces
  balanced, strings escaped.
\<close>

lemma builder_writes_rendering:
  "jb_take (emit_document ms jb_new) = render (JObject ms) \<and>
   jb_buffer (emit_document ms jb) = jb_buffer jb @ render (JObject ms)"
  by (simp add: emit_document_render jb_take_def jb_new_def)

text \<open>
  (C38) What the builder writes is JSON and can be read back: the reader gives the same tree for every
  document whose strings hold no control characters other than tab, line feed and carriage return.
\<close>

theorem builder_output_parses:
  assumes "members_ok ms"
  shows "parse_document (jb_take (emit_document ms jb_new)) = Some (JObject ms)"
  using assms parse_document_render [of "JObject ms"]
  by (simp add: emit_document_render jb_take_def jb_new_def)

theorem builder_output_parses_witness:
  "parse_document (jb_take (emit_document [Member ''d'' (JObject [Member ''1/2/3'' (JString ''ff'')]),
     Member ''i'' (JNumber 7)] jb_new)) =
   Some (JObject [Member ''d'' (JObject [Member ''1/2/3'' (JString ''ff'')]), Member ''i'' (JNumber 7)])"
  by (rule builder_output_parses) (simp add: printable_def)

text \<open>A control character outside the five escapes goes into the text as it is.\<close>

lemma control_character_unescaped: "escape_char (CHR 0x01) = [CHR 0x01]"
  by (simp add: escape_char_def)

end
