(* ===== verification/Query_String.thy ===== *)
theory Query_String
  imports Cpp_Std "HOL-Library.AList"
begin

text \<open>
  \<^verbatim>\<open>src/util/query_string.cpp\<close>: the parser of URL-encoded query strings with its limits on keys,
  values per key and pairs.  The \<^verbatim>\<open>unordered_map\<close> \<^verbatim>\<open>params_\<close> is an association list with distinct
  keys; the class never iterates over it.
\<close>

section \<open>Percent decoding\<close>

definition from_hex :: "char \<Rightarrow> int" where
  "from_hex c =
     (if 48 \<le> ord c \<and> ord c \<le> 57 then int (ord c) - 48
      else if 97 \<le> ord c \<and> ord c \<le> 102 then int (ord c) - 97 + 10
      else if 65 \<le> ord c \<and> ord c \<le> 70 then int (ord c) - 65 + 10
      else - 1)"

fun url_decode :: "string \<Rightarrow> string" where
  "url_decode [] = []"
| "url_decode (c # rest) =
     (if c = CHR ''%'' then
        (case rest of
           h # l # after \<Rightarrow>
             if 0 \<le> from_hex h \<and> 0 \<le> from_hex l
             then char_of (nat (push_bit 4 (from_hex h) OR from_hex l)) # url_decode after
             else c # url_decode rest
         | _ \<Rightarrow> c # url_decode rest)
      else if c = CHR ''+'' then CHR '' '' # url_decode rest
      else c # url_decode rest)"

section \<open>The parser\<close>

type_synonym params = "(string \<times> string list) list"

definition kMaxQueryParams :: nat where "kMaxQueryParams = 100"
definition kMaxValuesPerKey :: nat where "kMaxValuesPerKey = 250"
definition kMaxTotalPairs :: nat where "kMaxTotalPairs = 256"

lemmas query_limits = kMaxQueryParams_def kMaxValuesPerKey_def kMaxTotalPairs_def

text \<open>The insertion at the end of the loop body, with the two limits that skip a value.\<close>

definition params_insert :: "string \<Rightarrow> string \<Rightarrow> params \<Rightarrow> params" where
  "params_insert key value ps =
     (case map_of ps key of
        Some vs \<Rightarrow> if kMaxValuesPerKey \<le> length vs then ps else AList.update key (vs @ [value]) ps
      | None \<Rightarrow> if kMaxQueryParams \<le> length ps then ps else AList.update key [value] ps)"

function query_loop :: "string \<Rightarrow> nat \<Rightarrow> nat \<Rightarrow> params \<Rightarrow> params" where
  "query_loop raw pos total_pairs ps =
     (if \<not> pos < length raw \<or> kMaxTotalPairs \<le> total_pairs then ps
      else
        let eq = find_from (CHR ''='') raw pos;
            amp = find_from (CHR ''&'') raw pos;
            next = (case amp of None \<Rightarrow> length raw | Some a \<Rightarrow> a + 1)
        in case eq of
             None \<Rightarrow> query_loop raw next (total_pairs + 1) ps
           | Some e \<Rightarrow>
               if (case amp of None \<Rightarrow> False | Some a \<Rightarrow> e > a)
               then query_loop raw next (total_pairs + 1) ps
               else
                 let key = url_decode (substr raw pos (e - pos));
                     val_end = (case amp of None \<Rightarrow> length raw | Some a \<Rightarrow> a);
                     value = url_decode (substr raw (e + 1) (val_end - e - 1))
                 in query_loop raw next (total_pairs + 1) (params_insert key value ps))"
  by pat_completeness auto
termination
  by (relation "measure (\<lambda>(raw, pos, total_pairs, ps). kMaxTotalPairs - total_pairs)") auto

declare query_loop.simps [simp del]

definition query_string :: "string \<Rightarrow> params" where
  "query_string raw = (if raw = [] then [] else query_loop raw 0 0 [])"

definition qs_get :: "params \<Rightarrow> string \<Rightarrow> string option" where
  "qs_get ps key =
     (case map_of ps key of Some (v # _) \<Rightarrow> Some v | _ \<Rightarrow> None)"

definition qs_get_all :: "params \<Rightarrow> string \<Rightarrow> string list" where
  "qs_get_all ps key = (case map_of ps key of Some vs \<Rightarrow> vs | None \<Rightarrow> [])"

definition qs_has :: "params \<Rightarrow> string \<Rightarrow> bool" where
  "qs_has ps key \<longleftrightarrow> map_of ps key \<noteq> None"

definition qs_size :: "params \<Rightarrow> nat" where
  "qs_size ps = length ps"

section \<open>The reference parser\<close>

text \<open>
  The same result, said without positions: cut the string at the ampersands (an empty piece after
  the last one does not count), keep the first 256 pieces, and insert every piece that has an
  equals sign.
\<close>

function segments :: "string \<Rightarrow> string list" where
  "segments [] = []"
| "s \<noteq> [] \<Longrightarrow> segments s =
     takeWhile (\<lambda>c. c \<noteq> CHR ''&'') s # segments (drop 1 (dropWhile (\<lambda>c. c \<noteq> CHR ''&'') s))"
  by auto
termination
proof (relation "measure length", goal_cases)
  case (2 s)
  then show ?case
    using length_dropWhile_le [of "\<lambda>c. c \<noteq> CHR ''&''" s] by (cases s) auto
qed simp

definition seg_key :: "string \<Rightarrow> string" where
  "seg_key seg = url_decode (takeWhile (\<lambda>c. c \<noteq> CHR ''='') seg)"

definition seg_value :: "string \<Rightarrow> string" where
  "seg_value seg = url_decode (drop 1 (dropWhile (\<lambda>c. c \<noteq> CHR ''='') seg))"

definition add_segment :: "params \<Rightarrow> string \<Rightarrow> params" where
  "add_segment ps seg =
     (if CHR ''='' \<in> set seg then params_insert (seg_key seg) (seg_value seg) ps else ps)"

lemma find_char_length_takeWhile:
  "c \<in> set s \<Longrightarrow> find_char c s = Some (length (takeWhile (\<lambda>x. x \<noteq> c) s))"
  by (induction s) auto

lemma drop_dropWhile:
  "drop (Suc (length (takeWhile P s))) s = drop 1 (dropWhile P s)"
  by (simp add: dropWhile_eq_drop)


lemma find_char_append:
  "find_char c (xs @ ys) =
     (if c \<in> set xs then find_char c xs else map_option (\<lambda>i. length xs + i) (find_char c ys))"
  by (induction xs) (auto simp: map_option_case split: option.splits)

text \<open>The segment at a position, what follows it, and where the search for the next ampersand ends.\<close>

lemma segment_rest:
  assumes "pos < length raw" "seg = takeWhile (\<lambda>c. c \<noteq> CHR ''&'') (drop pos raw)"
  obtains rest where "drop pos raw = seg @ rest" "rest = [] \<or> hd rest = CHR ''&''"
    "length raw = pos + length seg + length rest"
    "find_from (CHR ''&'') raw pos = (if rest = [] then None else Some (pos + length seg))"
proof -
  obtain rest where rest: "rest = dropWhile (\<lambda>c. c \<noteq> CHR ''&'') (drop pos raw)" by simp
  have t: "drop pos raw = seg @ rest" by (simp add: assms(2) rest)
  have hd: "rest = [] \<or> hd rest = CHR ''&''" unfolding rest using hd_dropWhile by blast
  have seg: "CHR ''&'' \<notin> set seg" by (auto simp: assms(2) dest: set_takeWhileD)
  have len: "length raw = pos + length seg + length rest" using arg_cong [OF t, of length] assms(1) by simp
  have "find_from (CHR ''&'') raw pos = (if rest = [] then None else Some (pos + length seg))"
    using hd seg by (cases rest) (simp_all add: find_from_def t find_char_append)
  with t hd len show thesis by (rule that)
qed

text \<open>One round of the loop consumes one segment.\<close>

lemma query_loop_step:
  assumes "pos < length raw" "n < kMaxTotalPairs"
  defines "seg \<equiv> takeWhile (\<lambda>c. c \<noteq> CHR ''&'') (drop pos raw)"
  shows "query_loop raw pos n ps =
    query_loop raw (min (length raw) (pos + length seg + 1)) (n + 1) (add_segment ps seg)"
proof -
  obtain rest where t: "drop pos raw = seg @ rest" and rest: "rest = [] \<or> hd rest = CHR ''&''"
    and len: "length raw = pos + length seg + length rest"
    and amp: "find_from (CHR ''&'') raw pos = (if rest = [] then None else Some (pos + length seg))"
    using segment_rest [OF assms(1) meta_eq_to_obj_eq [OF seg_def]] .
  have next_pos: "(case find_from (CHR ''&'') raw pos of None \<Rightarrow> length raw | Some a \<Rightarrow> a + 1)
      = min (length raw) (pos + length seg + 1)"
    using len by (cases rest) (auto simp: amp)
  show ?thesis
  proof (cases "CHR ''='' \<in> set seg")
    case True
    let ?k = "length (takeWhile (\<lambda>x. x \<noteq> CHR ''='') seg)"
    have eq: "find_from (CHR ''='') raw pos = Some (pos + ?k)"
      using True by (simp add: find_from_def t find_char_append find_char_length_takeWhile)
    have k: "?k < length seg"
      using find_char_SomeD [OF find_char_length_takeWhile [OF True]] by simp
    have key: "substr raw pos ?k = takeWhile (\<lambda>x. x \<noteq> CHR ''='') seg"
      using k takeWhile_eq_take [of "\<lambda>x. x \<noteq> CHR ''=''" seg, symmetric]
      by (simp add: substr_def t)
    have "drop (pos + ?k + 1) raw = drop (Suc ?k) (drop pos raw)" by (simp add: add.commute)
    then have val: "substr raw (pos + ?k + 1) (pos + length seg - (pos + ?k) - 1) =
        drop 1 (dropWhile (\<lambda>x. x \<noteq> CHR ''='') seg)"
      using k by (simp add: substr_def t dropWhile_eq_drop)
    have val_end: "(case find_from (CHR ''&'') raw pos of None \<Rightarrow> length raw | Some a \<Rightarrow> a)
        = pos + length seg"
      using len by (simp add: amp)
    have "\<not> (case find_from (CHR ''&'') raw pos of None \<Rightarrow> False | Some a \<Rightarrow> pos + ?k > a)"
      using k by (simp add: amp)
    then show ?thesis
      using assms(1,2) True
      by (subst query_loop.simps)
        (simp only: Let_def eq option.case next_pos val_end add_segment_def seg_key_def seg_value_def
          key val if_True if_False not_True_eq_False not_less simp_thms diff_add_inverse, simp)
  next
    case False
    have "(case find_from (CHR ''='') raw pos of None \<Rightarrow> True
        | Some e \<Rightarrow> (case find_from (CHR ''&'') raw pos of None \<Rightarrow> False | Some a \<Rightarrow> e > a))"
      using False rest
      by (cases rest) (auto simp: amp find_from_def [of "CHR ''=''"] t find_char_append
          split: option.splits)
    then show ?thesis
      using assms(1,2) False next_pos
      by (subst query_loop.simps) (auto simp: Let_def add_segment_def split: option.splits)
  qed
qed

lemma segments_step:
  "pos < length raw \<Longrightarrow>
    segments (drop pos raw) =
      takeWhile (\<lambda>c. c \<noteq> CHR ''&'') (drop pos raw) #
      segments (drop (min (length raw) (pos + length (takeWhile (\<lambda>c. c \<noteq> CHR ''&'') (drop pos raw)) + 1)) raw)"
  by (auto simp: dropWhile_eq_drop min_def add.commute add.left_commute)

lemma query_loop_segments:
  "pos \<le> length raw \<Longrightarrow>
    query_loop raw pos n ps = foldl add_segment ps (take (kMaxTotalPairs - n) (segments (drop pos raw)))"
proof (induction "kMaxTotalPairs - n" arbitrary: pos n ps)
  case 0
  then show ?case by (subst query_loop.simps) simp
next
  case (Suc m)
  show ?case
  proof (cases "pos < length raw")
    case True
    let ?seg = "takeWhile (\<lambda>c. c \<noteq> CHR ''&'') (drop pos raw)"
    let ?next = "min (length raw) (pos + length ?seg + 1)"
    have n: "n < kMaxTotalPairs" and m: "m = kMaxTotalPairs - (n + 1)" using Suc.hyps(2) by simp_all
    have "query_loop raw pos n ps = query_loop raw ?next (n + 1) (add_segment ps ?seg)"
      using True n by (rule query_loop_step)
    also have "\<dots> = foldl add_segment (add_segment ps ?seg)
        (take (kMaxTotalPairs - (n + 1)) (segments (drop ?next raw)))"
      by (rule Suc.hyps(1) [OF m]) simp
    also have "\<dots> = foldl add_segment ps (take (kMaxTotalPairs - n) (segments (drop pos raw)))"
      using m Suc.hyps(2) [symmetric] by (simp only: segments_step [OF True]) simp
    finally show ?thesis .
  next
    case False
    with Suc.prems show ?thesis by (subst query_loop.simps) simp
  qed
qed

lemma query_string_reference:
  "query_string raw = foldl add_segment [] (take kMaxTotalPairs (segments raw))"
  using query_loop_segments [of 0 raw 0 "[]"] by (simp add: query_string_def)

section \<open>Limits\<close>

definition params_inv :: "params \<Rightarrow> bool" where
  "params_inv ps \<longleftrightarrow> distinct (map fst ps) \<and> length ps \<le> kMaxQueryParams \<and>
     (\<forall>(k, vs) \<in> set ps. vs \<noteq> [] \<and> length vs \<le> kMaxValuesPerKey)"

lemma length_update: "length (AList.update k v al) = (if k \<in> fst ` set al then length al else Suc (length al))"
  by (induction al) (auto simp: split: prod.splits)

lemma set_update_subset: "set (AList.update k v al) \<subseteq> insert (k, v) (set al)"
  by (induction al) (auto split: if_splits)

lemma params_insert_inv: "params_inv ps \<Longrightarrow> params_inv (params_insert k v ps)"
proof (cases "map_of ps k")
  case None
  then have "k \<notin> fst ` set ps" by (simp add: map_of_eq_None_iff)
  then show "params_inv ps \<Longrightarrow> ?thesis"
    using None set_update_subset [of k "[v]" ps]
    by (auto simp: params_inv_def params_insert_def length_update distinct_update query_limits)
next
  case (Some vs)
  then have "k \<in> fst ` set ps" by (metis map_of_eq_None_iff option.distinct(1))
  then show "params_inv ps \<Longrightarrow> ?thesis"
    using Some set_update_subset [of k "vs @ [v]" ps]
    by (auto simp: params_inv_def params_insert_def length_update distinct_update query_limits)
qed

lemma foldl_add_segment_inv: "params_inv ps \<Longrightarrow> params_inv (foldl add_segment ps segs)"
  by (induction segs arbitrary: ps) (auto simp: add_segment_def params_insert_inv)

definition total_values :: "params \<Rightarrow> nat" where
  "total_values ps = sum_list (map (length \<circ> snd) ps)"

lemma total_values_update:
  "distinct (map fst al) \<Longrightarrow>
    total_values (AList.update k v al) + (case map_of al k of None \<Rightarrow> 0 | Some w \<Rightarrow> length w) =
      total_values al + length v"
  by (induction al) (auto simp: total_values_def map_of_eq_None_iff split: option.splits prod.splits)

lemma total_values_insert: "params_inv ps \<Longrightarrow> total_values (params_insert k v ps) \<le> total_values ps + 1"
proof (cases "map_of ps k")
  case None
  then show "params_inv ps \<Longrightarrow> ?thesis"
    using total_values_update [of ps k "[v]"] by (simp add: params_insert_def params_inv_def)
next
  case (Some vs)
  then show "params_inv ps \<Longrightarrow> ?thesis"
    using total_values_update [of ps k "vs @ [v]"] by (simp add: params_insert_def params_inv_def)
qed

lemma total_values_foldl:
  "params_inv ps \<Longrightarrow> total_values (foldl add_segment ps segs) \<le> total_values ps + length segs"
proof (induction segs arbitrary: ps)
  case (Cons s segs)
  have "params_inv (add_segment ps s)" "total_values (add_segment ps s) \<le> total_values ps + 1"
    using Cons.prems total_values_insert [of ps "seg_key s" "seg_value s"]
    by (auto simp: add_segment_def params_insert_inv)
  with Cons.IH [of "add_segment ps s"] show ?case by simp
qed simp

lemma params_inv_Nil [simp]: "params_inv []" "total_values [] = 0"
  by (simp_all add: params_inv_def total_values_def)

section \<open>Lookup\<close>

definition query_pairs :: "string \<Rightarrow> (string \<times> string) list" where
  "query_pairs raw =
     map (\<lambda>s. (seg_key s, seg_value s))
       (filter (\<lambda>s. CHR ''='' \<in> set s) (take kMaxTotalPairs (segments raw)))"

definition values_of :: "string \<Rightarrow> (string \<times> string) list \<Rightarrow> string list" where
  "values_of k kvs = map snd (filter (\<lambda>kv. fst kv = k) kvs)"

lemma foldl_add_segment_pairs:
  "foldl add_segment ps segs =
    foldl (\<lambda>ps (k, v). params_insert k v ps) ps
      (map (\<lambda>s. (seg_key s, seg_value s)) (filter (\<lambda>s. CHR ''='' \<in> set s) segs))"
  by (induction segs arbitrary: ps) (auto simp: add_segment_def)

lemma values_of_snoc: "values_of k (kvs @ [(k', v)]) = values_of k kvs @ (if k' = k then [v] else [])"
  by (simp add: values_of_def)

lemma values_of_Nil_iff: "values_of k kvs = [] \<longleftrightarrow> k \<notin> fst ` set kvs"
  by (auto simp: values_of_def filter_empty_conv)

definition insert_pairs :: "(string \<times> string) list \<Rightarrow> params" where
  "insert_pairs kvs = foldl (\<lambda>ps (k, v). params_insert k v ps) [] kvs"

lemma insert_all_pairs:
  assumes "card (fst ` set kvs) \<le> kMaxQueryParams" "\<And>k. length (values_of k kvs) \<le> kMaxValuesPerKey"
  shows "distinct (map fst (insert_pairs kvs)) \<and> fst ` set (insert_pairs kvs) = fst ` set kvs \<and>
    (\<forall>k. map_of (insert_pairs kvs) k = (if values_of k kvs = [] then None else Some (values_of k kvs)))"
  using assms
proof (induction kvs rule: rev_induct)
  case Nil
  then show ?case by (simp add: values_of_def insert_pairs_def)
next
  case (snoc kv kvs)
  obtain k' v where kv: "kv = (k', v)" by force
  define qs where "qs = insert_pairs kvs"
  have c: "card (fst ` set kvs) \<le> kMaxQueryParams"
    by (rule order_trans [OF card_mono snoc.prems(1)]) auto
  have l: "length (values_of j kvs) \<le> kMaxValuesPerKey" for j
    using snoc.prems(2) [of j] by (simp add: kv values_of_snoc)
  have IH: "distinct (map fst qs)" "fst ` set qs = fst ` set kvs"
    "map_of qs j = (if values_of j kvs = [] then None else Some (values_of j kvs))" for j
    using snoc.IH [OF c l] unfolding qs_def by auto
  have len: "length qs = card (fst ` set kvs)"
    using IH(1,2) by (metis distinct_card length_map list.set_map)
  have ps: "insert_pairs (kvs @ [kv]) = params_insert k' v qs"
    by (simp add: kv qs_def insert_pairs_def)
  have room: "k' \<notin> fst ` set kvs \<Longrightarrow> length qs < kMaxQueryParams"
    using snoc.prems(1) len by (simp add: kv)
  have vroom: "length (values_of k' kvs) < kMaxValuesPerKey"
    using snoc.prems(2) [of k'] by (simp add: kv values_of_snoc)
  have upd: "params_insert k' v qs = AList.update k' (values_of k' kvs @ [v]) qs"
  proof (cases "values_of k' kvs = []")
    case True
    then have "length qs < kMaxQueryParams" using room values_of_Nil_iff by blast
    with True show ?thesis by (simp add: params_insert_def IH(3))
  next
    case False
    then show ?thesis using vroom by (simp add: params_insert_def IH(3))
  qed
  show ?case
    unfolding ps upd using IH
    by (auto simp: distinct_update update_conv' kv values_of_snoc dom_update)
qed


lemma query_string_pairs: "query_string raw = insert_pairs (query_pairs raw)"
  by (simp add: query_string_reference foldl_add_segment_pairs insert_pairs_def query_pairs_def)

lemma query_lookup:
  assumes "card (fst ` set (query_pairs raw)) \<le> kMaxQueryParams"
    and "\<And>k. length (values_of k (query_pairs raw)) \<le> kMaxValuesPerKey"
  shows "qs_get_all (query_string raw) k = values_of k (query_pairs raw)"
    and "qs_get (query_string raw) k =
       (case values_of k (query_pairs raw) of [] \<Rightarrow> None | v # _ \<Rightarrow> Some v)"
    and "qs_has (query_string raw) k \<longleftrightarrow> k \<in> fst ` set (query_pairs raw)"
proof -
  have "map_of (query_string raw) k =
      (if values_of k (query_pairs raw) = [] then None else Some (values_of k (query_pairs raw)))"
    using insert_all_pairs [OF assms] by (simp add: query_string_pairs)
  then show "qs_get_all (query_string raw) k = values_of k (query_pairs raw)"
    "qs_get (query_string raw) k =
       (case values_of k (query_pairs raw) of [] \<Rightarrow> None | v # _ \<Rightarrow> Some v)"
    "qs_has (query_string raw) k \<longleftrightarrow> k \<in> fst ` set (query_pairs raw)"
    using values_of_Nil_iff [of k "query_pairs raw"]
    by (auto simp: qs_get_all_def qs_get_def qs_has_def split: list.splits)
qed

section \<open>Percent encoding\<close>

text \<open>A reference encoder: every character that is not a letter or a digit is escaped.\<close>

definition unreserved :: "char \<Rightarrow> bool" where
  "unreserved c \<longleftrightarrow> is_digit c \<or> (97 \<le> ord c \<and> ord c \<le> 122) \<or> (65 \<le> ord c \<and> ord c \<le> 90)"

definition hex_digit :: "nat \<Rightarrow> char" where
  "hex_digit d = ''0123456789ABCDEF'' ! d"

fun url_encode :: "string \<Rightarrow> string" where
  "url_encode [] = []"
| "url_encode (c # cs) =
     (if unreserved c then c # url_encode cs
      else CHR ''%'' # hex_digit (ord c div 16) # hex_digit (ord c mod 16) # url_encode cs)"

lemma from_hex_hex_digit: "d < 16 \<Longrightarrow> from_hex (hex_digit d) = int d"
  using less_16_cases [of d] by (auto simp: hex_digit_def from_hex_def)

lemma url_decode_encode: "url_decode (url_encode s) = s"
proof (induction s)
  case (Cons c cs)
  have "ord c < 256" by simp
  then have lt: "ord c div 16 < 16" by (simp add: less_mult_imp_div_less)
  have join: "push_bit 4 (int (ord c div 16)) OR int (ord c mod 16) = int (ord c)"
  proof -
    have "int (ord c div 16) * 16 + int (ord c mod 16) = int (ord c div 16 * 16 + ord c mod 16)"
      by (simp only: of_nat_add of_nat_mult of_nat_numeral)
    then have sum: "int (ord c div 16) * 16 + int (ord c mod 16) = int (ord c)"
      by (simp only: div_mult_mod_eq)
    show ?thesis
      by (subst push_bit_or_nibble, simp, simp, rule sum)
  qed
  show ?case
  proof (cases "unreserved c")
    case True
    then have "c \<noteq> CHR ''%''" "c \<noteq> CHR ''+''" by (auto simp: unreserved_def is_digit_def)
    with True Cons.IH show ?thesis by simp
  next
    case False
    with Cons.IH lt show ?thesis by (simp add: from_hex_hex_digit join del: push_bit_of_nat)
  qed
qed simp

section \<open>Properties of the query parser\<close>

text \<open>
  (C35) The parser, which walks the string by positions, computes what the reference computes: cut at
  ampersands, keep the first 256 pieces, decode and insert the ones with an equals sign, in order.
\<close>

theorem query_string_equals_reference:
  "query_string raw = foldl add_segment [] (take kMaxTotalPairs (segments raw))"
  by (rule query_string_reference)

text \<open>
  (C37) Memory is bounded for every input: at most 100 different keys, each with at least one and at
  most 250 values, at most 256 values in total, and no key twice.
\<close>

theorem query_string_bounded:
  "distinct (map fst (query_string raw)) \<and> length (query_string raw) \<le> 100 \<and>
   list_all (\<lambda>(k, vs). vs \<noteq> [] \<and> length vs \<le> 250) (query_string raw) \<and>
   sum_list (map (length \<circ> snd) (query_string raw)) \<le> 256"
proof -
  let ?segs = "take kMaxTotalPairs (segments raw)"
  have "total_values (foldl add_segment [] ?segs) \<le> length ?segs"
    using total_values_foldl [of "[]" ?segs] by simp
  also have "\<dots> \<le> 256" by (simp add: kMaxTotalPairs_def)
  finally show ?thesis
    using foldl_add_segment_inv [of "[]" ?segs]
    by (simp add: query_string_reference params_inv_def total_values_def query_limits list_all_iff)
qed

text \<open>
  (C36) Within the limits nothing is lost: the lookups return exactly the decoded values of the key in
  the order of the string, the first of them, and whether there is one.
\<close>

theorem query_string_lookup:
  assumes "card (fst ` set (query_pairs raw)) \<le> kMaxQueryParams"
    and "\<And>k. length (values_of k (query_pairs raw)) \<le> kMaxValuesPerKey"
  shows "qs_get_all (query_string raw) k = values_of k (query_pairs raw) \<and>
    qs_get (query_string raw) k = (case values_of k (query_pairs raw) of [] \<Rightarrow> None | v # _ \<Rightarrow> Some v) \<and>
    (qs_has (query_string raw) k \<longleftrightarrow> k \<in> fst ` set (query_pairs raw))"
  using query_lookup [OF assms] by blast

theorem query_string_lookup_witness:
  "qs_get_all (query_string ''a=1/2/3&t=5&a=0/7'') ''a'' = [''1/2/3'', ''0/7'']"
proof -
  have "segments ''a=1/2/3&t=5&a=0/7'' = [''a=1/2/3'', ''t=5'', ''a=0/7'']"
    by simp
  then have pairs: "query_pairs ''a=1/2/3&t=5&a=0/7'' = [(''a'', ''1/2/3''), (''t'', ''5''), (''a'', ''0/7'')]"
    by (simp add: query_pairs_def seg_key_def seg_value_def kMaxTotalPairs_def from_hex_def)
  have "length (values_of k (query_pairs ''a=1/2/3&t=5&a=0/7'')) \<le> kMaxValuesPerKey" for k
    by (simp add: pairs values_of_def kMaxValuesPerKey_def)
  moreover have "card (fst ` set (query_pairs ''a=1/2/3&t=5&a=0/7'')) \<le> kMaxQueryParams"
    by (simp add: pairs kMaxQueryParams_def card_insert_if)
  ultimately show ?thesis
    using query_string_lookup [of "''a=1/2/3&t=5&a=0/7''" "''a''"] by (simp add: pairs values_of_def)
qed

text \<open>
  Percent decoding inverts percent encoding for every string of bytes.
\<close>

lemma url_round_trip: "url_decode (url_encode s) = s"
  by (rule url_decode_encode)

end
