(* ===== verification/Session_Store.thy ===== *)
theory Session_Store
  imports Cpp_Std Codec "HOL-Library.AList"
begin

text \<open>
  \<^verbatim>\<open>src/state/session_store.cpp\<close>: creation, validation, expiry and eviction of sessions.

  The \<^verbatim>\<open>unordered_map\<close> is an association list in iteration order; the theorems are stated for
  every list, so they do not depend on the order a hash table gives.  \<^verbatim>\<open>steady_clock\<close> readings are
  integers in nanoseconds and arguments of the operations that take them, and so is the 64-bit
  number the random engine returns.  Every public method holds the mutex from start to end, so
  an operation is one step.
\<close>

section \<open>The store\<close>

record session =
  sess_id :: string
  sess_created :: int

record session_store =
  st_sessions :: "(string \<times> session) list"
  st_ttl_sec :: int
  st_max_sessions :: nat

definition kDefaultSessionTtlSec :: int where "kDefaultSessionTtlSec = 1800"
definition kDefaultMaxSessions :: nat where "kDefaultMaxSessions = 10000"

definition new_session_store :: "int \<Rightarrow> nat \<Rightarrow> session_store" where
  "new_session_store ttl max_sessions =
     \<lparr>st_sessions = [], st_ttl_sec = ttl, st_max_sessions = max_sessions\<rparr>"

text \<open>\<^verbatim>\<open>duration_cast<seconds>\<close> rounds towards zero.\<close>

definition age_sec :: "int \<Rightarrow> session \<Rightarrow> int" where
  "age_sec now s = (now - sess_created s) sdiv 1000000000"

definition expired :: "int \<Rightarrow> session_store \<Rightarrow> session \<Rightarrow> bool" where
  "expired now st s \<longleftrightarrow> age_sec now s \<ge> st_ttl_sec st"

definition cleanup_expired :: "int \<Rightarrow> session_store \<Rightarrow> session_store" where
  "cleanup_expired now st =
     st\<lparr>st_sessions := filter (\<lambda>(k, s). \<not> expired now st s) (st_sessions st)\<rparr>"

fun find_oldest :: "string \<times> session \<Rightarrow> (string \<times> session) list \<Rightarrow> string \<times> session" where
  "find_oldest oldest [] = oldest"
| "find_oldest oldest (it # its) =
     find_oldest (if sess_created (snd it) < sess_created (snd oldest) then it else oldest) its"

definition evict_oldest :: "session_store \<Rightarrow> session_store" where
  "evict_oldest st =
     (if st_sessions st \<noteq> [] \<and> length (st_sessions st) \<ge> st_max_sessions st
      then st\<lparr>st_sessions :=
        AList.delete (fst (find_oldest (hd (st_sessions st)) (st_sessions st))) (st_sessions st)\<rparr>
      else st)"

definition session_kHex :: string where
  "session_kHex = ''0123456789abcdef''"

definition generate_id :: "u64 \<Rightarrow> string" where
  "generate_id num = map (\<lambda>i. session_kHex ! unat (drop_bit (60 - i * 4) num AND 0xF)) [0..<16]"

text \<open>The clock is read once for the clean-up and once for the new session.\<close>

definition create_session ::
  "bool \<Rightarrow> int \<Rightarrow> int \<Rightarrow> u64 \<Rightarrow> session_store \<Rightarrow> string \<times> session_store" where
  "create_session anonymous now_cleanup now num st =
     (if anonymous then (''0'', st)
      else
        let st1 = evict_oldest (cleanup_expired now_cleanup st);
            id = generate_id num
        in (id, st1\<lparr>st_sessions :=
              AList.update id \<lparr>sess_id = id, sess_created = now\<rparr> (st_sessions st1)\<rparr>))"

definition is_valid :: "string \<Rightarrow> int \<Rightarrow> session_store \<Rightarrow> bool \<times> session_store" where
  "is_valid session_id now st =
     (if session_id = ''0'' then (True, st)
      else case map_of (st_sessions st) session_id of
        None \<Rightarrow> (False, st)
      | Some s \<Rightarrow>
          if expired now st s
          then (False, st\<lparr>st_sessions := AList.delete session_id (st_sessions st)\<rparr>)
          else (True, st))"

definition remove_session :: "string \<Rightarrow> session_store \<Rightarrow> session_store" where
  "remove_session session_id st =
     (if session_id = ''0'' then st
      else st\<lparr>st_sessions := AList.delete session_id (st_sessions st)\<rparr>)"

definition session_count :: "session_store \<Rightarrow> nat" where
  "session_count st = length (st_sessions st)"


section \<open>The contract of a session service\<close>

text \<open>
  What the handlers rely on.  \<open>active st i t\<close> says that session \<open>i\<close> is accepted at time \<open>t\<close>.
\<close>

locale session_service =
  fixes create :: "bool \<Rightarrow> int \<Rightarrow> int \<Rightarrow> u64 \<Rightarrow> 's \<Rightarrow> string \<times> 's"
    and valid :: "string \<Rightarrow> int \<Rightarrow> 's \<Rightarrow> bool \<times> 's"
    and inv :: "'s \<Rightarrow> bool"
    and active :: "'s \<Rightarrow> string \<Rightarrow> int \<Rightarrow> bool"
    and lifetime :: "'s \<Rightarrow> int"
  assumes inv_create: "inv s \<Longrightarrow> inv (snd (create a t1 t2 n s))"
    and inv_valid: "inv s \<Longrightarrow> inv (snd (valid i t s))"
    and anonymous: "active s ''0'' t"
    and create_anonymous: "create True t1 t2 n s = (''0'', s)"
    and valid_iff: "inv s \<Longrightarrow> fst (valid i t s) \<longleftrightarrow> active s i t"
    and valid_keeps: "inv s \<Longrightarrow> t \<le> t' \<Longrightarrow> active (snd (valid i t s)) j t' \<longleftrightarrow> active s j t'"
    and create_active:
      "inv s \<Longrightarrow> create False t1 t2 n s = (i, s') \<Longrightarrow> t2 \<le> t \<Longrightarrow> t < t2 + lifetime s \<Longrightarrow> active s' i t"
begin

lemma check_all_keeps:
  "inv s \<Longrightarrow> (\<forall>(i, t) \<in> set cs. t \<le> t') \<Longrightarrow>
    inv (fold (\<lambda>(i, t) s. snd (valid i t s)) cs s) \<and>
    (active (fold (\<lambda>(i, t) s. snd (valid i t s)) cs s) j t' \<longleftrightarrow> active s j t')"
  by (induction cs arbitrary: s) (auto simp: inv_valid valid_keeps)

lemma created_stays_valid:
  assumes "inv s" "create False t1 t2 n s = (i, s')" "\<forall>(j, t) \<in> set cs. t \<le> t'"
    "t2 \<le> t'" "t' < t2 + lifetime s"
  shows "fst (valid i t' (fold (\<lambda>(i, t) s. snd (valid i t s)) cs s'))"
proof -
  have "inv s'" using inv_create [OF assms(1), of False t1 t2 n] assms(2) by simp
  moreover have "active s' i t'" using create_active assms by blast
  ultimately show ?thesis using check_all_keeps [OF _ assms(3), of s' i] valid_iff by blast
qed

lemma anonymous_valid: "inv s \<Longrightarrow> fst (valid ''0'' t s)"
  by (simp add: valid_iff anonymous)

end

section \<open>The invariant\<close>

definition session_inv :: "session_store \<Rightarrow> bool" where
  "session_inv st \<longleftrightarrow>
     distinct (map fst (st_sessions st)) \<and>
     length (st_sessions st) \<le> max 1 (st_max_sessions st) \<and>
     (\<forall>(k, s) \<in> set (st_sessions st). sess_id s = k \<and> length k = 16)"

lemma find_oldest_in: "find_oldest o' es \<in> insert o' (set es)"
  by (induction o' es rule: find_oldest.induct) auto

lemma find_oldest_le_start: "sess_created (snd (find_oldest o' es)) \<le> sess_created (snd o')"
  by (induction o' es rule: find_oldest.induct) auto

lemma find_oldest_le:
  "x \<in> insert o' (set es) \<Longrightarrow> sess_created (snd (find_oldest o' es)) \<le> sess_created (snd x)"
proof (induction es arbitrary: o')
  case (Cons e es)
  let ?o = "if sess_created (snd e) < sess_created (snd o') then e else o'"
  show ?case
  proof (cases "x \<in> set es")
    case True
    with Cons.IH [of ?o] show ?thesis by simp
  next
    case False
    then have "sess_created (snd ?o) \<le> sess_created (snd x)" using Cons.prems by auto
    with find_oldest_le_start [of ?o es] show ?thesis by simp
  qed
qed simp

lemma length_delete_less: "k \<in> fst ` set al \<Longrightarrow> length (AList.delete k al) < length al"
  by (auto simp: AList.delete_eq intro: length_filter_less)

lemma set_delete: "set (AList.delete k al) = {x \<in> set al. fst x \<noteq> k}"
  by (auto simp: AList.delete_eq)

lemma set_alist_update: "set (AList.update k v al) \<subseteq> insert (k, v) (set al)"
  by (induction al) (auto split: if_splits)

lemma length_alist_update: "length (AList.update k v al) \<le> Suc (length al)"
  by (induction al) auto

lemma cleanup_inv: "session_inv st \<Longrightarrow> session_inv (cleanup_expired now st)"
  by (auto simp: session_inv_def cleanup_expired_def distinct_map_filter
      intro: order_trans [OF length_filter_le])

lemma delete_inv:
  "session_inv st \<Longrightarrow> session_inv (st\<lparr>st_sessions := AList.delete k (st_sessions st)\<rparr>)"
  by (auto simp: session_inv_def AList.delete_eq distinct_map_filter
      intro: order_trans [OF length_filter_le])

lemma evict_inv: "session_inv st \<Longrightarrow> session_inv (evict_oldest st)"
  by (simp add: evict_oldest_def delete_inv)

lemma evict_makes_room:
  assumes "session_inv st"
  shows "length (st_sessions (evict_oldest st)) < max 1 (st_max_sessions st)"
proof (cases "st_sessions st = []")
  case False
  then have "fst (find_oldest (hd (st_sessions st)) (st_sessions st)) \<in> fst ` set (st_sessions st)"
    using find_oldest_in [of "hd (st_sessions st)" "st_sessions st"] by (auto simp: insert_absorb)
  from length_delete_less [OF this] assms show ?thesis
    by (auto simp: evict_oldest_def session_inv_def)
qed (simp add: evict_oldest_def)

lemma length_generate_id [simp]: "length (generate_id n) = 16"
  by (simp add: generate_id_def)

lemma generate_id_not_0 [simp]: "generate_id n \<noteq> ''0''"
  using length_generate_id [of n] by (metis length_Cons list.size(3) numeral_eq_one_iff
      One_nat_def semiring_norm(85))

lemma evict_config [simp]:
  "st_ttl_sec (evict_oldest st) = st_ttl_sec st" "st_max_sessions (evict_oldest st) = st_max_sessions st"
  by (simp_all add: evict_oldest_def)

lemma cleanup_config [simp]:
  "st_ttl_sec (cleanup_expired t st) = st_ttl_sec st"
  "st_max_sessions (cleanup_expired t st) = st_max_sessions st"
  by (simp_all add: cleanup_expired_def)

lemma create_inv:
  assumes "session_inv st"
  shows "session_inv (snd (create_session a t1 t2 n st))"
proof (cases a)
  case False
  define st1 where "st1 = evict_oldest (cleanup_expired t1 st)"
  have "session_inv st1" "length (st_sessions st1) < max 1 (st_max_sessions st1)"
    using evict_inv evict_makes_room [OF cleanup_inv [OF assms, of t1]] cleanup_inv [OF assms]
    by (simp_all add: st1_def)
  then show ?thesis
    using False set_alist_update [of "generate_id n" "\<lparr>sess_id = generate_id n, sess_created = t2\<rparr>"
        "st_sessions st1"]
      length_alist_update [of "generate_id n" "\<lparr>sess_id = generate_id n, sess_created = t2\<rparr>"
        "st_sessions st1"]
    by (auto simp: create_session_def Let_def st1_def [symmetric] session_inv_def distinct_update)
qed (use assms in \<open>simp add: create_session_def\<close>)

lemma is_valid_inv: "session_inv st \<Longrightarrow> session_inv (snd (is_valid i t st))"
  by (auto simp: is_valid_def delete_inv split: option.splits)

lemma remove_inv: "session_inv st \<Longrightarrow> session_inv (remove_session i st)"
  by (simp add: remove_session_def delete_inv)

section \<open>Validity over time\<close>

definition active :: "session_store \<Rightarrow> string \<Rightarrow> int \<Rightarrow> bool" where
  "active st i t \<longleftrightarrow>
     i = ''0'' \<or> (case map_of (st_sessions st) i of None \<Rightarrow> False | Some s \<Rightarrow> \<not> expired t st s)"

definition lifetime :: "session_store \<Rightarrow> int" where
  "lifetime st = st_ttl_sec st * 1000000000"

lemma expired_update [simp]: "expired t (st\<lparr>st_sessions := x\<rparr>) s = expired t st s"
  by (simp add: expired_def)

lemma expired_mono: "expired t st s \<Longrightarrow> t \<le> t' \<Longrightarrow> expired t' st s"
  using sdiv_pos_mono [of "t - sess_created s" "t' - sess_created s" 1000000000]
  by (simp add: expired_def age_sec_def)

lemma is_valid_iff: "fst (is_valid i t st) \<longleftrightarrow> active st i t"
  by (auto simp: is_valid_def active_def split: option.splits)

lemma is_valid_keeps: "t \<le> t' \<Longrightarrow> active (snd (is_valid i t st)) j t' \<longleftrightarrow> active st j t'"
  by (auto simp: is_valid_def active_def delete_conv' dest: expired_mono split: option.splits)

lemma create_session_active:
  assumes "create_session False t1 t2 n st = (i, st')" "t2 \<le> t" "t < t2 + lifetime st"
  shows "active st' i t"
proof -
  have "(t - t2) sdiv 1000000000 < st_ttl_sec st"
    using assms(2,3) sdiv_pos_nonneg [of "t - t2" 1000000000]
    by (simp add: lifetime_def)
  then show ?thesis
    using assms(1)
    by (auto simp: create_session_def Let_def active_def update_conv' expired_def age_sec_def)
qed

interpretation store: session_service create_session is_valid session_inv active lifetime
proof
  fix s :: session_store and i j s' t t' t1 t2 n a
  show "session_inv s \<Longrightarrow> session_inv (snd (create_session a t1 t2 n s))" by (rule create_inv)
  show "session_inv s \<Longrightarrow> session_inv (snd (is_valid i t s))" by (rule is_valid_inv)
  show "active s ''0'' t" by (simp add: active_def)
  show "create_session True t1 t2 n s = (''0'', s)" by (simp add: create_session_def)
  show "fst (is_valid i t s) = active s i t" by (rule is_valid_iff)
  show "t \<le> t' \<Longrightarrow> active (snd (is_valid i t s)) j t' = active s j t'" by (rule is_valid_keeps)
  show "create_session False t1 t2 n s = (i, s') \<Longrightarrow> t2 \<le> t \<Longrightarrow> t < t2 + lifetime s \<Longrightarrow> active s' i t"
    by (rule create_session_active)
qed

section \<open>Eviction\<close>

text \<open>
  A session that was not expired and is gone after a login was an oldest one, and the store was
  at its limit.
\<close>

lemma map_of_filter_Some:
  "distinct (map fst al) \<Longrightarrow> map_of al k = Some v \<Longrightarrow> P (k, v) \<Longrightarrow> map_of (filter P al) k = Some v"
  by (simp add: distinct_map_filter)

lemma create_evicts_oldest:
  assumes "session_inv st" "create_session False t1 t2 n st = (i, st')"
    and "map_of (st_sessions st) k = Some s" "\<not> expired t1 st s"
    and "map_of (st_sessions st') k = None"
  shows "st_max_sessions st \<le> length (st_sessions (cleanup_expired t1 st))"
    and "(j, s') \<in> set (st_sessions (cleanup_expired t1 st)) \<Longrightarrow> sess_created s \<le> sess_created s'"
proof -
  let ?c = "cleanup_expired t1 st"
  let ?o = "find_oldest (hd (st_sessions ?c)) (st_sessions ?c)"
  have kc: "map_of (st_sessions ?c) k = Some s"
    using assms(1,3,4)
    by (simp add: cleanup_expired_def session_inv_def distinct_map_filter)
  have "map_of (st_sessions (evict_oldest ?c)) k = None"
    using assms(2,5) by (auto simp: create_session_def Let_def update_conv' split: if_splits)
  with kc have full: "st_sessions ?c \<noteq> []" "st_max_sessions ?c \<le> length (st_sessions ?c)"
    and "k = fst ?o"
    by (auto simp: evict_oldest_def delete_conv' split: if_splits)
  moreover have "?o \<in> set (st_sessions ?c)"
    using find_oldest_in [of "hd (st_sessions ?c)" "st_sessions ?c"] full(1)
    by (auto simp: insert_absorb)
  moreover have "distinct (map fst (st_sessions ?c))"
    using cleanup_inv [OF assms(1)] by (simp add: session_inv_def)
  ultimately have so: "snd ?o = s"
    using kc by (metis map_of_eq_Some_iff option.inject prod.collapse)
  show "st_max_sessions st \<le> length (st_sessions ?c)" using full(2) by simp
  show "(j, s') \<in> set (st_sessions ?c) \<Longrightarrow> sess_created s \<le> sess_created s'"
    using find_oldest_le [of "(j, s')" "hd (st_sessions ?c)" "st_sessions ?c"] so by simp
qed

section \<open>Session ids\<close>

lemma session_kHex_nth_eq: "i < 16 \<Longrightarrow> j < 16 \<Longrightarrow> session_kHex ! i = session_kHex ! j \<Longrightarrow> i = j"
  by (rule nth_eq_iff_index_eq [THEN iffD1]) (simp_all add: session_kHex_def)

lemma unat_u64_and_15: "unat ((w :: u64) AND 15) < 16"
proof -
  have "w AND 15 \<le> 15" by (rule word_and_le1)
  then show ?thesis by (simp add: word_le_nat_alt)
qed

lemma generate_id_inj:
  assumes "generate_id m = generate_id n"
  shows "m = n"
proof (rule bit_word_eqI)
  fix k assume "k < LENGTH(64)"
  then have k: "k < 64" by simp
  define i where "i = 15 - k div 4"
  have "k = k div 4 * 4 + k mod 4" "k div 4 < 16" using k by simp_all
  then have i: "i < 16" "60 - i * 4 + k mod 4 = k" "k mod 4 < 4"
    unfolding i_def by (simp, arith, simp)
  have "generate_id m ! i = generate_id n ! i" using assms by simp
  then have "unat (drop_bit (60 - i * 4) m AND 0xF) = unat (drop_bit (60 - i * 4) n AND 0xF)"
    using i(1) by (intro session_kHex_nth_eq unat_u64_and_15) (simp add: generate_id_def)
  then have "bit (drop_bit (60 - i * 4) m AND 0xF) (k mod 4) = bit (drop_bit (60 - i * 4) n AND 0xF) (k mod 4)"
    by (simp add: word_unat_eq_iff [symmetric])
  moreover have "bit (15 :: u64) (k mod 4)"
  proof -
    have "k mod 4 \<in> {0, 1, 2, 3}" using i(3) by auto
    then show ?thesis by (elim insertE emptyE) simp_all
  qed
  ultimately show "bit m k = bit n k"
    using i(2) k by (simp add: bit_simps)
qed

section \<open>Properties of the session store\<close>

text \<open>The operations on a store, with the clock readings and random numbers they use.\<close>

datatype session_call =
  Create bool int int u64
| Validate string int
| Remove string

fun session_run :: "session_call list \<Rightarrow> session_store \<Rightarrow> session_store" where
  "session_run [] st = st"
| "session_run (Create a t1 t2 n # cs) st = session_run cs (snd (create_session a t1 t2 n st))"
| "session_run (Validate i t # cs) st = session_run cs (snd (is_valid i t st))"
| "session_run (Remove i # cs) st = session_run cs (remove_session i st)"

lemma session_run_inv: "session_inv st \<Longrightarrow> session_inv (session_run cs st)"
  by (induction cs st rule: session_run.induct) (auto simp: create_inv is_valid_inv remove_inv)

lemma session_run_config: "st_max_sessions (session_run cs st) = st_max_sessions st"
  by (induction cs st rule: session_run.induct)
    (auto simp: create_session_def is_valid_def remove_session_def Let_def split: option.split)




text \<open>
  Expiry: once an id has been refused because its session is too old, it stays refused at all
  later times, until a login hands the same id out again.
\<close>

lemma session_expiry_final:
  assumes "\<not> fst (is_valid i t st)" "t \<le> t'"
  shows "\<not> fst (is_valid i t' (snd (is_valid i t st)))"
proof -
  have "\<not> active st i t'"
    using assms expired_mono by (auto simp: is_valid_iff active_def split: option.splits)
  then show ?thesis using assms(2) by (simp add: is_valid_iff is_valid_keeps)
qed

lemma session_expiry_final_witness:
  "\<not> fst (is_valid (generate_id 5) 2000000000007 (snd (is_valid (generate_id 5) 1900000000007
     (snd (create_session False 6 7 5 (new_session_store 1800 10))))))"
proof (rule session_expiry_final)
  show "\<not> fst (is_valid (generate_id 5) 1900000000007 (snd (create_session False 6 7 5 (new_session_store 1800 10))))"
    by (simp add: create_session_def Let_def is_valid_def new_session_store_def cleanup_expired_def
        evict_oldest_def update_conv' expired_def age_sec_def sdiv_pos_nonneg)
qed simp

text \<open>
  Eviction takes the oldest: a session that was still valid at a login and is gone after it was
  dropped because the store was full, and no session in it was older.
\<close>

lemma eviction_takes_oldest:
  assumes "session_inv st" "create_session False t1 t2 n st = (i, st')"
    and "map_of (st_sessions st) k = Some s" "\<not> expired t1 st s"
    and "map_of (st_sessions st') k = None"
  shows "st_max_sessions st \<le> length (st_sessions (cleanup_expired t1 st)) \<and>
    list_all (\<lambda>(j, s'). sess_created s \<le> sess_created s') (st_sessions (cleanup_expired t1 st))"
  using create_evicts_oldest [OF assms] by (auto simp: list_all_iff)

lemma one_session_store:
  "snd (create_session False 6 7 5 (new_session_store 1800 1)) =
     \<lparr>st_sessions = [(generate_id 5, \<lparr>sess_id = generate_id 5, sess_created = 7\<rparr>)],
      st_ttl_sec = 1800, st_max_sessions = 1\<rparr>"
  by (simp add: create_session_def Let_def new_session_store_def cleanup_expired_def evict_oldest_def)

lemma eviction_takes_oldest_witness:
  "st_max_sessions (snd (create_session False 6 7 5 (new_session_store 1800 1))) \<le>
     length (st_sessions (cleanup_expired 8 (snd (create_session False 6 7 5 (new_session_store 1800 1)))))"
proof -
  let ?st = "snd (create_session False 6 7 5 (new_session_store 1800 1))"
  have ne: "generate_id 5 \<noteq> generate_id 6" using generate_id_inj [of 5 6] by auto
  have inv: "session_inv ?st"
    by (rule create_inv) (simp add: session_inv_def new_session_store_def)
  have young: "\<not> expired 8 ?st \<lparr>sess_id = generate_id 5, sess_created = 7\<rparr>"
    unfolding one_session_store by (simp add: expired_def age_sec_def sdiv_pos_nonneg)
  have st: "create_session False 8 9 6 ?st = (generate_id 6, snd (create_session False 8 9 6 ?st))"
    by (simp add: create_session_def Let_def)
  have "map_of (st_sessions (snd (create_session False 8 9 6 ?st))) (generate_id 5) = None"
    using ne young unfolding create_session_def [of False 8 9 6] one_session_store
    by (simp add: Let_def cleanup_expired_def evict_oldest_def update_conv' delete_conv' expired_def)
  moreover have "map_of (st_sessions ?st) (generate_id 5) = Some \<lparr>sess_id = generate_id 5, sess_created = 7\<rparr>"
    unfolding one_session_store by simp
  ultimately show ?thesis using eviction_takes_oldest [OF inv st _ young] by blast
qed

text \<open>
  Session ids carry all 64 random bits: different numbers give different ids.
\<close>

lemma session_ids_injective: "inj generate_id \<and> length (generate_id n) = 16"
  using generate_id_inj by (auto simp: inj_def)

end
