(* ===== verification/Cache_Contract.thy ===== *)
theory Cache_Contract
  imports Cpp_Std
begin

text \<open>
  What the two group telegram caches (\<^verbatim>\<open>src/state/group_cache.cpp\<close> and
  \<^verbatim>\<open>src/state/shared_group_cache.cpp\<close>) have in common: the position counter that wraps at
  \<^verbatim>\<open>kPositionModulus\<close>, the rule that decides whether an entry is news for a client, the age filter,
  and the contract they both fulfil, as a locale.  The facts about histories of pushes are proved
  from the contract and hold for both.
\<close>

section \<open>Positions\<close>

definition kPositionModulus :: u32 where
  "kPositionModulus = 100000"

record cache_entry =
  ce_value :: bytes
  ce_timestamp :: u32
  ce_pushed_at :: u32

text \<open>The modular distances of \<^verbatim>\<open>get_delta\<close>, in 32-bit arithmetic, and its test for one entry.\<close>

definition mod_distance :: "u32 \<Rightarrow> u32 \<Rightarrow> u32" where
  "mod_distance to since = (to - since + kPositionModulus) mod kPositionModulus"

definition epoch_mismatch :: "u32 \<Rightarrow> u32 \<Rightarrow> bool" where
  "epoch_mismatch position since_pos \<longleftrightarrow>
     since_pos \<noteq> 0 \<and> mod_distance position since_pos \<ge> kPositionModulus div 2"

definition delta_includes :: "u32 \<Rightarrow> u32 \<Rightarrow> u32 \<Rightarrow> bool" where
  "delta_includes position since_pos pushed_at \<longleftrightarrow>
     (if epoch_mismatch position since_pos then True
      else if mod_distance pushed_at since_pos > mod_distance position since_pos then False
      else if since_pos \<noteq> 0 \<and> mod_distance pushed_at since_pos = 0 then False
      else True)"

text \<open>The age filter: off for a negative bound, otherwise strictly younger, with wrapping subtraction.\<close>

definition fresh :: "u32 \<Rightarrow> int \<Rightarrow> u32 \<Rightarrow> bool" where
  "fresh now max_age_sec timestamp \<longleftrightarrow>
     max_age_sec < 0 \<or> \<not> (now - timestamp \<ge> of_int max_age_sec)"

definition wrapped :: "nat \<Rightarrow> u32" where
  "wrapped n = of_nat (n mod 100000)"

section \<open>Modular distances between push numbers\<close>

lemma unat_kPositionModulus [simp]: "unat kPositionModulus = 100000"
  by (simp add: kPositionModulus_def)

lemma unat_wrapped [simp]: "unat (wrapped n) = n mod 100000"
  by (simp add: wrapped_def unsigned_of_nat take_bit_eq_mod)

lemma wrapped_eq_0_iff: "wrapped n = 0 \<longleftrightarrow> n mod 100000 = 0"
  by (simp add: word_unat_eq_iff)

lemma unat_mod_distance:
  assumes "unat to < 100000" "unat since < 100000"
  shows "unat (mod_distance to since) = (unat to + 100000 - unat since) mod 100000"
proof -
  have "unat (to - since + kPositionModulus) = unat to + 100000 - unat since"
  proof -
    have "to - since + kPositionModulus = of_nat (unat to + 100000 - unat since)"
      using assms by (simp add: of_nat_diff kPositionModulus_def)
    moreover have "unat (of_nat (unat to + 100000 - unat since) :: u32)
        = unat to + 100000 - unat since"
      using assms by (simp only: unsigned_of_nat take_bit_eq_mod) simp
    ultimately show ?thesis by simp
  qed
  then show ?thesis by (simp add: mod_distance_def unat_mod)
qed

lemma mod_ahead:
  assumes "m \<le> n" "n - m < (M :: nat)"
  shows "(n mod M + M - m mod M) mod M = n - m"
proof -
  have "M > 0" using assms by simp
  then have "m mod M \<le> n mod M + M" by (simp add: less_imp_le trans_le_add2)
  then have "int ((n mod M + M - m mod M) mod M)
      = (int n mod int M + int M - int m mod int M) mod int M"
    by (simp add: of_nat_mod of_nat_diff)
  also have "\<dots> = ((int n mod int M - int m mod int M) + int M) mod int M"
    by (simp add: algebra_simps)
  also have "\<dots> = (int n - int m) mod int M" by (simp add: mod_diff_eq)
  also have "\<dots> = int (n - m)" using assms by (simp add: of_nat_diff)
  finally show ?thesis by simp
qed

lemma mod_behind:
  assumes "j < m" "m - j < (M :: nat)"
  shows "(j mod M + M - m mod M) mod M = M - (m - j)"
proof -
  have "(j + M) mod M = j mod M" by simp
  moreover have "((j + M) mod M + M - m mod M) mod M = j + M - m"
    using assms by (intro mod_ahead) simp_all
  ultimately show ?thesis using assms by simp
qed

lemma mod_distance_ahead:
  assumes "m \<le> n" "n - m < 100000"
  shows "unat (mod_distance (wrapped n) (wrapped m)) = n - m"
  using assms by (simp add: unat_mod_distance mod_ahead)

lemma mod_distance_behind:
  assumes "j < m" "m - j < 100000"
  shows "unat (mod_distance (wrapped j) (wrapped m)) = 100000 - (m - j)"
  using assms by (simp add: unat_mod_distance mod_behind)


record delta =
  delta_values :: "(u16 \<times> bytes) list"
  delta_position :: u32

lemma epoch_mismatch_ahead:
  assumes "m \<le> n" "n - m < 100000"
  shows "epoch_mismatch (wrapped n) (wrapped m) \<longleftrightarrow> m mod 100000 \<noteq> 0 \<and> 50000 \<le> n - m"
proof -
  have "unat (kPositionModulus div 2) = 50000" by (simp add: kPositionModulus_def)
  then show ?thesis using mod_distance_ahead [OF assms]
    by (simp add: epoch_mismatch_def wrapped_eq_0_iff word_le_nat_alt)
qed

text \<open>
  A client whose last position belongs to push number \<open>m\<close> is offered the entry of push number
  \<open>j\<close>, while push number \<open>n\<close> is the latest, exactly when that push came later than \<open>m\<close>: for
  entries at most \<open>kPositionModulus - 1\<close> pushes old and clients less than half the modulus behind.
\<close>

lemma delta_includes_newer:
  assumes "m mod 100000 \<noteq> 0" "m < j" "j \<le> n" "n - m < 100000"
  shows "delta_includes (wrapped n) (wrapped m) (wrapped j)"
  using mod_distance_ahead [of m n] mod_distance_ahead [of m j] assms
  by (auto simp: delta_includes_def word_less_nat_alt word_unat_eq_iff)

lemma delta_excludes_older:
  assumes m: "m mod 100000 \<noteq> 0" and "j \<le> m" "m \<le> n" "n - m < 50000" "n - j < 100000"
  shows "\<not> delta_includes (wrapped n) (wrapped m) (wrapped j)"
proof -
  have mis: "\<not> epoch_mismatch (wrapped n) (wrapped m)"
    using assms by (subst epoch_mismatch_ahead) auto
  have n: "unat (mod_distance (wrapped n) (wrapped m)) = n - m"
    using assms by (intro mod_distance_ahead) auto
  show ?thesis
  proof (cases "j = m")
    case True
    then have "unat (mod_distance (wrapped j) (wrapped m)) = 0"
      using mod_distance_ahead [of m m] by simp
    with mis m show ?thesis by (simp add: delta_includes_def wrapped_eq_0_iff word_unat_eq_iff)
  next
    case False
    then have "unat (mod_distance (wrapped j) (wrapped m)) = 100000 - (m - j)"
      using assms by (intro mod_distance_behind) auto
    with n have "mod_distance (wrapped n) (wrapped m) < mod_distance (wrapped j) (wrapped m)"
      using assms False by (simp add: word_less_nat_alt)
    with mis show ?thesis by (simp add: delta_includes_def)
  qed
qed

lemma delta_includes_full:
  assumes "m mod 100000 \<noteq> 0" "m \<le> n" "50000 \<le> n - m" "n - m < 100000"
  shows "delta_includes (wrapped n) (wrapped m) p"
  using assms epoch_mismatch_ahead [of m n] by (simp add: delta_includes_def)

lemma delta_includes_initial:
  "delta_includes (wrapped n) 0 (wrapped j) \<longleftrightarrow> j mod 100000 \<le> n mod 100000"
proof -
  have "unat (mod_distance (wrapped k) 0) = k mod 100000" for k
    by (subst unat_mod_distance) simp_all
  then show ?thesis by (auto simp: delta_includes_def epoch_mismatch_def word_less_nat_alt)
qed

text \<open>
  The modulus also makes an entry reappear: an entry written \<open>kPositionModulus\<close> or more pushes
  before the client's position falls into the window again.
\<close>

lemma delta_includes_alias:
  assumes "m mod 100000 \<noteq> 0" "m < j + 100000" "j + 100000 \<le> n" "n - m < 100000"
  shows "delta_includes (wrapped n) (wrapped m) (wrapped j)"
proof -
  have "wrapped j = wrapped (j + 100000)" by (simp add: wrapped_def)
  with delta_includes_newer [of m "j + 100000" n] assms show ?thesis by simp
qed

text \<open>The raw counter is 32 bits wide; below its own overflow it is the push number.\<close>

lemma raw_wrapped: "raw mod kPositionModulus = wrapped (unat raw)"
  by (simp add: word_unat_eq_iff unat_mod)

lemma raw_add_wrapped:
  assumes "unat (raw :: u32) + k < 2 ^ 32"
  shows "(raw + of_nat k) mod kPositionModulus = wrapped (unat raw + k)"
proof -
  have "unat (raw + of_nat k) = unat raw + k"
    using assms by (simp add: unat_word_ariths unsigned_of_nat take_bit_eq_mod)
  then show ?thesis by (simp add: raw_wrapped)
qed

section \<open>The contract of a telegram cache\<close>

text \<open>A history of pushes: time, address and value of each.\<close>

fun push_all :: "(u32 \<Rightarrow> u16 \<Rightarrow> bytes \<Rightarrow> 'c \<Rightarrow> 'c) \<Rightarrow> (u32 \<times> u16 \<times> bytes) list \<Rightarrow> 'c \<Rightarrow> 'c" where
  "push_all push [] c = c"
| "push_all push ((t, a, v) # ps) c = push_all push ps (push t a v c)"

fun all_accepted :: "('c \<Rightarrow> u16 \<Rightarrow> bool) \<Rightarrow> (u32 \<Rightarrow> u16 \<Rightarrow> bytes \<Rightarrow> 'c \<Rightarrow> 'c) \<Rightarrow>
    (u32 \<times> u16 \<times> bytes) list \<Rightarrow> 'c \<Rightarrow> bool" where
  "all_accepted accepts push [] c \<longleftrightarrow> True"
| "all_accepted accepts push ((t, a, v) # ps) c \<longleftrightarrow>
     accepts c a \<and> all_accepted accepts push ps (push t a v c)"

lemma push_all_append [simp]: "push_all push (ps @ qs) c = push_all push qs (push_all push ps c)"
  by (induction push ps c rule: push_all.induct) simp_all

lemma all_accepted_append [simp]:
  "all_accepted accepts push (ps @ qs) c \<longleftrightarrow>
     all_accepted accepts push ps c \<and> all_accepted accepts push qs (push_all push ps c)"
  by (induction accepts push ps c rule: all_accepted.induct) simp_all

text \<open>
  What a cache promises its clients: a push on an address the cache accepts replaces that address's
  entry and no other and moves the raw counter by one; reads and deltas are functions of the
  entries.  \<open>clip\<close> is what a cache stores of a value, \<open>proper\<close> the addresses it can hold.
\<close>

locale telegram_cache =
  fixes push :: "u32 \<Rightarrow> u16 \<Rightarrow> bytes \<Rightarrow> 'c \<Rightarrow> 'c"
    and lookup :: "u32 \<Rightarrow> u16 \<Rightarrow> int \<Rightarrow> 'c \<Rightarrow> bytes option"
    and news :: "u32 \<Rightarrow> u32 \<Rightarrow> u16 list \<Rightarrow> int \<Rightarrow> 'c \<Rightarrow> delta"
    and entry :: "'c \<Rightarrow> u16 \<Rightarrow> cache_entry option"
    and raw :: "'c \<Rightarrow> u32"
    and inv :: "'c \<Rightarrow> bool"
    and proper :: "u16 \<Rightarrow> bool"
    and accepts :: "'c \<Rightarrow> u16 \<Rightarrow> bool"
    and clip :: "bytes \<Rightarrow> bytes"
  assumes accepts_proper: "accepts c a \<Longrightarrow> proper a"
    and push_inv: "inv c \<Longrightarrow> accepts c a \<Longrightarrow> inv (push t a v c)"
    and push_raw: "inv c \<Longrightarrow> accepts c a \<Longrightarrow> raw (push t a v c) = raw c + 1"
    and push_entry: "inv c \<Longrightarrow> accepts c a \<Longrightarrow> proper b \<Longrightarrow> entry (push t a v c) b =
        (if b = a then Some \<lparr>ce_value = clip v, ce_timestamp = t,
           ce_pushed_at = (raw c + 1) mod kPositionModulus\<rparr> else entry c b)"
    and lookup_entry: "inv c \<Longrightarrow> proper a \<Longrightarrow> lookup t a age c =
        (case entry c a of None \<Rightarrow> None
         | Some e \<Rightarrow> if fresh t age (ce_timestamp e) then Some (ce_value e) else None)"
    and news_position: "inv c \<Longrightarrow> delta_position (news t since subs age c) = raw c mod kPositionModulus"
    and news_values: "inv c \<Longrightarrow> proper a \<Longrightarrow> (a, v) \<in> set (delta_values (news t since subs age c)) \<longleftrightarrow>
        a \<in> set subs \<and> (\<exists>e. entry c a = Some e \<and> v = ce_value e \<and> fresh t age (ce_timestamp e) \<and>
           delta_includes (raw c mod kPositionModulus) since (ce_pushed_at e))"
begin

abbreviation pushes :: "(u32 \<times> u16 \<times> bytes) list \<Rightarrow> 'c \<Rightarrow> 'c" where
  "pushes \<equiv> push_all push"

abbreviation accepted :: "(u32 \<times> u16 \<times> bytes) list \<Rightarrow> 'c \<Rightarrow> bool" where
  "accepted \<equiv> all_accepted accepts push"

lemma pushes_inv: "inv c \<Longrightarrow> accepted ps c \<Longrightarrow> inv (pushes ps c)"
proof (induction ps arbitrary: c)
  case (Cons p ps)
  then show ?case by (cases p) (simp add: push_inv)
qed simp

lemma pushes_raw: "inv c \<Longrightarrow> accepted ps c \<Longrightarrow> raw (pushes ps c) = raw c + of_nat (length ps)"
proof (induction ps arbitrary: c)
  case (Cons p ps)
  then show ?case by (cases p) (simp add: push_inv push_raw algebra_simps)
qed simp

lemma pushes_other:
  "inv c \<Longrightarrow> accepted ps c \<Longrightarrow> proper b \<Longrightarrow> b \<notin> fst ` snd ` set ps \<Longrightarrow>
     entry (pushes ps c) b = entry c b"
proof (induction ps arbitrary: c)
  case (Cons p ps)
  then show ?case by (cases p) (simp add: push_inv push_entry)
qed simp

text \<open>The entry of an address is its last push, stamped with the number of that push.\<close>

lemma pushes_last:
  assumes "inv c" "accepted (ps @ (t, a, v) # qs) c" "a \<notin> fst ` snd ` set qs"
  shows "entry (pushes (ps @ (t, a, v) # qs) c) a = Some \<lparr>ce_value = clip v, ce_timestamp = t,
     ce_pushed_at = (raw c + of_nat (Suc (length ps))) mod kPositionModulus\<rparr>"
proof -
  let ?d = "pushes ps c"
  have acc: "accepted ps c" "accepts ?d a" "accepted qs (push t a v ?d)"
    using assms(2) by simp_all
  have "inv ?d" using assms(1) acc(1) by (rule pushes_inv)
  then show ?thesis
    using acc assms pushes_other [of "push t a v ?d" qs a]
    by (simp add: push_inv push_entry accepts_proper pushes_raw ac_simps)
qed

lemma lookup_last:
  assumes "inv c" "accepted (ps @ (t, a, v) # qs) c" "a \<notin> fst ` snd ` set qs"
  shows "lookup now a age (pushes (ps @ (t, a, v) # qs) c) = (if fresh now age t then Some (clip v) else None)"
  using assms pushes_last [OF assms] pushes_inv [OF assms(1,2)] accepts_proper [of _ a]
  by (auto simp: lookup_entry)

text \<open>
  A client that took its position after the pushes \<open>ps\<close> and asks again after \<open>qs\<close> more is offered
  the last value of every address pushed in between, and nothing of an address whose last push it
  has already seen, as long as that push is not \<open>kPositionModulus\<close> or more pushes old.
\<close>

lemma news_complete:
  assumes c: "inv c" and acc: "accepted (ps @ qs @ (t, a, v) # rs) c" and a: "a \<notin> fst ` snd ` set rs"
    and now: "fresh now age t" and sub: "a \<in> set subs"
    and pos: "raw (pushes ps c) mod kPositionModulus = since" "since \<noteq> 0"
    and bound: "unat (raw c) + length (ps @ qs @ (t, a, v) # rs) < 2 ^ 32"
      "length (qs @ (t, a, v) # rs) < 100000"
  shows "(a, clip v) \<in> set (delta_values (news now since subs age (pushes (ps @ qs @ (t, a, v) # rs) c)))"
proof -
  let ?h = "(ps @ qs) @ (t, a, v) # rs" and ?r = "unat (raw c)"
  have acc': "accepted ?h c" using acc by simp
  have ps: "accepted ps c" using acc by simp
  have prp: "proper a" using acc' accepts_proper [of _ a] by auto
  have s: "since = wrapped (?r + length ps)"
    using pos(1) bound(1) by (simp add: pushes_raw [OF c ps] raw_add_wrapped)
  have n: "raw (pushes ?h c) mod kPositionModulus = wrapped (?r + length ?h)"
    unfolding pushes_raw [OF c acc'] using bound(1) by (intro raw_add_wrapped) simp
  have j: "(raw c + of_nat (Suc (length (ps @ qs)))) mod kPositionModulus
      = wrapped (?r + Suc (length (ps @ qs)))"
    using bound(1) by (intro raw_add_wrapped) simp
  have "delta_includes (wrapped (?r + length ?h)) (wrapped (?r + length ps))
      (wrapped (?r + Suc (length (ps @ qs))))"
    using bound(2) pos(2) s by (intro delta_includes_newer) (auto simp: wrapped_eq_0_iff)
  then have "delta_includes (raw (pushes ?h c) mod kPositionModulus) since
      ((raw c + of_nat (Suc (length (ps @ qs)))) mod kPositionModulus)" by (simp only: n s j)
  then show ?thesis
    using pushes_last [OF c acc' a] news_values [OF pushes_inv [OF c acc'] prp] now sub by simp
qed

lemma news_sound:
  assumes c: "inv c" and acc: "accepted (ps @ (t, a, v) # qs @ rs) c"
    and a: "a \<notin> fst ` snd ` set (qs @ rs)"
    and pos: "raw (pushes (ps @ (t, a, v) # qs) c) mod kPositionModulus = since" "since \<noteq> 0"
    and bound: "unat (raw c) + length (ps @ (t, a, v) # qs @ rs) < 2 ^ 32"
      "length rs < 50000" "length (qs @ rs) < 100000"
  shows "(a, w) \<notin> set (delta_values (news now since subs age (pushes (ps @ (t, a, v) # qs @ rs) c)))"
proof -
  let ?h = "ps @ (t, a, v) # qs @ rs" and ?g = "ps @ (t, a, v) # qs" and ?r = "unat (raw c)"
  have prp: "proper a" using acc accepts_proper [of _ a] by auto
  have g: "accepted ?g c" using acc by simp
  have s: "since = wrapped (?r + length ?g)"
    using pos(1) bound(1) unfolding pushes_raw [OF c g] by (subst (asm) raw_add_wrapped) auto
  have n: "raw (pushes ?h c) mod kPositionModulus = wrapped (?r + length ?h)"
    unfolding pushes_raw [OF c acc] using bound(1) by (intro raw_add_wrapped) simp
  have j: "(raw c + of_nat (Suc (length ps))) mod kPositionModulus = wrapped (?r + Suc (length ps))"
    using bound(1) by (intro raw_add_wrapped) simp
  have "\<not> delta_includes (wrapped (?r + length ?h)) (wrapped (?r + length ?g)) (wrapped (?r + Suc (length ps)))"
    using bound pos(2) s by (intro delta_excludes_older) (auto simp: wrapped_eq_0_iff)
  then have "\<not> delta_includes (raw (pushes ?h c) mod kPositionModulus) since
      ((raw c + of_nat (Suc (length ps))) mod kPositionModulus)" by (simp only: n s j not_False_eq_True)
  then show ?thesis
    using pushes_last [OF c acc a] news_values [OF pushes_inv [OF c acc] prp] by auto
qed

text \<open>
  Behind that limit the modulus makes a value reappear: an entry \<open>kPositionModulus\<close> pushes old when the
  client asks again is offered a second time.
\<close>

lemma news_alias:
  assumes c: "inv c" and acc: "accepted (ps @ (t, a, v) # qs @ rs) c"
    and a: "a \<notin> fst ` snd ` set (qs @ rs)" and now: "fresh now age t" and sub: "a \<in> set subs"
    and pos: "raw (pushes (ps @ (t, a, v) # qs) c) mod kPositionModulus = since" "since \<noteq> 0"
    and bound: "unat (raw c) + length (ps @ (t, a, v) # qs @ rs) < 2 ^ 32"
      "length qs < 100000" "100000 \<le> length (qs @ rs)" "length rs < 100000"
  shows "(a, clip v) \<in> set (delta_values (news now since subs age (pushes (ps @ (t, a, v) # qs @ rs) c)))"
proof -
  let ?h = "ps @ (t, a, v) # qs @ rs" and ?g = "ps @ (t, a, v) # qs" and ?r = "unat (raw c)"
  have prp: "proper a" using acc accepts_proper [of _ a] by auto
  have g: "accepted ?g c" using acc by simp
  have s: "since = wrapped (?r + length ?g)"
    using pos(1) bound(1) unfolding pushes_raw [OF c g] by (subst (asm) raw_add_wrapped) auto
  have n: "raw (pushes ?h c) mod kPositionModulus = wrapped (?r + length ?h)"
    unfolding pushes_raw [OF c acc] using bound(1) by (intro raw_add_wrapped) simp
  have j: "(raw c + of_nat (Suc (length ps))) mod kPositionModulus = wrapped (?r + Suc (length ps))"
    using bound(1) by (intro raw_add_wrapped) simp
  have "delta_includes (wrapped (?r + length ?h)) (wrapped (?r + length ?g)) (wrapped (?r + Suc (length ps)))"
    using bound pos(2) s by (intro delta_includes_alias) (auto simp: wrapped_eq_0_iff)
  then have "delta_includes (raw (pushes ?h c) mod kPositionModulus) since
      ((raw c + of_nat (Suc (length ps))) mod kPositionModulus)" by (simp only: n s j)
  then show ?thesis
    using pushes_last [OF c acc a] news_values [OF pushes_inv [OF c acc] prp] now sub by simp
qed

end

end
