(* ===== verification/Group_Cache.thy ===== *)
theory Group_Cache
  imports Cache_Contract
begin

text \<open>
  \<^verbatim>\<open>src/state/group_cache.cpp\<close>: the in-process telegram cache.  The hash map of entries is a map,
  the subscribed set is the ascending list of its addresses, and \<^verbatim>\<open>std::time\<close> is an argument of
  the operations that read it.  The cache is an instance of the telegram cache contract.
\<close>

record group_cache =
  gc_entries :: "u16 \<rightharpoonup> cache_entry"
  gc_position :: u32

definition new_group_cache :: group_cache where
  "new_group_cache = \<lparr>gc_entries = Map.empty, gc_position = 0\<rparr>"

definition gc_push :: "u32 \<Rightarrow> u16 \<Rightarrow> bytes \<Rightarrow> group_cache \<Rightarrow> group_cache" where
  "gc_push now addr value gc =
     (let raw_pos = gc_position gc;
          wrapped_pos = (raw_pos + 1) mod kPositionModulus
      in gc\<lparr>gc_position := raw_pos + 1,
            gc_entries := (gc_entries gc)(addr \<mapsto>
              \<lparr>ce_value = value, ce_timestamp = now, ce_pushed_at = wrapped_pos\<rparr>)\<rparr>)"

definition gc_get :: "u32 \<Rightarrow> u16 \<Rightarrow> int \<Rightarrow> group_cache \<Rightarrow> bytes option" where
  "gc_get now addr max_age_sec gc =
     (case gc_entries gc addr of
        None \<Rightarrow> None
      | Some e \<Rightarrow>
          if max_age_sec \<ge> 0 \<and> now - ce_timestamp e \<ge> of_int max_age_sec then None
          else Some (ce_value e))"

fun gc_delta_loop :: "u32 \<Rightarrow> u32 \<Rightarrow> u32 \<Rightarrow> int \<Rightarrow> group_cache \<Rightarrow> u16 list \<Rightarrow> (u16 \<times> bytes) list" where
  "gc_delta_loop now position since_pos max_age_sec gc [] = []"
| "gc_delta_loop now position since_pos max_age_sec gc (addr # subscribed) =
     (let rest = gc_delta_loop now position since_pos max_age_sec gc subscribed in
      case gc_entries gc addr of
        None \<Rightarrow> rest
      | Some e \<Rightarrow>
          if max_age_sec \<ge> 0 \<and> now - ce_timestamp e \<ge> of_int max_age_sec then rest
          else if delta_includes position since_pos (ce_pushed_at e) then (addr, ce_value e) # rest
          else rest)"

definition gc_get_delta :: "u32 \<Rightarrow> u32 \<Rightarrow> u16 list \<Rightarrow> int \<Rightarrow> group_cache \<Rightarrow> delta" where
  "gc_get_delta now since_pos subscribed max_age_sec gc =
     (let position = gc_position gc mod kPositionModulus
      in \<lparr>delta_values = gc_delta_loop now position since_pos max_age_sec gc subscribed,
          delta_position = position\<rparr>)"

definition gc_position_of :: "group_cache \<Rightarrow> u32" where
  "gc_position_of gc = gc_position gc mod kPositionModulus"

definition gc_clear :: "group_cache \<Rightarrow> group_cache" where
  "gc_clear gc = gc\<lparr>gc_entries := Map.empty, gc_position := 0\<rparr>"

section \<open>The cache fulfils the contract\<close>

lemma fresh_iff: "fresh now age ts \<longleftrightarrow> \<not> (age \<ge> 0 \<and> now - ts \<ge> of_int age)"
  by (auto simp: fresh_def)

lemma gc_delta_loop_iff:
  "(a, v) \<in> set (gc_delta_loop now position since age gc subs) \<longleftrightarrow>
     a \<in> set subs \<and> (\<exists>e. gc_entries gc a = Some e \<and> v = ce_value e \<and>
       fresh now age (ce_timestamp e) \<and> delta_includes position since (ce_pushed_at e))"
  by (induction subs) (auto simp: Let_def fresh_iff split: option.splits if_splits)

interpretation gc: telegram_cache gc_push gc_get gc_get_delta gc_entries gc_position
  "\<lambda>_. True" "\<lambda>_. True" "\<lambda>_ _. True" "\<lambda>v. v"
  by unfold_locales
    (auto simp: gc_push_def gc_get_def gc_get_delta_def gc_delta_loop_iff fresh_iff Let_def
      split: option.splits)

lemma gc_accepted [simp]: "all_accepted (\<lambda>_ _. True) push ps c"
proof (induction ps arbitrary: c)
  case (Cons p ps)
  then show ?case by (cases p) simp
qed simp

section \<open>Properties of the in-process cache\<close>

lemma last_push:
  assumes "a \<in> fst ` snd ` set ps"
  obtains ps1 t v ps2 where "ps = ps1 @ (t, a, v) # ps2" "a \<notin> fst ` snd ` set ps2"
proof -
  from assms have "\<exists>x \<in> set ps. fst (snd x) = a" by force
  then obtain ps1 x ps2 where "ps = ps1 @ x # ps2" "fst (snd x) = a" "\<forall>y \<in> set ps2. fst (snd y) \<noteq> a"
    using split_list_last_prop [of ps "\<lambda>x. fst (snd x) = a"] by blast
  then have "ps = ps1 @ (fst x, a, snd (snd x)) # ps2" "a \<notin> fst ` snd ` set ps2" by auto
  then show thesis by (rule that)
qed

text \<open>
  The delta of the in-process cache is exact.  For a client that took its position after the
  pushes \<open>ps\<close> and asks again after \<open>qs\<close> more, fewer than half the modulus, an address is in the delta
  exactly when one of the pushes \<open>qs\<close> concerned it, while the position has not wrapped.
\<close>

lemma group_cache_delta_exact:
  assumes "ps \<noteq> []" "length (ps @ qs) < 100000" "length qs < 50000" "a \<in> set subs"
  shows "a \<in> fst ` set (delta_values (gc_get_delta now (gc_position_of (push_all gc_push ps new_group_cache)) subs (-1)
      (push_all gc_push (ps @ qs) new_group_cache))) \<longleftrightarrow> a \<in> fst ` snd ` set qs"
proof -
  let ?c = new_group_cache
  let ?since = "gc_position_of (push_all gc_push ps ?c)"
  have raw: "gc_position ?c = 0" by (simp add: new_group_cache_def)
  have pos: "gc_position (push_all gc_push ps ?c) mod kPositionModulus = ?since"
    by (simp add: gc_position_of_def)
  have since: "?since = wrapped (length ps)"
    using gc.pushes_raw [where c = ?c and ps = ps] raw_add_wrapped [of 0 "length ps"] assms(2)
    by (simp add: gc_position_of_def raw)
  then have nz: "?since \<noteq> 0" using assms(1,2) by (simp add: wrapped_eq_0_iff)
  have fr: "fresh now (-1) t" for t by (simp add: fresh_def)
  show ?thesis
  proof (cases "a \<in> fst ` snd ` set qs")
    case True
    obtain qs1 t v qs2 where qs: "qs = qs1 @ (t, a, v) # qs2" "a \<notin> fst ` snd ` set qs2"
      using last_push [OF True] .
    have "(a, v) \<in> set (delta_values (gc_get_delta now ?since subs (-1) (push_all gc_push (ps @ qs1 @ (t, a, v) # qs2) ?c)))"
      using gc.news_complete [OF _ _ qs(2) fr assms(4) pos nz] assms(2,3) by (simp add: raw qs(1))
    with True qs(1) show ?thesis by force
  next
    case new: False
    have "(a, w) \<notin> set (delta_values (gc_get_delta now ?since subs (-1) (push_all gc_push (ps @ qs) ?c)))" for w
    proof (cases "a \<in> fst ` snd ` set ps")
      case True
      obtain ps1 t v ps2 where ps: "ps = ps1 @ (t, a, v) # ps2" "a \<notin> fst ` snd ` set ps2"
        using last_push [OF True] .
      have "(a, w) \<notin> set (delta_values (gc_get_delta now ?since subs (-1) (push_all gc_push (ps1 @ (t, a, v) # ps2 @ qs) ?c)))"
        using gc.news_sound [where c = ?c and ps = ps1 and t = t and a = a and v = v and qs = ps2 and rs = qs and since = ?since] pos nz ps new assms(2,3) by (simp add: raw image_Un)
      then show ?thesis by (simp add: ps(1))
    next
      case False
      then have "gc_entries (push_all gc_push (ps @ qs) ?c) a = None"
        using gc.pushes_other [where c = ?c and ps = "ps @ qs" and b = a] new by (auto simp: new_group_cache_def)
      then show ?thesis using gc.news_values [where c = "push_all gc_push (ps @ qs) ?c" and a = a] by simp
    qed
    with new show ?thesis by auto
  qed
qed

lemma group_cache_delta_exact_witness:
  "5 \<in> fst ` set (delta_values (gc_get_delta 105 (gc_position_of (push_all gc_push [(100, 5, [1]), (101, 6, [2])] new_group_cache))
      [5, 6] (-1) (push_all gc_push ([(100, 5, [1]), (101, 6, [2])] @ [(102, 5, [3])]) new_group_cache)))"
  using group_cache_delta_exact [of "[(100, 5, [1]), (101, 6, [2])]" "[(102, 5, [3])]" 5 "[5, 6]" 105] by simp

end
