(* ===== verification/Shared_Group_Cache.thy ===== *)
theory Shared_Group_Cache
  imports Group_Cache
begin

text \<open>
  \<^verbatim>\<open>src/state/shared_group_cache.cpp\<close>: the telegram cache in shared memory, a fixed-size open
  addressing hash table behind a process-shared mutex and condition variable.  The region is a
  value; the operations run under the mutex, so each is one atomic step, and what the pthread calls
  return is an argument.  The table refines the map of the telegram cache contract.
\<close>

section \<open>The region\<close>

definition kSharedCacheCapacity :: nat where
  "kSharedCacheCapacity = 2048"

definition kMaxSharedValueBytes :: nat where
  "kMaxSharedValueBytes = 14"

record shared_entry =
  se_addr :: u16
  se_value_len :: u16
  se_timestamp :: u32
  se_pushed_at :: u32
  se_value :: bytes

record shared_data =
  sd_position :: u32
  sd_generation :: u32
  sd_num_entries :: u32
  sd_entries :: "shared_entry list"

record shared_group_cache =
  sgc_data :: "shared_data option"
  sgc_owns_mmap :: bool

definition zero_entry :: shared_entry where
  "zero_entry = \<lparr>se_addr = 0, se_value_len = 0, se_timestamp = 0, se_pushed_at = 0,
     se_value = replicate kMaxSharedValueBytes 0\<rparr>"

definition zero_data :: shared_data where
  "zero_data = \<lparr>sd_position = 0, sd_generation = 0, sd_num_entries = 0,
     sd_entries = replicate kSharedCacheCapacity zero_entry\<rparr>"

definition new_shared_group_cache :: shared_group_cache where
  "new_shared_group_cache = \<lparr>sgc_data = None, sgc_owns_mmap = False\<rparr>"

text \<open>The three calls of \<^verbatim>\<open>create\<close> that can fail are given by their success.\<close>

definition sgc_create :: "bool \<Rightarrow> bool \<Rightarrow> bool \<Rightarrow> shared_group_cache \<Rightarrow> bool \<times> shared_group_cache" where
  "sgc_create mmap_ok mutex_ok cond_ok c =
     (if sgc_data c \<noteq> None then (False, c)
      else if \<not> mmap_ok then (False, c)
      else if \<not> mutex_ok then (False, c)
      else if \<not> cond_ok then (False, c)
      else (True, c\<lparr>sgc_data := Some zero_data, sgc_owns_mmap := True\<rparr>))"

definition sgc_attach :: "shared_data \<Rightarrow> shared_group_cache \<Rightarrow> shared_group_cache" where
  "sgc_attach d c = c\<lparr>sgc_data := Some d, sgc_owns_mmap := False\<rparr>"

definition sgc_destroy :: "shared_group_cache \<Rightarrow> shared_group_cache" where
  "sgc_destroy c = (if sgc_data c \<noteq> None \<and> sgc_owns_mmap c
     then c\<lparr>sgc_data := None, sgc_owns_mmap := False\<rparr> else c)"

definition sgc_is_initialized :: "shared_group_cache \<Rightarrow> bool" where
  "sgc_is_initialized c \<longleftrightarrow> sgc_data c \<noteq> None"

section \<open>The hash table\<close>

function find_slot_loop :: "shared_entry list \<Rightarrow> u16 \<Rightarrow> nat \<Rightarrow> nat \<Rightarrow> nat" where
  "find_slot_loop entries addr index i =
     (if i < kSharedCacheCapacity then
        let slot = (index + i) mod kSharedCacheCapacity in
        if se_addr (entries ! slot) = addr \<or> se_addr (entries ! slot) = 0 then slot
        else find_slot_loop entries addr index (i + 1)
      else kSharedCacheCapacity)"
  by pat_completeness auto
termination
  by (relation "measure (\<lambda>(_, _, _, i). kSharedCacheCapacity - i)") auto

declare find_slot_loop.simps [simp del]

definition find_slot :: "u16 \<Rightarrow> shared_data \<Rightarrow> nat" where
  "find_slot addr d = find_slot_loop (sd_entries d) addr (unat addr mod kSharedCacheCapacity) 0"

definition insert_locked :: "u16 \<Rightarrow> shared_entry \<Rightarrow> shared_data \<Rightarrow> shared_data" where
  "insert_locked addr entry d =
     (let slot = find_slot addr d in
      if slot \<ge> kSharedCacheCapacity then d
      else
        let is_new = (se_addr (sd_entries d ! slot) = 0);
            d = d\<lparr>sd_entries := (sd_entries d)[slot := entry]\<rparr>
        in if is_new then d\<lparr>sd_num_entries := sd_num_entries d + 1\<rparr> else d)"

section \<open>The operations\<close>

datatype lock_result = Lock_ok | Lock_owner_dead | Lock_failed

fun lock_acquired :: "lock_result \<Rightarrow> bool" where
  "lock_acquired Lock_ok = True"
| "lock_acquired Lock_owner_dead = True"
| "lock_acquired Lock_failed = False"

definition push_locked :: "u32 \<Rightarrow> u16 \<Rightarrow> bytes \<Rightarrow> shared_data \<Rightarrow> shared_data" where
  "push_locked now addr value d =
     (let raw_pos = sd_position d;
          d = d\<lparr>sd_position := raw_pos + 1\<rparr>;
          wrapped_pos = (raw_pos + 1) mod kPositionModulus;
          len = min (length value) kMaxSharedValueBytes;
          entry = zero_entry\<lparr>se_addr := addr, se_value_len := of_nat len,
            se_timestamp := now, se_pushed_at := wrapped_pos,
            se_value := take len value @ drop len (se_value zero_entry)\<rparr>;
          d = insert_locked addr entry d
      in d\<lparr>sd_generation := sd_generation d + 1\<rparr>)"

definition sgc_push :: "lock_result \<Rightarrow> u32 \<Rightarrow> u16 \<Rightarrow> bytes \<Rightarrow> shared_group_cache \<Rightarrow> shared_group_cache" where
  "sgc_push lock now addr value c =
     (case sgc_data c of
        None \<Rightarrow> c
      | Some d \<Rightarrow>
          if lock_acquired lock then c\<lparr>sgc_data := Some (push_locked now addr value d)\<rparr> else c)"

text \<open>The bytes read from an entry: the first \<^verbatim>\<open>value_len\<close> of its array.\<close>

definition entry_bytes :: "shared_entry \<Rightarrow> bytes" where
  "entry_bytes e = take (unat (se_value_len e)) (se_value e)"

definition get_locked :: "u32 \<Rightarrow> u16 \<Rightarrow> int \<Rightarrow> shared_data \<Rightarrow> bytes option" where
  "get_locked now addr max_age_sec d =
     (let slot = find_slot addr d in
      if slot < kSharedCacheCapacity \<and> se_addr (sd_entries d ! slot) = addr then
        let e = sd_entries d ! slot in
        if max_age_sec \<ge> 0 then
          if now - se_timestamp e < of_int max_age_sec then Some (entry_bytes e) else None
        else Some (entry_bytes e)
      else None)"

definition sgc_get :: "lock_result \<Rightarrow> u32 \<Rightarrow> u16 \<Rightarrow> int \<Rightarrow> shared_group_cache \<Rightarrow> bytes option" where
  "sgc_get lock now addr max_age_sec c =
     (case sgc_data c of
        None \<Rightarrow> None
      | Some d \<Rightarrow> if lock_acquired lock then get_locked now addr max_age_sec d else None)"

fun delta_loop :: "u32 \<Rightarrow> u32 \<Rightarrow> u32 \<Rightarrow> int \<Rightarrow> shared_data \<Rightarrow> u16 list \<Rightarrow> (u16 \<times> bytes) list" where
  "delta_loop now position since_pos max_age_sec d [] = []"
| "delta_loop now position since_pos max_age_sec d (addr # subscribed) =
     (let rest = delta_loop now position since_pos max_age_sec d subscribed;
          slot = find_slot addr d in
      if slot \<ge> kSharedCacheCapacity then rest
      else
        let e = sd_entries d ! slot in
        if se_addr e \<noteq> addr then rest
        else if max_age_sec \<ge> 0 \<and> now - se_timestamp e \<ge> of_int max_age_sec then rest
        else if delta_includes position since_pos (se_pushed_at e) then (addr, entry_bytes e) # rest
        else rest)"

definition get_delta_locked :: "u32 \<Rightarrow> u32 \<Rightarrow> u16 list \<Rightarrow> int \<Rightarrow> shared_data \<Rightarrow> delta" where
  "get_delta_locked now since_pos subscribed max_age_sec d =
     (let position = sd_position d mod kPositionModulus
      in \<lparr>delta_values = delta_loop now position since_pos max_age_sec d subscribed,
          delta_position = position\<rparr>)"

definition sgc_get_delta :: "lock_result \<Rightarrow> u32 \<Rightarrow> u32 \<Rightarrow> u16 list \<Rightarrow> int \<Rightarrow> shared_group_cache \<Rightarrow> delta" where
  "sgc_get_delta lock now since_pos subscribed max_age_sec c =
     (case sgc_data c of
        None \<Rightarrow> \<lparr>delta_values = [], delta_position = 0\<rparr>
      | Some d \<Rightarrow>
          if lock_acquired lock then get_delta_locked now since_pos subscribed max_age_sec d
          else \<lparr>delta_values = [], delta_position = 0\<rparr>)"

text \<open>\<^verbatim>\<open>position()\<close> reads through the pointer without a test.\<close>

definition sgc_position :: "shared_group_cache \<Rightarrow> u32 outcome" where
  "sgc_position c =
     (case sgc_data c of None \<Rightarrow> UB | Some d \<Rightarrow> Ret (sd_position d mod kPositionModulus))"


section \<open>Probing\<close>

definition slot_at :: "u16 \<Rightarrow> nat \<Rightarrow> nat" where
  "slot_at a i = (unat a mod kSharedCacheCapacity + i) mod kSharedCacheCapacity"

abbreviation addr_at :: "shared_entry list \<Rightarrow> nat \<Rightarrow> u16" where
  "addr_at es s \<equiv> se_addr (es ! s)"

lemma capacity_pos [simp]: "0 < kSharedCacheCapacity"
  by (simp add: kSharedCacheCapacity_def)

lemma slot_at_less [simp]: "slot_at a i < kSharedCacheCapacity"
  by (simp add: slot_at_def)

lemma slot_at_surj:
  assumes "s < kSharedCacheCapacity"
  obtains i where "i < kSharedCacheCapacity" "slot_at a i = s"
proof
  let ?C = kSharedCacheCapacity and ?h = "unat a mod kSharedCacheCapacity"
  let ?i = "(s + ?C - ?h) mod ?C"
  show "?i < ?C" by simp
  have "?h < ?C" by simp
  then have "?h + (s + ?C - ?h) = s + ?C" by linarith
  then show "slot_at a ?i = s" using assms by (simp add: slot_at_def mod_add_right_eq)
qed

lemma find_slot_loop_cases:
  fixes es :: "shared_entry list" and a :: u16
  defines "hit \<equiv> \<lambda>k. addr_at es (slot_at a k) \<in> {a, 0}"
  shows "(\<exists>k. i \<le> k \<and> k < kSharedCacheCapacity \<and> hit k \<and> (\<forall>j. i \<le> j \<and> j < k \<longrightarrow> \<not> hit j) \<and>
           find_slot_loop es a (unat a mod kSharedCacheCapacity) i = slot_at a k) \<or>
         (\<forall>j. i \<le> j \<and> j < kSharedCacheCapacity \<longrightarrow> \<not> hit j) \<and>
           find_slot_loop es a (unat a mod kSharedCacheCapacity) i = kSharedCacheCapacity"
proof (induction "kSharedCacheCapacity - i" arbitrary: i)
  case 0
  then show ?case by (subst (2) find_slot_loop.simps) auto
next
  case (Suc n)
  then have i: "i < kSharedCacheCapacity" by simp
  show ?case
  proof (cases "hit i")
    case True
    then have "find_slot_loop es a (unat a mod kSharedCacheCapacity) i = slot_at a i"
      using i by (subst find_slot_loop.simps) (auto simp: hit_def slot_at_def Let_def)
    with True i show ?thesis by (intro disjI1 exI [of _ i]) auto
  next
    case False
    then have eq: "find_slot_loop es a (unat a mod kSharedCacheCapacity) i
        = find_slot_loop es a (unat a mod kSharedCacheCapacity) (Suc i)"
      using i by (subst find_slot_loop.simps) (auto simp: hit_def slot_at_def Let_def)
    have "n = kSharedCacheCapacity - Suc i" using Suc(2) by simp
    note IH = Suc(1) [OF this]
    have step: "i \<le> j \<longleftrightarrow> j = i \<or> Suc i \<le> j" for j by auto
    from IH False show ?thesis unfolding eq step by blast
  qed
qed

lemma find_slot_hit:
  assumes "k < kSharedCacheCapacity" "addr_at (sd_entries d) (slot_at a k) \<in> {a, 0}"
    and "\<forall>j < k. addr_at (sd_entries d) (slot_at a j) \<notin> {a, 0}"
  shows "find_slot a d = slot_at a k"
  using find_slot_loop_cases [where es = "sd_entries d" and a = a and i = 0] assms
  unfolding find_slot_def by (metis (no_types, lifting) le0 linorder_neqE_nat)

lemma find_slot_cases:
  obtains (found) k where "k < kSharedCacheCapacity" "find_slot a d = slot_at a k"
      "addr_at (sd_entries d) (slot_at a k) \<in> {a, 0}"
      "\<forall>j < k. addr_at (sd_entries d) (slot_at a j) \<notin> {a, 0}"
  | (full) "find_slot a d = kSharedCacheCapacity"
      "\<forall>s < kSharedCacheCapacity. addr_at (sd_entries d) s \<notin> {a, 0}"
  using find_slot_loop_cases [where es = "sd_entries d" and a = a and i = 0]
  unfolding find_slot_def by (metis le0 slot_at_surj)

section \<open>The invariant of the table\<close>

definition on_path :: "shared_entry list \<Rightarrow> nat \<Rightarrow> bool" where
  "on_path es s \<longleftrightarrow> (\<exists>i < kSharedCacheCapacity. slot_at (addr_at es s) i = s \<and>
     (\<forall>j < i. addr_at es (slot_at (addr_at es s) j) \<notin> {addr_at es s, 0}))"

definition entry_ok :: "shared_entry \<Rightarrow> bool" where
  "entry_ok e \<longleftrightarrow> unat (se_value_len e) \<le> kMaxSharedValueBytes \<and>
     length (se_value e) = kMaxSharedValueBytes"

definition used_slots :: "shared_entry list \<Rightarrow> nat set" where
  "used_slots es = {s. s < kSharedCacheCapacity \<and> addr_at es s \<noteq> 0}"

definition table_inv :: "shared_data \<Rightarrow> bool" where
  "table_inv d \<longleftrightarrow> length (sd_entries d) = kSharedCacheCapacity \<and>
     (\<forall>e \<in> set (sd_entries d). entry_ok e) \<and>
     (\<forall>s \<in> used_slots (sd_entries d). on_path (sd_entries d) s) \<and>
     sd_num_entries d = of_nat (card (used_slots (sd_entries d)))"

lemma used_slots_zero [simp]: "used_slots (replicate kSharedCacheCapacity zero_entry) = {}"
  by (auto simp: used_slots_def zero_entry_def)

lemma entry_ok_zero [simp]: "entry_ok zero_entry"
  by (simp add: entry_ok_def zero_entry_def)

lemma table_inv_zero: "table_inv zero_data"
  by (auto simp: table_inv_def zero_data_def)

lemma find_slot_holds:
  assumes "table_inv d" "s \<in> used_slots (sd_entries d)"
  shows "find_slot (addr_at (sd_entries d) s) d = s"
proof -
  from assms obtain i where i: "i < kSharedCacheCapacity" "slot_at (addr_at (sd_entries d) s) i = s"
    "\<forall>j < i. addr_at (sd_entries d) (slot_at (addr_at (sd_entries d) s) j)
       \<notin> {addr_at (sd_entries d) s, 0}"
    by (auto simp: table_inv_def on_path_def)
  then have "find_slot (addr_at (sd_entries d) s) d = slot_at (addr_at (sd_entries d) s) i"
    by (intro find_slot_hit) auto
  with i show ?thesis by simp
qed

lemma used_slots_inj:
  "table_inv d \<Longrightarrow> inj_on (addr_at (sd_entries d)) (used_slots (sd_entries d))"
  using find_slot_holds [of d] by (intro inj_on_inverseI [where g = "\<lambda>a. find_slot a d"])

lemma finite_used_slots [simp]: "finite (used_slots es)"
  by (simp add: used_slots_def)

section \<open>Insertion\<close>

lemma used_slots_update:
  assumes "length es = kSharedCacheCapacity" "s < kSharedCacheCapacity" "se_addr e \<noteq> 0"
  shows "used_slots (es[s := e]) = insert s (used_slots es)"
  using assms by (auto simp: used_slots_def nth_list_update split: if_splits)

lemma on_path_update:
  assumes len: "length es = kSharedCacheCapacity" and k: "k < kSharedCacheCapacity"
    and e: "se_addr e = a" "a \<noteq> 0"
    and hit: "addr_at es (slot_at a k) \<in> {a, 0}"
    and before: "\<forall>j < k. addr_at es (slot_at a j) \<notin> {a, 0}"
    and paths: "\<forall>s \<in> used_slots es. on_path es s"
    and s: "s \<in> used_slots (es[slot_at a k := e])"
  shows "on_path (es[slot_at a k := e]) s"
proof (cases "s = slot_at a k")
  case True
  have "slot_at a j \<noteq> slot_at a k" if "j < k" for j using that hit before by auto
  with True assms show ?thesis by (auto simp: on_path_def nth_list_update intro!: exI [of _ k])
next
  case False
  then have old: "addr_at (es[slot_at a k := e]) s = addr_at es s" by simp
  from False s have "s \<in> used_slots es" by (auto simp: used_slots_def)
  then have used: "addr_at es s \<noteq> 0" and "on_path es s" using paths by (auto simp: used_slots_def)
  then obtain i where i: "i < kSharedCacheCapacity" "slot_at (addr_at es s) i = s"
    "\<forall>j < i. addr_at es (slot_at (addr_at es s) j) \<notin> {addr_at es s, 0}"
    by (auto simp: on_path_def)
  have "addr_at es s \<noteq> a"
  proof
    assume a: "addr_at es s = a"
    then have "\<not> k < i" using i(3) hit e(2) by auto
    moreover have "\<not> i < k" using before i(2) a by auto
    ultimately show False using False i(2) a by (metis linorder_neqE_nat)
  qed
  then show ?thesis
    unfolding on_path_def old using i e len by (auto simp: nth_list_update)
qed


text \<open>The table accepts an address other than 0 while a slot for it is left.\<close>

definition sd_accepts :: "shared_data \<Rightarrow> u16 \<Rightarrow> bool" where
  "sd_accepts d a \<longleftrightarrow> a \<noteq> 0 \<and> find_slot a d < kSharedCacheCapacity"

lemma not_le_slot: "\<not> kSharedCacheCapacity \<le> slot_at a k"
  by (simp add: not_le)

lemma insert_locked_inv:
  assumes inv: "table_inv d" and acc: "sd_accepts d a" and e: "se_addr e = a" "entry_ok e"
  shows "table_inv (insert_locked a e d)"
proof (cases rule: find_slot_cases [of a d])
  case (found k)
  let ?s = "slot_at a k"
  have len: "length (sd_entries d) = kSharedCacheCapacity" using inv by (simp add: table_inv_def)
  have a: "a \<noteq> 0" using acc by (simp add: sd_accepts_def)
  have used: "used_slots ((sd_entries d)[?s := e]) = insert ?s (used_slots (sd_entries d))"
    using a e len by (intro used_slots_update) auto
  have ok: "\<forall>e' \<in> set ((sd_entries d)[?s := e]). entry_ok e'"
    using inv e(2) set_update_subset_insert [of "sd_entries d" ?s e] by (auto simp: table_inv_def)
  have path: "\<forall>s \<in> used_slots ((sd_entries d)[?s := e]). on_path ((sd_entries d)[?s := e]) s"
    using on_path_update [OF len found(1) e(1) a found(3,4)] inv by (simp add: table_inv_def)
  have new: "?s \<in> used_slots (sd_entries d) \<longleftrightarrow> addr_at (sd_entries d) ?s \<noteq> 0"
    by (simp add: used_slots_def)
  then have num: "of_nat (card (insert ?s (used_slots (sd_entries d)))) =
      (if addr_at (sd_entries d) ?s = 0 then sd_num_entries d + 1 else sd_num_entries d)"
    using inv by (simp add: table_inv_def insert_absorb card_insert_if)
  show ?thesis
    using found(1,2) len ok path used num unfolding table_inv_def
    by (simp add: insert_locked_def Let_def not_le_slot)
next
  case full
  with acc show ?thesis by (simp add: sd_accepts_def)
qed

lemma sd_entries_insert_locked:
  "sd_accepts d a \<Longrightarrow> sd_entries (insert_locked a e d) = (sd_entries d)[find_slot a d := e]"
  by (simp add: insert_locked_def Let_def sd_accepts_def)

section \<open>The table as a map\<close>

definition entry_abs :: "shared_entry \<Rightarrow> cache_entry" where
  "entry_abs e = \<lparr>ce_value = entry_bytes e, ce_timestamp = se_timestamp e,
     ce_pushed_at = se_pushed_at e\<rparr>"

definition sd_lookup :: "shared_data \<Rightarrow> u16 \<Rightarrow> cache_entry option" where
  "sd_lookup d a =
     (let slot = find_slot a d in
      if slot < kSharedCacheCapacity \<and> addr_at (sd_entries d) slot = a
      then Some (entry_abs (sd_entries d ! slot)) else None)"

lemma sd_lookup_iff:
  assumes "table_inv d" "a \<noteq> 0"
  shows "sd_lookup d a = Some x \<longleftrightarrow>
    (\<exists>s < kSharedCacheCapacity. addr_at (sd_entries d) s = a \<and> x = entry_abs (sd_entries d ! s))"
proof -
  have "find_slot a d = s" if "s < kSharedCacheCapacity" "addr_at (sd_entries d) s = a" for s
    using find_slot_holds [OF assms(1), of s] that assms(2) by (auto simp: used_slots_def)
  then have "find_slot a d < kSharedCacheCapacity \<and> addr_at (sd_entries d) (find_slot a d) = a \<and>
      x = entry_abs (sd_entries d ! find_slot a d) \<longleftrightarrow>
    (\<exists>s < kSharedCacheCapacity. addr_at (sd_entries d) s = a \<and> x = entry_abs (sd_entries d ! s))"
    by metis
  then show ?thesis by (auto simp: sd_lookup_def Let_def)
qed

lemma sd_lookup_insert:
  assumes inv: "table_inv d" and acc: "sd_accepts d a" and e: "se_addr e = a" "entry_ok e"
    and b: "b \<noteq> 0"
  shows "sd_lookup (insert_locked a e d) b = (if b = a then Some (entry_abs e) else sd_lookup d b)"
proof -
  let ?s = "find_slot a d"
  have inv': "table_inv (insert_locked a e d)" using inv acc e by (rule insert_locked_inv)
  have len: "length (sd_entries d) = kSharedCacheCapacity" using inv by (simp add: table_inv_def)
  have s: "?s < kSharedCacheCapacity" using acc by (simp add: sd_accepts_def)
  then have hit: "addr_at (sd_entries d) ?s \<in> {a, 0}"
    by (cases rule: find_slot_cases [of a d]) auto
  note es = sd_entries_insert_locked [OF acc]
  show ?thesis
  proof (cases "b = a")
    case True
    then show ?thesis using sd_lookup_iff [OF inv' b] s len e es by auto
  next
    case False
    have same: "r < kSharedCacheCapacity \<and> addr_at ((sd_entries d)[?s := e]) r = b \<and>
        x = entry_abs ((sd_entries d)[?s := e] ! r) \<longleftrightarrow>
      r < kSharedCacheCapacity \<and> addr_at (sd_entries d) r = b \<and> x = entry_abs (sd_entries d ! r)"
      for r x
      using False hit len s e(1) b by (cases "r = ?s") auto
    have "sd_lookup (insert_locked a e d) b = Some x \<longleftrightarrow> sd_lookup d b = Some x" for x
      unfolding sd_lookup_iff [OF inv' b] sd_lookup_iff [OF inv b] es
      by (simp only: same)
    with False show ?thesis by (metis not_Some_eq)
  qed
qed

definition clip14 :: "bytes \<Rightarrow> bytes" where
  "clip14 v = take kMaxSharedValueBytes v"

lemma take_min_length: "take (min (length xs) n) xs = take n xs"
  by (simp add: min_def)

text \<open>The entry a push writes.\<close>

definition pushed_entry :: "u32 \<Rightarrow> u16 \<Rightarrow> bytes \<Rightarrow> u32 \<Rightarrow> shared_entry" where
  "pushed_entry now addr value p = (let len = min (length value) kMaxSharedValueBytes in
     \<lparr>se_addr = addr, se_value_len = of_nat len, se_timestamp = now, se_pushed_at = p,
      se_value = take len value @ drop len (replicate kMaxSharedValueBytes 0)\<rparr>)"

lemma unat_value_len [simp]:
  "unat (of_nat (min n kMaxSharedValueBytes) :: u16) = min n kMaxSharedValueBytes"
  by (simp add: unsigned_of_nat take_bit_eq_mod kMaxSharedValueBytes_def)

lemma pushed_entry_ok: "entry_ok (pushed_entry now addr value p)"
  by (simp add: entry_ok_def pushed_entry_def Let_def)

lemma pushed_entry_addr [simp]: "se_addr (pushed_entry now addr value p) = addr"
  by (simp add: pushed_entry_def Let_def)

lemma pushed_entry_abs:
  "entry_abs (pushed_entry now addr value p) =
     \<lparr>ce_value = clip14 value, ce_timestamp = now, ce_pushed_at = p\<rparr>"
  by (simp add: entry_abs_def entry_bytes_def pushed_entry_def Let_def clip14_def take_min_length)

text \<open>The table does not depend on the counters.\<close>

lemma find_slot_counters [simp]:
  "find_slot a (d\<lparr>sd_position := p\<rparr>) = find_slot a d"
  "find_slot a (d\<lparr>sd_generation := g\<rparr>) = find_slot a d"
  by (simp_all add: find_slot_def)

lemma table_counters [simp]:
  "table_inv (d\<lparr>sd_position := p\<rparr>) = table_inv d"
  "table_inv (d\<lparr>sd_generation := g\<rparr>) = table_inv d"
  "sd_lookup (d\<lparr>sd_position := p\<rparr>) = sd_lookup d"
  "sd_lookup (d\<lparr>sd_generation := g\<rparr>) = sd_lookup d"
  "sd_accepts (d\<lparr>sd_position := p\<rparr>) = sd_accepts d"
  by (simp_all add: table_inv_def sd_lookup_def sd_accepts_def fun_eq_iff Let_def)

lemma insert_locked_counters [simp]:
  "sd_position (insert_locked a e d) = sd_position d"
  "sd_generation (insert_locked a e d) = sd_generation d"
  by (simp_all add: insert_locked_def Let_def)

lemma push_locked_alt:
  "push_locked now addr value d =
     (let p = (sd_position d + 1) mod kPositionModulus;
          d' = insert_locked addr (pushed_entry now addr value p) (d\<lparr>sd_position := sd_position d + 1\<rparr>)
      in d'\<lparr>sd_generation := sd_generation d + 1\<rparr>)"
  by (simp add: push_locked_def pushed_entry_def zero_entry_def Let_def)

lemma push_locked_counters [simp]:
  "sd_position (push_locked now addr value d) = sd_position d + 1"
  "sd_generation (push_locked now addr value d) = sd_generation d + 1"
  by (simp_all add: push_locked_alt Let_def)

lemma push_locked_inv:
  "table_inv d \<Longrightarrow> sd_accepts d a \<Longrightarrow> table_inv (push_locked t a v d)"
  by (simp add: push_locked_alt Let_def insert_locked_inv pushed_entry_ok)

lemma push_locked_lookup:
  assumes "table_inv d" "sd_accepts d a" "b \<noteq> 0"
  shows "sd_lookup (push_locked t a v d) b =
    (if b = a then Some \<lparr>ce_value = clip14 v, ce_timestamp = t,
       ce_pushed_at = (sd_position d + 1) mod kPositionModulus\<rparr> else sd_lookup d b)"
  using assms by (simp add: push_locked_alt Let_def sd_lookup_insert pushed_entry_ok pushed_entry_abs)

lemma get_locked_lookup:
  "get_locked t a age d = (case sd_lookup d a of None \<Rightarrow> None
     | Some e \<Rightarrow> if fresh t age (ce_timestamp e) then Some (ce_value e) else None)"
  by (auto simp: get_locked_def sd_lookup_def entry_abs_def Let_def fresh_iff not_le)

lemma delta_loop_iff:
  "(a, v) \<in> set (delta_loop now position since age d subs) \<longleftrightarrow>
     a \<in> set subs \<and> (\<exists>e. sd_lookup d a = Some e \<and> v = ce_value e \<and>
       fresh now age (ce_timestamp e) \<and> delta_includes position since (ce_pushed_at e))"
proof (induction subs)
  case (Cons b subs)
  then show ?case
    by (auto simp: Let_def sd_lookup_def entry_abs_def fresh_iff)
qed simp


section \<open>The shared cache fulfils the contract\<close>

interpretation sgc: telegram_cache push_locked get_locked get_delta_locked sd_lookup sd_position
  table_inv "\<lambda>a. a \<noteq> 0" sd_accepts clip14
proof unfold_locales
  show "sd_accepts c a \<Longrightarrow> a \<noteq> 0" for c a by (simp add: sd_accepts_def)
qed (simp_all add: push_locked_inv push_locked_lookup get_locked_lookup get_delta_locked_def
      delta_loop_iff Let_def)

text \<open>
  The in-process cache is the abstract view of the shared one: the same positions, and as map the
  entries the table finds under the addresses other than 0.
\<close>

definition sgc_abs :: "shared_data \<Rightarrow> group_cache" where
  "sgc_abs d = \<lparr>gc_entries = (\<lambda>a. if a = 0 then None else sd_lookup d a), gc_position = sd_position d\<rparr>"

lemma sgc_abs_zero: "sgc_abs zero_data = new_group_cache"
proof -
  have "sd_lookup zero_data a = None" if "a \<noteq> 0" for a
  proof -
    have "sd_lookup zero_data a \<noteq> Some x" for x
      using that by (auto simp: sd_lookup_iff table_inv_zero) (auto simp: zero_data_def zero_entry_def)
    then show ?thesis by auto
  qed
  then show ?thesis by (simp add: sgc_abs_def new_group_cache_def fun_eq_iff zero_data_def)
qed

lemma sgc_abs_push:
  assumes "table_inv d" "sd_accepts d a"
  shows "sgc_abs (push_locked t a v d) = gc_push t a (clip14 v) (sgc_abs d)"
  using assms
  by (auto simp: sgc_abs_def gc_push_def push_locked_lookup fun_eq_iff Let_def sd_accepts_def)

lemma get_locked_abs: "a \<noteq> 0 \<Longrightarrow> get_locked t a age d = gc_get t a age (sgc_abs d)"
  by (auto simp: get_locked_lookup sgc_abs_def gc_get_def fresh_iff split: option.splits)

lemma delta_loop_abs:
  assumes "0 \<notin> set subs"
  shows "delta_loop t p since age d subs = gc_delta_loop t p since age (sgc_abs d) subs"
  using assms
  by (induction subs) (auto simp: sgc_abs_def sd_lookup_def entry_abs_def Let_def)

lemma get_delta_locked_abs:
  "0 \<notin> set subs \<Longrightarrow> get_delta_locked t since subs age d = gc_get_delta t since subs age (sgc_abs d)"
  by (simp add: get_delta_locked_def gc_get_delta_def delta_loop_abs Let_def) (simp add: sgc_abs_def)

section \<open>Capacity\<close>

lemma sd_accepts_room:
  assumes inv: "table_inv d" and a: "a \<noteq> 0"
    and room: "card (addr_at (sd_entries d) ` used_slots (sd_entries d) \<union> {a}) \<le> kSharedCacheCapacity"
  shows "sd_accepts d a"
proof (cases rule: find_slot_cases [of a d])
  case found
  with a show ?thesis by (simp add: sd_accepts_def)
next
  case full
  then have used: "used_slots (sd_entries d) = {..<kSharedCacheCapacity}"
    and new: "a \<notin> addr_at (sd_entries d) ` used_slots (sd_entries d)"
    by (auto simp: used_slots_def)
  have "card (addr_at (sd_entries d) ` used_slots (sd_entries d)) = kSharedCacheCapacity"
    by (subst card_image [OF used_slots_inj [OF inv]]) (simp add: used)
  with new room show ?thesis by simp
qed

lemma used_addrs_push:
  assumes "table_inv d" "sd_accepts d a"
  shows "addr_at (sd_entries (push_locked t a v d)) ` used_slots (sd_entries (push_locked t a v d))
     \<subseteq> insert a (addr_at (sd_entries d) ` used_slots (sd_entries d))"
proof -
  let ?e = "pushed_entry t a v ((sd_position d + 1) mod kPositionModulus)" and ?s = "find_slot a d"
  have "sd_entries (push_locked t a v d) = (sd_entries d)[?s := ?e]"
    using assms(2) by (simp add: push_locked_alt Let_def sd_entries_insert_locked)
  moreover have "addr_at ((sd_entries d)[?s := ?e]) r = (if r = ?s then a else addr_at (sd_entries d) r)"
    if "r < kSharedCacheCapacity" for r
    using assms that by (simp add: table_inv_def nth_list_update)
  ultimately show ?thesis by (auto simp: used_slots_def)
qed

text \<open>
  Any number of pushes is accepted as long as they concern at most \<open>kSharedCacheCapacity\<close> different
  addresses, none of them 0.
\<close>

lemma pushes_accepted_from:
  assumes "table_inv d" "finite A" "card A \<le> kSharedCacheCapacity" "0 \<notin> A"
    and "addr_at (sd_entries d) ` used_slots (sd_entries d) \<subseteq> A" "fst ` snd ` set ps \<subseteq> A"
  shows "all_accepted sd_accepts push_locked ps d"
  using assms
proof (induction ps arbitrary: d)
  case (Cons p ps)
  obtain t a v where p: "p = (t, a, v)" by (cases p)
  have a: "a \<in> A" using Cons.prems by (simp add: p)
  have "card (addr_at (sd_entries d) ` used_slots (sd_entries d) \<union> {a}) \<le> card A"
    using Cons.prems a by (intro card_mono) auto
  then have acc: "sd_accepts d a" using Cons.prems a by (intro sd_accepts_room) auto
  have "addr_at (sd_entries (push_locked t a v d)) ` used_slots (sd_entries (push_locked t a v d)) \<subseteq> A"
    using a Cons.prems(5) by (intro order_trans [OF used_addrs_push [OF Cons.prems(1) acc]]) simp
  then have "all_accepted sd_accepts push_locked ps (push_locked t a v d)"
    using Cons.prems acc by (intro Cons.IH push_locked_inv) (simp_all add: p)
  with acc show ?case by (simp add: p)
qed simp

lemma pushes_accepted:
  assumes "0 \<notin> fst ` snd ` set ps" "card (fst ` snd ` set ps) \<le> kSharedCacheCapacity"
  shows "all_accepted sd_accepts push_locked ps zero_data"
  using assms by (intro pushes_accepted_from [where A = "fst ` snd ` set ps"] table_inv_zero)
    (auto simp: zero_data_def)


section \<open>Properties of the shared cache\<close>

lemma push_all_abs:
  assumes "table_inv d" "all_accepted sd_accepts push_locked ps d"
  shows "sgc_abs (push_all push_locked ps d) = push_all gc_push (map (\<lambda>(t, a, v). (t, a, clip14 v)) ps) (sgc_abs d)"
  using assms
proof (induction ps arbitrary: d)
  case (Cons p ps)
  then show ?case by (cases p) (simp add: sgc_abs_push push_locked_inv)
qed simp

abbreviation addrs :: "(u32 \<times> u16 \<times> bytes) list \<Rightarrow> u16 set" where
  "addrs ps \<equiv> fst ` snd ` set ps"

text \<open>
  (C1) The shared hash table refines the in-process cache.  Any history of pushes on at most
  \<^verbatim>\<open>kSharedCacheCapacity\<close> different addresses other than 0 leaves the table in its invariant, and read
  as a map it is what the in-process cache holds after the same pushes, values cut to 14 bytes.
\<close>

theorem shared_cache_refines:
  assumes "0 \<notin> addrs ps" "card (addrs ps) \<le> kSharedCacheCapacity"
  shows "table_inv (push_all push_locked ps zero_data) \<and>
    sgc_abs (push_all push_locked ps zero_data) =
      push_all gc_push (map (\<lambda>(t, a, v). (t, a, take kMaxSharedValueBytes v)) ps) new_group_cache"
  using push_all_abs [OF table_inv_zero pushes_accepted [OF assms]]
    sgc.pushes_inv [OF table_inv_zero pushes_accepted [OF assms]]
  by (simp add: sgc_abs_zero clip14_def)

theorem shared_cache_refines_witness:
  "sgc_abs (push_all push_locked [(100, 1, [7]), (101, 2049, [8, 9])] zero_data) =
     push_all gc_push [(100, 1, [7]), (101, 2049, [8, 9])] new_group_cache"
proof -
  have "card (addrs [(100, 1, [7]), (101, 2049, [8, 9])]) \<le> kSharedCacheCapacity"
    by (simp add: kSharedCacheCapacity_def)
  then show ?thesis
    using shared_cache_refines [of "[(100, 1, [7]), (101, 2049, [8, 9])]"]
    by (simp add: kMaxSharedValueBytes_def)
qed

text \<open>
  Reading from the shared table is reading from that map: \<^verbatim>\<open>get\<close> and \<^verbatim>\<open>get_delta\<close> of both caches
  agree on every address other than 0, for every clock, age limit and client position.
\<close>

lemma shared_reads_refine:
  assumes "a \<noteq> 0" "0 \<notin> set subs"
  shows "get_locked t a age d = gc_get t a age (sgc_abs d) \<and>
    get_delta_locked t since subs age d = gc_get_delta t since subs age (sgc_abs d)"
  using assms get_locked_abs get_delta_locked_abs by blast

lemma shared_reads_refine_witness:
  "get_locked 105 2049 10 (push_locked 100 2049 [8] zero_data) =
     gc_get 105 2049 10 (sgc_abs (push_locked 100 2049 [8] zero_data)) \<and>
   get_delta_locked 105 3 [1, 2049] 10 (push_locked 100 2049 [8] zero_data) =
     gc_get_delta 105 3 [1, 2049] 10 (sgc_abs (push_locked 100 2049 [8] zero_data))"
  by (rule shared_reads_refine) simp_all

text \<open>
  A read returns the last value pushed for the address, cut to 14 bytes, exactly when it is
  younger than the age limit (or there is none), whatever else was pushed before and after.
\<close>

lemma shared_get_last:
  assumes "0 \<notin> addrs (ps @ (t, a, v) # qs)" "card (addrs (ps @ (t, a, v) # qs)) \<le> kSharedCacheCapacity"
    and "a \<notin> addrs qs"
  shows "get_locked now a age (push_all push_locked (ps @ (t, a, v) # qs) zero_data) =
    (if age < 0 \<or> now - t < of_int age then Some (take kMaxSharedValueBytes v) else None)"
  using sgc.lookup_last [OF table_inv_zero pushes_accepted [OF assms(1,2)] assms(3), of now age]
  by (simp add: fresh_def clip14_def not_le)

lemma shared_get_last_witness:
  "get_locked 105 2049 10 (push_all push_locked [(100, 2049, [1]), (101, 2049, [8, 9]), (102, 1, [7])] zero_data)
     = Some [8, 9]"
proof -
  have "card (addrs ([(100, 2049, [1])] @ (101, 2049, [8, 9]) # [(102, 1, [7])])) \<le> kSharedCacheCapacity"
    by (simp add: kSharedCacheCapacity_def)
  then show ?thesis
    using shared_get_last [of "[(100, 2049, [1])]" 101 2049 "[8, 9]" "[(102, 1, [7])]" 105 10]
    by (simp add: kMaxSharedValueBytes_def)
qed

text \<open>
  (C2) No update is lost on a client that keeps up.  A client whose position was read after the pushes
  \<open>ps\<close> is offered, in its next delta, the last value of every subscribed address pushed since, as
  long as fewer than \<^verbatim>\<open>kPositionModulus\<close> pushes happened in between.
\<close>

theorem shared_delta_complete:
  assumes "0 \<notin> addrs (ps @ qs @ (t, a, v) # rs)" "card (addrs (ps @ qs @ (t, a, v) # rs)) \<le> kSharedCacheCapacity"
    and "a \<notin> addrs rs" "a \<in> set subs" "age < 0 \<or> now - t < of_int age"
    and "sd_position (push_all push_locked ps zero_data) mod kPositionModulus = since" "since \<noteq> 0"
    and "length (ps @ qs @ (t, a, v) # rs) < 2 ^ 32" "length (qs @ (t, a, v) # rs) < 100000"
  shows "(a, take kMaxSharedValueBytes v) \<in> set (delta_values
    (get_delta_locked now since subs age (push_all push_locked (ps @ qs @ (t, a, v) # rs) zero_data)))"
proof -
  have "fresh now age t" using assms(5) by (auto simp: fresh_def)
  moreover have "sd_position zero_data = 0" by (simp add: zero_data_def)
  ultimately show ?thesis
    using sgc.news_complete [OF table_inv_zero pushes_accepted [OF assms(1,2)] assms(3) _ assms(4,6,7)] assms(8,9)
    by (simp add: clip14_def)
qed

theorem shared_delta_complete_witness:
  "(2049, [8, 9]) \<in> set (delta_values (get_delta_locked 105 1 [1, 2049] 10
     (push_all push_locked [(100, 1, [7]), (101, 2049, [8, 9])] zero_data)))"
proof -
  have "card (addrs ([(100, 1, [7])] @ [] @ (101, 2049, [8, 9]) # [])) \<le> kSharedCacheCapacity"
    by (simp add: kSharedCacheCapacity_def)
  then show ?thesis
    using shared_delta_complete [of "[(100, 1, [7])]" "[]" 101 2049 "[8, 9]" "[]" "[1, 2049]" 10 105 1]
    by (simp add: kMaxSharedValueBytes_def zero_data_def kPositionModulus_def)
qed

text \<open>
  (C21) Nothing is delivered twice.  A value the client has already seen is not in its next delta, as
  long as the client is fewer than half the modulus behind and the value itself is fewer than
  \<^verbatim>\<open>kPositionModulus\<close> pushes old.
\<close>

theorem shared_delta_sound:
  assumes "0 \<notin> addrs (ps @ (t, a, v) # qs @ rs)" "card (addrs (ps @ (t, a, v) # qs @ rs)) \<le> kSharedCacheCapacity"
    and "a \<notin> addrs (qs @ rs)"
    and "sd_position (push_all push_locked (ps @ (t, a, v) # qs) zero_data) mod kPositionModulus = since" "since \<noteq> 0"
    and "length (ps @ (t, a, v) # qs @ rs) < 2 ^ 32" "length rs < 50000" "length (qs @ rs) < 100000"
  shows "(a, w) \<notin> set (delta_values
    (get_delta_locked now since subs age (push_all push_locked (ps @ (t, a, v) # qs @ rs) zero_data)))"
proof -
  have "sd_position zero_data = 0" by (simp add: zero_data_def)
  then show ?thesis
    using sgc.news_sound [OF table_inv_zero pushes_accepted [OF assms(1,2)] assms(3-5)] assms(6-8) by simp
qed

theorem shared_delta_sound_witness:
  "(1, [7]) \<notin> set (delta_values (get_delta_locked 105 1 [1, 2049] (-1)
     (push_all push_locked [(100, 1, [7]), (101, 2049, [8, 9])] zero_data)))"
proof -
  have "card (addrs ([] @ (100, 1, [7]) # [] @ [(101, 2049, [8, 9])])) \<le> kSharedCacheCapacity"
    by (simp add: kSharedCacheCapacity_def)
  then show ?thesis
    using shared_delta_sound [of "[]" 100 1 "[7]" "[]" "[(101, 2049, [8, 9])]" 1 "[7]" 105 "[1, 2049]" "-1"]
    by (simp add: zero_data_def kPositionModulus_def)
qed

section \<open>Limits of the table\<close>

text \<open>
  Group address 0/0/0 is the mark of an empty slot: a cache that has never seen a telegram already
  has a value for it, and a telegram for it is overwritten by the next address of its slot.
\<close>

lemma get_address_0_fresh_cache: "get_locked now 0 (-1) zero_data = Some []"
  by (simp add: get_locked_def find_slot_def find_slot_loop.simps zero_data_def zero_entry_def
      entry_bytes_def kSharedCacheCapacity_def kMaxSharedValueBytes_def Let_def)

lemma find_slot_loop_0:
  "se_addr (es ! (i mod kSharedCacheCapacity)) \<in> {a, 0} \<Longrightarrow> find_slot_loop es a i 0 = i mod kSharedCacheCapacity"
  by (subst find_slot_loop.simps) (auto simp: Let_def)

lemma push_address_0_lost:
  "sd_entries (push_locked t' 2048 v' (push_locked t 0 v zero_data)) ! 0 = pushed_entry t' 2048 v' 2"
proof -
  have z: "se_addr (sd_entries zero_data ! 0) = 0"
    by (simp add: zero_data_def zero_entry_def kSharedCacheCapacity_def)
  let ?d = "push_locked t 0 v zero_data"
  have f0: "find_slot 0 zero_data = 0"
    using z find_slot_loop_0 [of "sd_entries zero_data" 0 0] by (simp add: find_slot_def)
  have d: "sd_entries ?d = (sd_entries zero_data)[0 := pushed_entry t 0 v 1]"
    by (simp add: push_locked_alt insert_locked_def f0 Let_def) (simp add: zero_data_def kPositionModulus_def)
  have "find_slot 2048 ?d = 0"
    using find_slot_loop_0 [of "sd_entries ?d" 0 2048] unfolding find_slot_def d
    by (simp add: kSharedCacheCapacity_def zero_data_def)
  moreover have "length (sd_entries ?d) = kSharedCacheCapacity" unfolding d by (simp add: zero_data_def)
  moreover have "sd_position zero_data = 0" by (simp add: zero_data_def)
  ultimately show ?thesis
    by (simp add: push_locked_alt [of t' 2048] insert_locked_def Let_def kPositionModulus_def kSharedCacheCapacity_def)
qed

text \<open>A new address is dropped without notice once the table is full; only the position moves.\<close>

lemma push_full_dropped:
  assumes "\<forall>s < kSharedCacheCapacity. se_addr (sd_entries d ! s) \<notin> {a, 0}"
  shows "sd_entries (push_locked t a v d) = sd_entries d \<and> sd_position (push_locked t a v d) = sd_position d + 1"
proof (cases rule: find_slot_cases [of a d])
  case (found k)
  with assms show ?thesis by (metis slot_at_less)
next
  case full
  then show ?thesis by (simp add: push_locked_alt insert_locked_def Let_def)
qed

section \<open>What is in the cache\<close>

text \<open>
  \<open>cached c a v\<close>: a read of \<open>a\<close> without an age limit gives \<open>v\<close>.  Whatever the reading operations
  return is cached at that moment.
\<close>

definition cached :: "shared_group_cache \<Rightarrow> u16 \<Rightarrow> bytes \<Rightarrow> bool" where
  "cached c a v \<longleftrightarrow> sgc_get Lock_ok 0 a (-1) c = Some v"

lemma get_locked_cached: "get_locked now a age d = Some v \<Longrightarrow> get_locked now' a (-1) d = Some v"
  by (auto simp: get_locked_def Let_def split: if_splits)

lemma sgc_get_cached: "sgc_get lock now a age c = Some v \<Longrightarrow> cached c a v"
  by (auto simp: sgc_get_def cached_def get_locked_cached split: option.splits if_splits)

lemma cached_sgc_get:
  "cached c a v \<Longrightarrow> lock_acquired lock \<Longrightarrow> age < 0 \<Longrightarrow> sgc_get lock now a age c = Some v"
  by (auto simp: sgc_get_def cached_def get_locked_def Let_def split: option.splits if_splits)

lemma delta_loop_cached:
  "(a, v) \<in> set (delta_loop now pos since age d subs) \<Longrightarrow> a \<in> set subs \<and> get_locked 0 a (-1) d = Some v"
  by (induction subs) (auto simp: get_locked_def Let_def split: if_splits)

lemma sgc_get_delta_cached:
  "(a, v) \<in> set (delta_values (sgc_get_delta lock now since subs age c)) \<Longrightarrow> a \<in> set subs \<and> cached c a v"
  by (auto simp: sgc_get_delta_def get_delta_locked_def cached_def sgc_get_def Let_def
      dest: delta_loop_cached split: option.splits if_splits)

lemma delta_loop_distinct:
  "distinct subs \<Longrightarrow> distinct (map fst (delta_loop now pos since age d subs))"
proof (induction subs)
  case (Cons a subs)
  have "a \<notin> fst ` set (delta_loop now pos since age d subs)"
    using delta_loop_cached [of a _ now pos since age d subs] Cons.prems by auto
  with Cons show ?case by (simp add: Let_def)
qed simp

lemma sgc_get_delta_distinct:
  "distinct subs \<Longrightarrow> distinct (map fst (delta_values (sgc_get_delta lock now since subs age c)))"
  by (simp add: sgc_get_delta_def get_delta_locked_def delta_loop_distinct Let_def split: option.split)

text \<open>Every entry for an address other than 0 was written by a push to that address.\<close>

lemma insert_locked_entries:
  "set (sd_entries (insert_locked a e d)) \<subseteq> insert e (set (sd_entries d))"
  by (auto simp: insert_locked_def Let_def dest: subsetD [OF set_update_subset_insert])

lemma push_locked_entry:
  assumes "e \<in> set (sd_entries (push_locked t a v d))" "e \<notin> set (sd_entries d)"
  shows "se_addr e = a \<and> entry_bytes e = take kMaxSharedValueBytes v"
proof -
  let ?len = "min (length v) kMaxSharedValueBytes"
  have "?len < 65536" by (simp add: kMaxSharedValueBytes_def min_def)
  then have "unat (of_nat ?len :: u16) = ?len" by (simp add: unsigned_of_nat take_bit_eq_mod)
  moreover have "take ?len (take ?len v @ xs) = take kMaxSharedValueBytes v" for xs by (simp add: min_def)
  ultimately show ?thesis
    using assms insert_locked_entries
    by (auto simp: push_locked_def Let_def entry_bytes_def dest!: subsetD [OF insert_locked_entries])
qed

lemma push_all_entry:
  assumes "e \<in> set (sd_entries (push_all push_locked ps d))" "e \<notin> set (sd_entries d)"
  shows "\<exists>(t, a, v) \<in> set ps. se_addr e = a \<and> entry_bytes e = take kMaxSharedValueBytes v"
  using assms
proof (induction ps arbitrary: d)
  case (Cons p ps)
  obtain t a v where p: "p = (t, a, v)" by (cases p)
  show ?case
  proof (cases "e \<in> set (sd_entries (push_locked t a v d))")
    case True
    then show ?thesis using push_locked_entry [OF True Cons.prems(2)] p by auto
  next
    case False
    then show ?thesis using Cons p by fastforce
  qed
qed simp

lemma push_all_length: "length (sd_entries (push_all push_locked ps d)) = length (sd_entries d)"
proof (induction ps arbitrary: d)
  case (Cons p ps)
  then show ?case by (cases p) (simp add: push_locked_def insert_locked_def Let_def)
qed simp

lemma get_locked_entry:
  assumes "get_locked now a age d = Some v" "length (sd_entries d) = kSharedCacheCapacity"
  shows "\<exists>e \<in> set (sd_entries d). se_addr e = a \<and> entry_bytes e = v"
  using assms by (auto simp: get_locked_def Let_def split: if_splits)

text \<open>A value read for an address other than 0 is one that was pushed for it, cut to 14 bytes.\<close>

lemma cached_pushed:
  assumes "get_locked now a age (push_all push_locked ps zero_data) = Some v" "a \<noteq> 0"
  shows "\<exists>t w. (t, a, w) \<in> set ps \<and> v = take kMaxSharedValueBytes w"
proof -
  obtain e where e: "e \<in> set (sd_entries (push_all push_locked ps zero_data))" "se_addr e = a" "entry_bytes e = v"
    using get_locked_entry [OF assms(1)] by (auto simp: push_all_length zero_data_def)
  have "e \<notin> set (sd_entries zero_data)" using e(2) assms(2) by (auto simp: zero_data_def zero_entry_def)
  from push_all_entry [OF e(1) this] e show ?thesis by auto
qed

text \<open>An address that has a value keeps one: a push never hides the entry of another address.\<close>

lemma insert_locked_keeps:
  assumes "find_slot a d < kSharedCacheCapacity" "se_addr (sd_entries d ! find_slot a d) = a" "a \<noteq> 0"
    and len: "length (sd_entries d) = kSharedCacheCapacity" and e: "se_addr e = b"
  shows "find_slot a (insert_locked b e d) = find_slot a d \<and>
    se_addr (sd_entries (insert_locked b e d) ! find_slot a d) = a"
proof -
  let ?es = "sd_entries d" and ?s = "find_slot b d"
  from assms(1,2) obtain k where k: "k < kSharedCacheCapacity" "find_slot a d = slot_at a k"
    "addr_at ?es (slot_at a k) = a" "\<forall>j < k. addr_at ?es (slot_at a j) \<notin> {a, 0}"
    using find_slot_cases [of a d] by (metis insertE order_less_irrefl singletonD)
  show ?thesis
  proof (cases "?s < kSharedCacheCapacity")
    case True
    have hit: "addr_at ?es ?s \<in> {b, 0}"
      using True find_slot_cases [of b d] by (metis order_less_irrefl)
    have es: "sd_entries (insert_locked b e d) = ?es[?s := e]"
      using True by (simp add: insert_locked_def Let_def)
    have same: "addr_at (?es[?s := e]) s \<in> {a, 0} \<longleftrightarrow> addr_at ?es s \<in> {a, 0}"
      "addr_at ?es s = a \<Longrightarrow> addr_at (?es[?s := e]) s = a"
      if "s = slot_at a j" "j \<le> k" for s j
      using hit e k(3,4) that assms(3) len True by (auto simp: nth_list_update le_less)
    have "find_slot a (insert_locked b e d) = slot_at a k"
      using k same by (intro find_slot_hit) (auto simp: es)
    then show ?thesis using k same(2) [of "slot_at a k" k] by (simp add: es)
  next
    case False
    then show ?thesis using assms by (simp add: insert_locked_def Let_def)
  qed
qed

lemma get_locked_found:
  "(\<exists>v. get_locked now a (-1) d = Some v) \<longleftrightarrow>
     find_slot a d < kSharedCacheCapacity \<and> se_addr (sd_entries d ! find_slot a d) = a"
  by (auto simp: get_locked_def Let_def)

lemma find_slot_entries: "sd_entries d = sd_entries d' \<Longrightarrow> find_slot a d = find_slot a d'"
  by (simp add: find_slot_def)

lemma push_locked_keeps:
  assumes "\<exists>v. get_locked now a (-1) d = Some v" "a \<noteq> 0" "length (sd_entries d) = kSharedCacheCapacity"
  shows "\<exists>v. get_locked now a (-1) (push_locked t b w d) = Some v"
proof -
  let ?d = "d\<lparr>sd_position := sd_position d + 1\<rparr>"
  obtain e where e: "se_addr e = b"
    and d: "sd_entries (push_locked t b w d) = sd_entries (insert_locked b e ?d)"
    by (auto simp: push_locked_def Let_def intro!: that)
  have "find_slot a ?d = find_slot a d" by (rule find_slot_entries) simp
  with insert_locked_keeps [of a ?d e b] assms e show ?thesis
    unfolding get_locked_found using find_slot_entries [OF d] by (auto simp: d)
qed

lemma push_all_keeps:
  assumes "\<exists>v. get_locked now a (-1) d = Some v" "a \<noteq> 0" "length (sd_entries d) = kSharedCacheCapacity"
  shows "\<exists>v. get_locked now a (-1) (push_all push_locked ps d) = Some v"
  using assms
proof (induction ps arbitrary: d)
  case (Cons p ps)
  obtain t b w where p: "p = (t, b, w)" by (cases p)
  have "length (sd_entries (push_locked t b w d)) = kSharedCacheCapacity"
    using push_all_length [of "[p]" d] p Cons.prems by simp
  with Cons push_locked_keeps [OF Cons.prems, of t b w] show ?case by (simp add: p)
qed simp

end
