(* ===== verification/Worker_World.thy ===== *)
theory Worker_World
  imports Shared_Group_Cache
begin

text \<open>
  One worker process and everything around it.  The worker is sequential; the cache reader pushes
  telegrams and the clocks advance at the points where the worker takes the cache mutex, reads an
  atomic, reads a clock or waits on the condition variable.  A \<^emph>\<open>world\<close> carries the shared region, the
  two clocks and the agenda: what the other processes do at each of the following such points.  The
  theorems quantify over all agendas, so they hold for every interleaving.  The condition wait is
  \<^verbatim>\<open>SharedGroupCache::wait_for_new_data\<close>; after the end of the agenda nothing happens any more
  and a timed wait runs into its deadline.
\<close>

datatype wait_rc = Rc_ok | Rc_timedout | Rc_error

record activity =
  act_pushes :: "(u32 \<times> u16 \<times> bytes) list"
  act_epoch :: u32
  act_steady :: int
  act_lock :: lock_result
  act_rc :: wait_rc

record world =
  w_cache :: shared_group_cache
  w_epoch :: u32
  w_steady :: int
  w_agenda :: "activity list"

definition idle :: "world \<Rightarrow> activity" where
  "idle w = \<lparr>act_pushes = [], act_epoch = w_epoch w, act_steady = w_steady w, act_lock = Lock_ok,
     act_rc = Rc_timedout\<rparr>"

definition perform :: "activity \<Rightarrow> world \<Rightarrow> world" where
  "perform a w = w\<lparr>w_cache := push_all (sgc_push Lock_ok) (act_pushes a) (w_cache w),
     w_epoch := act_epoch a, w_steady := max (w_steady w) (act_steady a)\<rparr>"

definition world_step :: "world \<Rightarrow> activity \<times> world" where
  "world_step w = (case w_agenda w of
     [] \<Rightarrow> (idle w, w)
   | a # as \<Rightarrow> (a, perform a (w\<lparr>w_agenda := as\<rparr>)))"

section \<open>The operations of the worker\<close>

definition steady_now :: "world \<Rightarrow> int \<times> world" where
  "steady_now w = (let (_, w) = world_step w in (w_steady w, w))"

definition cache_get :: "u16 \<Rightarrow> int \<Rightarrow> world \<Rightarrow> bytes option \<times> world" where
  "cache_get addr max_age_sec w =
     (let (a, w) = world_step w
      in (sgc_get (act_lock a) (w_epoch w) addr max_age_sec (w_cache w), w))"

definition cache_get_delta :: "u32 \<Rightarrow> u16 list \<Rightarrow> int \<Rightarrow> world \<Rightarrow> delta \<times> world" where
  "cache_get_delta since_pos subscribed max_age_sec w =
     (let (a, w) = world_step w
      in (sgc_get_delta (act_lock a) (w_epoch w) since_pos subscribed max_age_sec (w_cache w), w))"

definition cache_position :: "world \<Rightarrow> u32 outcome \<times> world" where
  "cache_position w = (let (_, w) = world_step w in (sgc_position (w_cache w), w))"

definition sgc_generation :: "shared_group_cache \<Rightarrow> u32" where
  "sgc_generation c = (case sgc_data c of None \<Rightarrow> 0 | Some d \<Rightarrow> sd_generation d)"

text \<open>The absolute deadline, a \<^verbatim>\<open>timespec\<close>.\<close>

definition wait_deadline :: "int \<Rightarrow> int \<times> int \<Rightarrow> int \<times> int" where
  "wait_deadline timeout_ms ts =
     (let total_ns = snd ts + timeout_ms * 1000000
      in (fst ts + total_ns div 1000000000, total_ns mod 1000000000))"

definition timespec_of :: "int \<Rightarrow> int \<times> int" where
  "timespec_of ns = (ns div 1000000000, ns mod 1000000000)"

definition ns_of :: "int \<times> int \<Rightarrow> int" where
  "ns_of ts = fst ts * 1000000000 + snd ts"

text \<open>A timed wait that reports the timeout does so no earlier than its deadline.\<close>

definition cond_timedwait :: "int \<times> int \<Rightarrow> world \<Rightarrow> wait_rc \<times> world" where
  "cond_timedwait ts w =
     (let (a, w) = world_step w in
      case act_rc a of
        Rc_timedout \<Rightarrow> (Rc_timedout, w\<lparr>w_steady := max (w_steady w) (ns_of ts)\<rparr>)
      | rc \<Rightarrow> (rc, w))"

lemma world_step_agenda: "length (w_agenda (snd (world_step w))) = length (w_agenda w) - 1"
  by (simp add: world_step_def perform_def split: list.split)

lemma cond_timedwait_agenda:
  "cond_timedwait ts w = (Rc_ok, w') \<Longrightarrow> length (w_agenda w') < length (w_agenda w)"
  "cond_timedwait ts w = (rc, w') \<Longrightarrow> length (w_agenda w') \<le> length (w_agenda w)"
  by (auto simp: cond_timedwait_def world_step_def idle_def perform_def
      split: list.splits wait_rc.splits)

function wait_loop :: "u32 \<Rightarrow> int \<times> int \<Rightarrow> bool \<Rightarrow> world \<Rightarrow> world" where
  "wait_loop gen_before ts timed_out w =
     (if sgc_generation (w_cache w) = gen_before \<and> \<not> timed_out then
        case cond_timedwait ts w of
          (Rc_ok, w) \<Rightarrow> wait_loop gen_before ts timed_out w
        | (Rc_timedout, w) \<Rightarrow> wait_loop gen_before ts True w
        | (Rc_error, w) \<Rightarrow> w
      else w)"
  by pat_completeness auto
termination
  by (relation "measures [\<lambda>(_, _, timed_out, _). if timed_out then 0 else 1,
      \<lambda>(_, _, _, w). length (w_agenda w)]") (auto dest: cond_timedwait_agenda [OF sym])

declare wait_loop.simps [simp del]

definition wait_for_new_data :: "int \<Rightarrow> world \<Rightarrow> bool \<times> world" where
  "wait_for_new_data timeout_ms w =
     (if sgc_data (w_cache w) = None then (False, w)
      else
        let (a, w) = world_step w in
        if \<not> lock_acquired (act_lock a) then (False, w)
        else
          let gen_before = sgc_generation (w_cache w) in
          if timeout_ms \<le> 0 then (sgc_generation (w_cache w) > 0, w)
          else
            let ts = wait_deadline timeout_ms (timespec_of (w_steady w));
                w = wait_loop gen_before ts False w
            in (sgc_generation (w_cache w) \<noteq> gen_before, w))"

section \<open>Runs of the world\<close>

text \<open>
  \<open>evolves as w w'\<close>: the worker went from \<open>w\<close> to \<open>w'\<close> while the others performed \<open>as\<close>; the worker
  itself never writes the region, so the region changed by exactly the pushes of \<open>as\<close>.
\<close>

abbreviation all_pushes :: "activity list \<Rightarrow> (u32 \<times> u16 \<times> bytes) list" where
  "all_pushes as \<equiv> concat (map act_pushes as)"

definition evolves :: "activity list \<Rightarrow> world \<Rightarrow> world \<Rightarrow> bool" where
  "evolves as w w' \<longleftrightarrow> w_agenda w = as @ w_agenda w' \<and>
     w_cache w' = push_all (sgc_push Lock_ok) (all_pushes as) (w_cache w) \<and>
     w_steady w \<le> w_steady w'"

lemma evolves_refl [simp]: "evolves [] w w"
  by (simp add: evolves_def)

lemma evolves_trans: "evolves as w w' \<Longrightarrow> evolves bs w' w'' \<Longrightarrow> evolves (as @ bs) w w''"
  by (auto simp: evolves_def)

lemma evolves_steady: "evolves as w w' \<Longrightarrow> evolves as w (w'\<lparr>w_steady := max (w_steady w') n\<rparr>)"
  by (auto simp: evolves_def)

lemma world_step_evolves:
  obtains as where "evolves as w (snd (world_step w))"
  by (cases "w_agenda w") (auto simp: world_step_def evolves_def perform_def)

lemma cond_timedwait_evolves:
  assumes "cond_timedwait ts w = (rc, w')"
  obtains as where "evolves as w w'"
    "rc = Rc_timedout \<Longrightarrow> ns_of ts \<le> w_steady w'"
proof -
  obtain a v where v: "world_step w = (a, v)" by (cases "world_step w")
  obtain as where as: "evolves as w v" using world_step_evolves [of w] v by auto
  show thesis
  proof (cases "act_rc a")
    case Rc_timedout
    then have "w' = v\<lparr>w_steady := max (w_steady v) (ns_of ts)\<rparr>"
      using assms by (simp add: cond_timedwait_def v)
    with as that [of as] evolves_steady [OF as] show thesis by simp
  qed (use assms as that [of as] in \<open>simp_all add: cond_timedwait_def v\<close>)
qed

lemma wait_deadline_ns:
  "ns_of (wait_deadline timeout_ms (timespec_of ns)) = ns + timeout_ms * 1000000"
  by (simp add: ns_of_def wait_deadline_def timespec_of_def Let_def algebra_simps)


section \<open>Waiting for data\<close>

lemma sgc_push_data:
  "sgc_data (sgc_push Lock_ok t a v c) = map_option (push_locked t a v) (sgc_data c)"
  by (simp add: sgc_push_def split: option.split)

lemma push_all_data:
  "sgc_data (push_all (sgc_push Lock_ok) ps c) = map_option (push_all push_locked ps) (sgc_data c)"
proof (induction ps arbitrary: c)
  case (Cons p ps)
  then show ?case by (cases p) (simp add: sgc_push_data option.map_comp comp_def)
qed (simp add: option.map_ident_strong)

lemma push_all_generation:
  "sd_generation (push_all push_locked ps d) = sd_generation d + of_nat (length ps)"
proof (induction ps arbitrary: d)
  case (Cons p ps)
  then show ?case by (cases p) (simp add: algebra_simps)
qed simp

lemma evolves_initialized:
  "evolves as w w' \<Longrightarrow> sgc_data (w_cache w') = None \<longleftrightarrow> sgc_data (w_cache w) = None"
  by (simp add: evolves_def push_all_data)

lemma evolves_generation:
  assumes "evolves as w w'" "sgc_data (w_cache w) \<noteq> None"
  shows "sgc_generation (w_cache w') = sgc_generation (w_cache w) + of_nat (length (all_pushes as))"
  using assms by (auto simp: evolves_def sgc_generation_def push_all_data push_all_generation)

lemma wait_loop_evolves: "\<exists>as. evolves as w (wait_loop gen ts timed_out w)"
proof (induction gen ts timed_out w rule: wait_loop.induct)
  case (1 gen ts timed_out w)
  show ?case
  proof (cases "sgc_generation (w_cache w) = gen \<and> \<not> timed_out")
    case True
    obtain rc v where v: "cond_timedwait ts w = (rc, v)" by (cases "cond_timedwait ts w")
    obtain as where as: "evolves as w v" using cond_timedwait_evolves [OF v] by blast
    have unf: "wait_loop gen ts timed_out w = (case rc of Rc_ok \<Rightarrow> wait_loop gen ts timed_out v
        | Rc_timedout \<Rightarrow> wait_loop gen ts True v | Rc_error \<Rightarrow> v)"
      by (subst wait_loop.simps) (use True v in simp)
    have "\<exists>bs. evolves bs v (wait_loop gen ts timed_out w)"
      unfolding unf using "1.IH" [OF True v [symmetric]] by (cases rc) (auto intro: evolves_refl)
    with as show ?thesis by (blast intro: evolves_trans)
  next
    case False
    then show ?thesis by (subst wait_loop.simps) (auto intro: evolves_refl)
  qed
qed

text \<open>Without an error of the wait, the loop ends for one of two reasons: a push, or the deadline.\<close>

lemma cond_timedwait_no_error:
  assumes "cond_timedwait ts w = (rc, v)" "\<forall>a \<in> set (w_agenda w). act_rc a \<noteq> Rc_error"
  shows "rc \<noteq> Rc_error" "\<forall>a \<in> set (w_agenda v). act_rc a \<noteq> Rc_error"
  using assms by (auto simp: cond_timedwait_def world_step_def idle_def perform_def
      split: list.splits wait_rc.splits)

lemma wait_loop_deadline:
  assumes "\<forall>a \<in> set (w_agenda w). act_rc a \<noteq> Rc_error" "timed_out \<Longrightarrow> ns_of ts \<le> w_steady w"
    and "sgc_generation (w_cache (wait_loop gen ts timed_out w)) = gen"
  shows "ns_of ts \<le> w_steady (wait_loop gen ts timed_out w)"
  using assms
proof (induction gen ts timed_out w rule: wait_loop.induct)
  case (1 gen ts timed_out w)
  show ?case
  proof (cases "sgc_generation (w_cache w) = gen \<and> \<not> timed_out")
    case True
    obtain rc v where v: "cond_timedwait ts w = (rc, v)" by (cases "cond_timedwait ts w")
    have unf: "wait_loop gen ts timed_out w = (case rc of Rc_ok \<Rightarrow> wait_loop gen ts timed_out v
        | Rc_timedout \<Rightarrow> wait_loop gen ts True v | Rc_error \<Rightarrow> v)"
      by (subst wait_loop.simps) (use True v in simp)
    have late: "rc = Rc_timedout \<Longrightarrow> ns_of ts \<le> w_steady v"
      using cond_timedwait_evolves [OF v] by blast
    show ?thesis
      using "1.IH" [OF True v [symmetric]] "1.prems" True late cond_timedwait_no_error [OF v]
      unfolding unf by (cases rc) auto
  next
    case False
    then have unf: "wait_loop gen ts timed_out w = w" by (subst wait_loop.simps) auto
    show ?thesis using "1.prems" False unfolding unf by auto
  qed
qed

lemma wait_for_new_data_evolves: "\<exists>as. evolves as w (snd (wait_for_new_data timeout_ms w))"
proof -
  obtain a v where v: "world_step w = (a, v)" by (cases "world_step w")
  obtain as where as: "evolves as w v" using world_step_evolves [of w] v by auto
  obtain bs where bs: "evolves bs v (wait_loop (sgc_generation (w_cache v))
      (wait_deadline timeout_ms (timespec_of (w_steady v))) False v)"
    using wait_loop_evolves by blast
  show ?thesis
    using as evolves_trans [OF as bs] by (auto simp: wait_for_new_data_def v Let_def intro: evolves_refl)
qed

lemma wait_for_new_data_blocking:
  assumes "sgc_data (w_cache w) \<noteq> None" "world_step w = (a, v)" "lock_acquired (act_lock a)"
    and "timeout_ms > 0" "wait_for_new_data timeout_ms w = (b, w')"
  shows "\<exists>as. evolves as v w' \<and> (b \<longleftrightarrow> (of_nat (length (all_pushes as)) :: u32) \<noteq> 0) \<and>
    ((\<forall>c \<in> set (w_agenda v). act_rc c \<noteq> Rc_error) \<longrightarrow> \<not> b \<longrightarrow>
       w_steady v + timeout_ms * 1000000 \<le> w_steady w')"
proof -
  let ?ts = "wait_deadline timeout_ms (timespec_of (w_steady v))"
  have w': "w' = wait_loop (sgc_generation (w_cache v)) ?ts False v"
    and b: "b \<longleftrightarrow> sgc_generation (w_cache w') \<noteq> sgc_generation (w_cache v)"
    using assms by (auto simp: wait_for_new_data_def Let_def)
  obtain as where as: "evolves as v w'" using wait_loop_evolves w' by blast
  have "sgc_data (w_cache v) \<noteq> None"
    using world_step_evolves [of w] assms(1,2) evolves_initialized by (metis snd_conv)
  then have "sgc_generation (w_cache w') = sgc_generation (w_cache v) + of_nat (length (all_pushes as))"
    by (rule evolves_generation [OF as])
  moreover have "w_steady v + timeout_ms * 1000000 \<le> w_steady w'"
    if "\<forall>c \<in> set (w_agenda v). act_rc c \<noteq> Rc_error" "\<not> b"
    using wait_loop_deadline [of v False ?ts "sgc_generation (w_cache v)"] that b
    by (simp add: wait_deadline_ns w')
  ultimately show ?thesis using as b by auto
qed

section \<open>Properties of the wait\<close>

text \<open>
  (C4) A blocking wait misses nothing and does not give up early.  It returns true exactly when
  something was pushed while it waited, and without an error of the condition variable it returns
  false only when the whole timeout has passed.  It holds for every interleaving with the writers and
  every spurious wakeup; the 32-bit generation counter bounds the pushes during one wait.
\<close>

theorem wait_sees_every_push:
  assumes "sgc_data (w_cache w) \<noteq> None" "world_step w = (a, v)" "lock_acquired (act_lock a)"
    and "timeout_ms > 0" "wait_for_new_data timeout_ms w = (b, w')"
  shows "\<exists>as. evolves as v w' \<and> (length (all_pushes as) < 2 ^ 32 \<longrightarrow> (b \<longleftrightarrow> all_pushes as \<noteq> [])) \<and>
    (\<not> b \<longrightarrow> (\<forall>c \<in> set (w_agenda v). act_rc c \<noteq> Rc_error) \<longrightarrow>
       w_steady v + timeout_ms * 1000000 \<le> w_steady w')"
proof -
  obtain as where as: "evolves as v w'" "b \<longleftrightarrow> (of_nat (length (all_pushes as)) :: u32) \<noteq> 0"
    "(\<forall>c \<in> set (w_agenda v). act_rc c \<noteq> Rc_error) \<longrightarrow> \<not> b \<longrightarrow> w_steady v + timeout_ms * 1000000 \<le> w_steady w'"
    using wait_for_new_data_blocking [OF assms] by blast
  have "(of_nat n :: u32) = 0 \<longleftrightarrow> n = 0" if "n < 2 ^ 32" for n
    using that by (auto simp: word_of_nat_eq_0_iff dest: nat_dvd_not_less)
  with as show ?thesis by (metis length_0_conv)
qed

abbreviation quiet :: "int \<Rightarrow> wait_rc \<Rightarrow> (u32 \<times> u16 \<times> bytes) list \<Rightarrow> activity" where
  "quiet t rc ps \<equiv> \<lparr>act_pushes = ps, act_epoch = 100, act_steady = t, act_lock = Lock_ok, act_rc = rc\<rparr>"

abbreviation example_world :: "activity list \<Rightarrow> world" where
  "example_world as \<equiv> \<lparr>w_cache = \<lparr>sgc_data = Some zero_data, sgc_owns_mmap = True\<rparr>, w_epoch = 100, w_steady = 0, w_agenda = as\<rparr>"

abbreviation pushed_world :: world where
  "pushed_world \<equiv> example_world [quiet 5 Rc_ok [], quiet 7 Rc_ok [], quiet 9 Rc_ok [(100, 1, [7])]]"

theorem wait_sees_every_push_witness:
  "\<exists>as. evolves as (snd (world_step pushed_world)) (snd (wait_for_new_data 1000 pushed_world)) \<and>
     (length (all_pushes as) < 2 ^ 32 \<longrightarrow> (fst (wait_for_new_data 1000 pushed_world) \<longleftrightarrow> all_pushes as \<noteq> []))"
proof -
  have "lock_acquired (act_lock (fst (world_step pushed_world)))" by (simp add: world_step_def)
  then show ?thesis
    using wait_sees_every_push [of pushed_world "fst (world_step pushed_world)" "snd (world_step pushed_world)" 1000
        "fst (wait_for_new_data 1000 pushed_world)" "snd (wait_for_new_data 1000 pushed_world)"]
    unfolding prod.collapse by auto
qed

section \<open>Histories\<close>

text \<open>
  The region as the result of all pushes since it was created.  For fewer than \<^verbatim>\<open>kPositionModulus\<close>
  pushes the position is their number; a client that comes back with an earlier position is offered
  the last value of every subscribed address pushed in between.
\<close>

definition history :: "(u32 \<times> u16 \<times> bytes) list \<Rightarrow> world \<Rightarrow> bool" where
  "history ps w \<longleftrightarrow> sgc_data (w_cache w) = Some (push_all push_locked ps zero_data)"

definition last_push :: "u16 \<Rightarrow> (u32 \<times> u16 \<times> bytes) list \<Rightarrow> bytes option" where
  "last_push a ps = map_of (rev (map snd ps)) a"

definition ordinary :: "(u32 \<times> u16 \<times> bytes) list \<Rightarrow> bool" where
  "ordinary ps \<longleftrightarrow> 0 \<notin> addrs ps \<and> card (addrs ps) \<le> kSharedCacheCapacity \<and> length ps < 100000"

lemma history_evolves: "history ps w \<Longrightarrow> evolves as w w' \<Longrightarrow> history (ps @ all_pushes as) w'"
  by (simp add: history_def evolves_def push_all_data push_all_append)

lemma last_push_None: "last_push a ps = None \<longleftrightarrow> a \<notin> addrs ps"
  by (auto simp: last_push_def map_of_eq_None_iff image_iff)

lemma last_push_split:
  assumes "last_push a ps = Some v"
  obtains xs t ys where "ps = xs @ (t, a, v) # ys" "a \<notin> addrs ys"
  using assms
proof (induction ps arbitrary: thesis rule: rev_induct)
  case (snoc p ps)
  obtain t b w where p: "p = (t, b, w)" by (cases p)
  show ?case
  proof (cases "b = a")
    case True
    then show ?thesis using snoc.prems p by (simp add: last_push_def)
  next
    case False
    then have "last_push a ps = Some v" using snoc.prems(2) p by (simp add: last_push_def)
    then obtain xs t ys where "ps = xs @ (t, a, v) # ys" "a \<notin> addrs ys" using snoc.IH by blast
    then show ?thesis using snoc.prems(1) [of xs t "ys @ [p]"] False p by auto
  qed
qed (simp add: last_push_def)

lemma last_push_append: "last_push a (ps @ qs) = (case last_push a qs of Some v \<Rightarrow> Some v | None \<Rightarrow> last_push a ps)"
  by (simp add: last_push_def map_add_def split: option.split)

lemma ordinary_append: "ordinary (ps @ qs) \<Longrightarrow> ordinary ps"
  by (auto simp: ordinary_def elim!: order_trans [OF card_mono, rotated 2])

lemma position_ordinary:
  assumes "ordinary ps"
  shows "sd_position (push_all push_locked ps zero_data) mod kPositionModulus = of_nat (length ps)"
proof -
  have "sd_position (push_all push_locked ps d) = sd_position d + of_nat (length ps)" for d
  proof (induction ps arbitrary: d)
    case (Cons p ps)
    then show ?case by (cases p) (simp add: push_locked_def insert_locked_def Let_def)
  qed simp
  then have "sd_position (push_all push_locked ps zero_data) = of_nat (length ps)" by (simp add: zero_data_def)
  moreover have "(of_nat (length ps) :: u32) mod kPositionModulus = of_nat (length ps)"
    using assms by (simp add: word_unat_eq_iff unat_mod ordinary_def unsigned_of_nat take_bit_eq_mod)
  ultimately show ?thesis by simp
qed

lemma delta_offers_last:
  assumes "history (ps @ qs) w" "ordinary (ps @ qs)" "ps \<noteq> []" "a \<in> set subs" "last_push a qs = Some v"
    and "lock_acquired lock"
  shows "(a, take kMaxSharedValueBytes v) \<in> set (delta_values
    (sgc_get_delta lock now (of_nat (length ps)) subs (-1) (w_cache w)))"
proof -
  obtain xs t ys where q: "qs = xs @ (t, a, v) # ys" "a \<notin> addrs ys" using last_push_split [OF assms(5)] .
  have ord: "0 \<notin> addrs (ps @ xs @ (t, a, v) # ys)" "card (addrs (ps @ xs @ (t, a, v) # ys)) \<le> kSharedCacheCapacity"
    "length (ps @ xs @ (t, a, v) # ys) < 100000" using assms(2) q by (simp_all add: ordinary_def)
  have "length ps < 100000" using ord(3) by simp
  then have since: "(of_nat (length ps) :: u32) \<noteq> 0"
    using assms(3) by (simp add: word_unat_eq_iff unsigned_of_nat take_bit_eq_mod)
  have "sd_position zero_data = 0" by (simp add: zero_data_def)
  moreover have "fresh now (-1) t" by (simp add: fresh_def)
  ultimately have "(a, take kMaxSharedValueBytes v) \<in> set (delta_values
      (get_delta_locked now (of_nat (length ps)) subs (-1) (push_all push_locked (ps @ xs @ (t, a, v) # ys) zero_data)))"
    using sgc.news_complete [OF table_inv_zero pushes_accepted [OF ord(1,2)] q(2) _ assms(4)
        position_ordinary [OF ordinary_append [OF assms(2)]] since] ord(3)
    by (simp add: clip14_def)
  then show ?thesis using assms(1,6) q(1) by (simp add: sgc_get_delta_def history_def)
qed

lemma delta_position_ordinary:
  assumes "history ps w" "ordinary ps" "lock_acquired lock"
  shows "delta_position (sgc_get_delta lock now since subs age (w_cache w)) = of_nat (length ps)"
  using assms position_ordinary [OF assms(2)] by (simp add: sgc_get_delta_def history_def get_delta_locked_def Let_def)

definition locks_work :: "world \<Rightarrow> bool" where
  "locks_work w \<longleftrightarrow> (\<forall>a \<in> set (w_agenda w). lock_acquired (act_lock a))"

lemma locks_work_step:
  assumes "locks_work w"
  shows "lock_acquired (act_lock (fst (world_step w)))"
  using assms by (auto simp: locks_work_def world_step_def idle_def split: list.split)

lemma locks_work_evolves: "locks_work w \<Longrightarrow> evolves as w w' \<Longrightarrow> locks_work w'"
  by (auto simp: locks_work_def evolves_def)

end
