(* ===== verification/Knxd_Interface.thy ===== *)
theory Knxd_Interface
  imports Cpp_Std
begin

text \<open>
  \<^verbatim>\<open>KnxdClientInterface\<close> of \<^verbatim>\<open>src/knxd/knxd_client.h\<close>: the virtual functions the handlers and the
  cache reader call, as a record of operations on the state of a client.  An operation that may not
  return has an optional result, \<open>None\<close> standing for a call without a defined result.  The locale
  holds what every implementation promises; the clients of the interface rely on nothing else.
\<close>

datatype wait_result = Timeout | GroupData | WaitError

record 'k knxd_ops =
  kc_connect :: "string \<Rightarrow> 'k \<Rightarrow> (bool \<times> 'k) option"
  kc_disconnect :: "'k \<Rightarrow> 'k"
  kc_reconnect :: "'k \<Rightarrow> (bool \<times> 'k) option"
  kc_is_connected :: "'k \<Rightarrow> bool"
  kc_open_group_socket :: "bool \<Rightarrow> 'k \<Rightarrow> (bool \<times> 'k) option"
  kc_send_group_packet :: "u16 \<Rightarrow> bytes \<Rightarrow> 'k \<Rightarrow> (bool \<times> 'k) option"
  kc_poll_group_telegram :: "'k \<Rightarrow> ((u16 \<times> bytes) option \<times> 'k) option"
  kc_get_fd :: "'k \<Rightarrow> int"
  kc_get_telegram_count :: "'k \<Rightarrow> u64"
  kc_set_nonblocking :: "bool \<Rightarrow> 'k \<Rightarrow> 'k"
  kc_wait_for_activity :: "int \<Rightarrow> 'k \<Rightarrow> wait_result \<times> 'k"

locale knxd_client =
  fixes ops :: "'k knxd_ops"
  assumes disconnect_closes: "\<not> kc_is_connected ops (kc_disconnect ops k)"
    and connect_opens: "kc_connect ops path k = Some (True, k') \<Longrightarrow> kc_is_connected ops k'"
    and open_keeps: "kc_open_group_socket ops wo k = Some (b, k') \<Longrightarrow>
          kc_is_connected ops k' \<longleftrightarrow> kc_is_connected ops k"
    and open_needs_connection: "\<not> kc_is_connected ops k \<Longrightarrow>
          kc_open_group_socket ops wo k = Some (False, k)"
    and nonblocking_keeps: "kc_is_connected ops (kc_set_nonblocking ops b k) \<longleftrightarrow> kc_is_connected ops k"
    and wait_keeps: "kc_is_connected ops (snd (kc_wait_for_activity ops t k)) \<longleftrightarrow> kc_is_connected ops k"
    and wait_closed: "\<not> kc_is_connected ops k \<Longrightarrow> fst (kc_wait_for_activity ops t k) = WaitError"
    and poll_counts: "kc_poll_group_telegram ops k = Some (tg, k') \<Longrightarrow>
          kc_get_telegram_count ops k' = kc_get_telegram_count ops k + (if tg = None then 0 else 1)"

end
