(* ===== verification/Mock_Client.thy ===== *)
theory Mock_Client
  imports Knxd_Interface
begin

text \<open>
  \<^verbatim>\<open>mocks/mock_knxd_socket.cpp\<close>: the client that the tests put behind the interface.  It is a
  second instance of the interface's contract, and small enough to evaluate.
\<close>

record mock =
  mk_connected :: bool
  mk_group_socket_open :: bool
  mk_connection_success :: bool
  mk_connect_fail_count :: nat
  mk_wait_error_count :: nat
  mk_connect_calls :: nat
  mk_wait_calls :: nat
  mk_last_socket_path :: string
  mk_telegram_queue :: "(u16 \<times> bytes) list"
  mk_sent_packets :: "(u16 \<times> bytes) list"
  mk_telegram_count :: u64
  mk_send_fail_count :: nat

definition new_mock :: mock where
  "new_mock = \<lparr>mk_connected = False, mk_group_socket_open = False, mk_connection_success = True,
     mk_connect_fail_count = 0, mk_wait_error_count = 0, mk_connect_calls = 0, mk_wait_calls = 0,
     mk_last_socket_path = '''', mk_telegram_queue = [], mk_sent_packets = [],
     mk_telegram_count = 0, mk_send_fail_count = 0\<rparr>"

definition mock_connect :: "string \<Rightarrow> mock \<Rightarrow> bool \<times> mock" where
  "mock_connect socket_path k =
     (let k = k\<lparr>mk_last_socket_path := socket_path, mk_connect_calls := mk_connect_calls k + 1\<rparr> in
      if mk_connect_fail_count k > 0
      then (False, k\<lparr>mk_connect_fail_count := mk_connect_fail_count k - 1, mk_connected := False\<rparr>)
      else (mk_connection_success k, k\<lparr>mk_connected := mk_connection_success k\<rparr>))"

definition mock_disconnect :: "mock \<Rightarrow> mock" where
  "mock_disconnect k =
     k\<lparr>mk_connected := False, mk_group_socket_open := False, mk_telegram_queue := []\<rparr>"

definition mock_reconnect :: "mock \<Rightarrow> bool \<times> mock" where
  "mock_reconnect k =
     (if mk_last_socket_path k = '''' then (False, k)
      else (mk_connection_success k, k\<lparr>mk_connected := mk_connection_success k,
              mk_group_socket_open := mk_connection_success k\<rparr>))"

definition mock_open_group_socket :: "bool \<Rightarrow> mock \<Rightarrow> bool \<times> mock" where
  "mock_open_group_socket write_only k =
     (if \<not> mk_connected k then (False, k)
      else (mk_connection_success k, k\<lparr>mk_group_socket_open := mk_connection_success k\<rparr>))"

definition mock_send_group_packet :: "u16 \<Rightarrow> bytes \<Rightarrow> mock \<Rightarrow> bool \<times> mock" where
  "mock_send_group_packet addr apdu k =
     (if \<not> mk_connected k \<or> \<not> mk_group_socket_open k then (False, k)
      else if mk_send_fail_count k > 0
      then (False, k\<lparr>mk_send_fail_count := mk_send_fail_count k - 1\<rparr>)
      else (True, k\<lparr>mk_sent_packets := mk_sent_packets k @ [(addr, apdu)]\<rparr>))"

definition mock_poll_group_telegram :: "mock \<Rightarrow> (u16 \<times> bytes) option \<times> mock" where
  "mock_poll_group_telegram k =
     (case mk_telegram_queue k of
        [] \<Rightarrow> (None, k)
      | f # rest \<Rightarrow> (Some f, k\<lparr>mk_telegram_queue := rest, mk_telegram_count := mk_telegram_count k + 1\<rparr>))"

definition mock_wait_for_activity :: "int \<Rightarrow> mock \<Rightarrow> wait_result \<times> mock" where
  "mock_wait_for_activity timeout_ms k =
     (let k = k\<lparr>mk_wait_calls := mk_wait_calls k + 1\<rparr> in
      if \<not> mk_connected k then (WaitError, k)
      else if mk_wait_error_count k > 0
      then (WaitError, k\<lparr>mk_wait_error_count := mk_wait_error_count k - 1\<rparr>)
      else (if mk_telegram_queue k = [] then Timeout else GroupData, k))"

definition mock_ops :: "mock knxd_ops" where
  "mock_ops = \<lparr>
     kc_connect = (\<lambda>path k. Some (mock_connect path k)),
     kc_disconnect = mock_disconnect,
     kc_reconnect = (\<lambda>k. Some (mock_reconnect k)),
     kc_is_connected = mk_connected,
     kc_open_group_socket = (\<lambda>wo k. Some (mock_open_group_socket wo k)),
     kc_send_group_packet = (\<lambda>a d k. Some (mock_send_group_packet a d k)),
     kc_poll_group_telegram = (\<lambda>k. Some (mock_poll_group_telegram k)),
     kc_get_fd = (\<lambda>k. -1),
     kc_get_telegram_count = mk_telegram_count,
     kc_set_nonblocking = (\<lambda>b k. k),
     kc_wait_for_activity = mock_wait_for_activity\<rparr>"

text \<open>The helpers of the tests.\<close>

definition mock_enqueue_telegram :: "u16 \<Rightarrow> bytes \<Rightarrow> mock \<Rightarrow> mock" where
  "mock_enqueue_telegram addr apdu k = k\<lparr>mk_telegram_queue := mk_telegram_queue k @ [(addr, apdu)]\<rparr>"

definition mock_set_connection_success :: "bool \<Rightarrow> mock \<Rightarrow> mock" where
  "mock_set_connection_success success k = k\<lparr>mk_connection_success := success\<rparr>"

definition mock_set_telegram_count :: "u64 \<Rightarrow> mock \<Rightarrow> mock" where
  "mock_set_telegram_count count k = k\<lparr>mk_telegram_count := count\<rparr>"

definition mock_set_send_fail_count :: "nat \<Rightarrow> mock \<Rightarrow> mock" where
  "mock_set_send_fail_count count k = k\<lparr>mk_send_fail_count := count\<rparr>"

definition mock_set_connect_fail_count :: "nat \<Rightarrow> mock \<Rightarrow> mock" where
  "mock_set_connect_fail_count count k = k\<lparr>mk_connect_fail_count := count\<rparr>"

definition mock_set_wait_error_count :: "nat \<Rightarrow> mock \<Rightarrow> mock" where
  "mock_set_wait_error_count count k = k\<lparr>mk_wait_error_count := count\<rparr>"

definition mock_reset :: "mock \<Rightarrow> mock" where
  "mock_reset k = k\<lparr>mk_connected := False, mk_group_socket_open := False, mk_connection_success := True,
     mk_last_socket_path := '''', mk_telegram_queue := [], mk_sent_packets := [], mk_telegram_count := 0,
     mk_send_fail_count := 0, mk_connect_fail_count := 0, mk_wait_error_count := 0, mk_connect_calls := 0,
     mk_wait_calls := 0\<rparr>"

lemma mock_reset_new: "mock_reset k = new_mock"
  by (simp add: mock_reset_def new_mock_def)

lemma mock_enqueued_delivered:
  "mk_telegram_queue k = [] \<Longrightarrow>
     fst (mock_poll_group_telegram (mock_enqueue_telegram addr apdu k)) = Some (addr, apdu)"
  by (simp add: mock_poll_group_telegram_def mock_enqueue_telegram_def)

interpretation mock: knxd_client mock_ops
  by unfold_locales
    (auto simp: mock_ops_def mock_connect_def mock_disconnect_def mock_open_group_socket_def
      mock_poll_group_telegram_def mock_wait_for_activity_def Let_def split: if_splits list.splits)

end
