(* ===== verification/Knxd_Connector.thy ===== *)
theory Knxd_Connector
  imports Mock_Client "HOL-Library.Monad_Syntax"
begin

text \<open>
  \<^verbatim>\<open>src/knxd/knxd_connector.cpp\<close>: connecting with a bounded number of attempts and growing delays
  between them.  The result carries the delays that were slept, in milliseconds.
\<close>

definition default_delays_ms :: "int list" where
  "default_delays_ms = [500, 1000, 2000, 4000, 8000]"

text \<open>A delay behind the end of the array is read out of bounds and leaves no defined result.\<close>

definition delay_at :: "int list \<Rightarrow> nat \<Rightarrow> int option" where
  "delay_at delays i = (if i < length delays then Some (delays ! i) else None)"

function retry_loop ::
    "'k knxd_ops \<Rightarrow> string \<Rightarrow> int list \<Rightarrow> nat \<Rightarrow> nat \<Rightarrow> int list \<Rightarrow> 'k \<Rightarrow> (bool \<times> int list \<times> 'k) option" where
  "retry_loop ops socket_path delays total_attempts attempt slept k =
     (if attempt \<le> total_attempts then do {
        (connected, k) \<leftarrow> kc_connect ops socket_path k;
        if connected then Some (True, slept, k)
        else if attempt < total_attempts then do {
          delay \<leftarrow> delay_at delays (attempt - 1);
          retry_loop ops socket_path delays total_attempts (attempt + 1) (slept @ [delay]) k
        }
        else retry_loop ops socket_path delays total_attempts (attempt + 1) slept k
      }
      else Some (False, slept, k))"
  by pat_completeness auto
termination
  by (relation "measure (\<lambda>(_, _, _, total_attempts, attempt, _). Suc total_attempts - attempt)") auto

declare retry_loop.simps [simp del]

definition connect_knxd_with_retry ::
    "'k knxd_ops \<Rightarrow> string \<Rightarrow> bool \<Rightarrow> int list option \<Rightarrow> 'k \<Rightarrow> (bool \<times> int list \<times> 'k) option" where
  "connect_knxd_with_retry ops socket_path has_worked_before custom_delays_ms k =
     (let delays = (case custom_delays_ms of Some d \<Rightarrow> d | None \<Rightarrow> default_delays_ms);
          num_retries = (if has_worked_before then 5 else 3);
          total_attempts = num_retries + 1
      in retry_loop ops socket_path delays total_attempts 1 [] k)"

section \<open>Attempts and delays\<close>

text \<open>
  \<open>st\<close> is the state of the client before each attempt.  The first attempt that succeeds ends the
  loop; what was slept until then are the first delays, one per failure.
\<close>

lemma retry_loop_success:
  assumes "\<And>i. i < j \<Longrightarrow> kc_connect ops path (st i) = Some (False, st (Suc i))"
    and "kc_connect ops path (st j) = Some (True, k')" "j < total_attempts"
    and "total_attempts \<le> Suc (length delays)" "i \<le> j"
  shows "retry_loop ops path delays total_attempts (Suc i) (take i delays) (st i) = Some (True, take j delays, k')"
  using assms(5)
proof (induction "j - i" arbitrary: i)
  case 0
  with assms show ?case by (subst retry_loop.simps) simp
next
  case (Suc n)
  then have i: "i < j" by simp
  then have "take (Suc i) delays = take i delays @ [delays ! i]"
    using assms(3,4) by (simp add: take_Suc_conv_app_nth)
  with Suc(1) [of "Suc i"] Suc(2) assms i show ?case
    by (subst retry_loop.simps) (simp add: delay_at_def)
qed

lemma retry_loop_failure:
  assumes "\<And>i. i < total_attempts \<Longrightarrow> kc_connect ops path (st i) = Some (False, st (Suc i))"
    and "total_attempts \<le> Suc (length delays)" "i \<le> total_attempts"
  shows "retry_loop ops path delays total_attempts (Suc i) (take (min i (total_attempts - 1)) delays) (st i)
    = Some (False, take (total_attempts - 1) delays, st total_attempts)"
  using assms(3)
proof (induction "total_attempts - i" arbitrary: i)
  case 0
  then show ?case by (subst retry_loop.simps) simp
next
  case (Suc n)
  then have i: "i < total_attempts" by simp
  show ?case
  proof (cases "Suc i < total_attempts")
    case True
    then have "take (Suc i) delays = take i delays @ [delays ! i]"
      using assms(2) by (simp add: take_Suc_conv_app_nth)
    with Suc(1) [of "Suc i"] Suc(2) assms i True show ?thesis
      by (subst retry_loop.simps) (simp add: delay_at_def min_absorb1)
  next
    case False
    with i have "total_attempts = Suc i" by simp
    with assms(1) [OF i] show ?thesis by (simp add: retry_loop.simps)
  qed
qed

section \<open>Properties of the connector\<close>

text \<open>
  The whole behaviour of \<^verbatim>\<open>connect_knxd_with_retry\<close>: at most 4 attempts before the first success
  ever and 6 afterwards, it stops at the first attempt that succeeds, sleeps the next delay of the
  schedule after every failure but the last, and never reads behind the schedule.
\<close>

lemma connector_schedule:
  assumes "\<And>i. kc_connect ops path (st i) = Some (ok i, st (Suc i))"
    and "delays = (case custom of Some d \<Rightarrow> d | None \<Rightarrow> default_delays_ms)"
    and "n = (if worked then 6 else 4)" "n \<le> Suc (length delays)"
  shows "connect_knxd_with_retry ops path worked custom (st 0) =
    (case find ok [0..<n] of
       Some j \<Rightarrow> Some (True, take j delays, st (Suc j))
     | None \<Rightarrow> Some (False, take (n - 1) delays, st n))"
proof -
  have unf: "connect_knxd_with_retry ops path worked custom (st 0) = retry_loop ops path delays n (Suc 0) (take 0 delays) (st 0)"
    using assms(2,3) by (simp add: connect_knxd_with_retry_def Let_def)
  show ?thesis
  proof (cases "find ok [0..<n]")
    case None
    then have "\<And>i. i < n \<Longrightarrow> kc_connect ops path (st i) = Some (False, st (Suc i))"
      using assms(1) by (auto simp: find_None_iff)
    from retry_loop_failure [of n ops path st, OF this assms(4), of 0] None show ?thesis by (simp add: unf)
  next
    case (Some j)
    then have j: "j < n" "ok j" "\<And>i. i < j \<Longrightarrow> \<not> ok i" by (auto simp: find_Some_iff)
    have "\<And>i. i < j \<Longrightarrow> kc_connect ops path (st i) = Some (False, st (Suc i))"
      "kc_connect ops path (st j) = Some (True, st (Suc j))" using assms(1) j by auto
    from retry_loop_success [of j ops path st, OF this j(1) assms(4), of 0] Some show ?thesis by (simp add: unf)
  qed
qed

lemma connector_schedule_witness:
  "connect_knxd_with_retry mock_ops ''/run/knx'' False None
     (new_mock\<lparr>mk_connect_fail_count := 2, mk_last_socket_path := ''/run/knx''\<rparr>) =
   Some (True, [500, 1000], new_mock\<lparr>mk_connected := True, mk_connect_calls := 3, mk_last_socket_path := ''/run/knx''\<rparr>)"
proof -
  define st where "st = (\<lambda>i. new_mock\<lparr>mk_connected := i > 2, mk_connect_fail_count := 2 - i, mk_connect_calls := i,
    mk_last_socket_path := ''/run/knx''\<rparr>)"
  have step: "kc_connect mock_ops ''/run/knx'' (st i) = Some (i \<ge> 2, st (Suc i))" for i
    by (auto simp: st_def mock_ops_def mock_connect_def new_mock_def Let_def)
  have st0: "st 0 = new_mock\<lparr>mk_connect_fail_count := 2, mk_last_socket_path := ''/run/knx''\<rparr>"
    by (simp add: st_def new_mock_def)
  have st3: "st 3 = new_mock\<lparr>mk_connected := True, mk_connect_calls := 3, mk_last_socket_path := ''/run/knx''\<rparr>"
    by (simp add: st_def new_mock_def)
  have len: "(4 :: nat) \<le> Suc (length default_delays_ms)" by (simp add: default_delays_ms_def)
  have "find (\<lambda>i. i \<ge> 2) [0..<4] = Some (2 :: nat)" by (simp add: upt_conv_Cons)
  with connector_schedule [of mock_ops "''/run/knx''" st "\<lambda>i. i \<ge> 2" default_delays_ms None 4 False, OF step]
  have "connect_knxd_with_retry mock_ops ''/run/knx'' False None (st 0) = Some (True, take 2 default_delays_ms, st 3)"
    using len by (simp add: eval_nat_numeral)
  then show ?thesis unfolding st0 st3 by (simp add: default_delays_ms_def)
qed

end
