(* ===== verification/Backoff.thy ===== *)
theory Backoff
  imports Prelude
begin

text \<open>
  Exponential backoff, as the cache reader (\<^verbatim>\<open>src/knxd/cache_reader.cpp\<close>) and the supervisor
  (\<^verbatim>\<open>RestartBackoff\<close> in \<^verbatim>\<open>src/main.cpp\<close>) both use it: every failure doubles the delay up to a limit.
\<close>

locale doubling_backoff =
  fixes delay :: "'s \<Rightarrow> int"
    and failure :: "'s \<Rightarrow> 's"
    and limit :: int
  assumes failure_delay: "delay (failure s) = min (delay s * 2) limit"
begin

lemma failure_bounds:
  assumes "0 < lo" "lo \<le> delay s" "delay s \<le> limit"
  shows "lo \<le> delay (failure s) \<and> delay s \<le> delay (failure s) \<and> delay (failure s) \<le> limit"
  using assms by (auto simp: failure_delay min_def)

lemma failures_delay:
  assumes "0 < delay s" "delay s \<le> limit"
  shows "delay ((failure ^^ n) s) = min (delay s * 2 ^ n) limit"
proof (induction n)
  case 0
  then show ?case using assms by simp
next
  case (Suc n)
  then show ?case using assms by (simp add: failure_delay min_def)
qed

text \<open>After finitely many failures in a row the delay has reached its limit.\<close>

lemma failures_reach_limit:
  assumes "0 < delay s" "delay s \<le> limit" "limit \<le> 2 ^ n"
  shows "delay ((failure ^^ n) s) = limit"
proof -
  have "1 * 2 ^ n \<le> delay s * 2 ^ n"
    by (rule mult_right_mono) (use assms(1) in auto)
  then have "limit \<le> delay s * 2 ^ n" using assms(3) by linarith
  then show ?thesis using assms(1,2) by (simp add: failures_delay)
qed

end

end
