(* ===== verification/Knxd_Protocol.thy ===== *)
theory Knxd_Protocol
  imports Codec Cpp_Std
begin

text \<open>
  \<^verbatim>\<open>src/knxd/knxd_protocol.h\<close> and \<^verbatim>\<open>src/knxd/knxd_protocol.cpp\<close>: group addresses, APDU parsing and
  the framing of eibd messages.  The message type numbers come from knxd's \<^verbatim>\<open>eibtypes.h\<close>, which is
  not part of the repository; they are the parameter \<open>eib_types\<close>.
\<close>

section \<open>Group addresses\<close>

record knx_group_address =
  ga_main :: byte
  ga_middle :: byte
  ga_sub :: byte

text \<open>
  The digit loop of \<^verbatim>\<open>parse_part\<close> (it gives up as soon as the value passes \<^verbatim>\<open>max_val\<close>), and the
  lambda itself, which needs one digit to start.
\<close>

fun parse_loop :: "nat \<Rightarrow> nat \<Rightarrow> string \<Rightarrow> (nat \<times> string) option" where
  "parse_loop max_val val [] = Some (val, [])"
| "parse_loop max_val val (c # cs) =
     (if is_digit c then
        let val' = val * 10 + digit_val c
        in if val' > max_val then None else parse_loop max_val val' cs
      else Some (val, c # cs))"

definition parse_part :: "nat \<Rightarrow> string \<Rightarrow> (byte \<times> string) option" where
  "parse_part max_val s =
     (case s of [] \<Rightarrow> None
      | c # _ \<Rightarrow> if \<not> is_digit c then None
                 else map_option (\<lambda>(v, r). (of_nat v, r)) (parse_loop max_val 0 s))"

definition expect_slash :: "string \<Rightarrow> string option" where
  "expect_slash s =
     (case s of [] \<Rightarrow> None | c # cs \<Rightarrow> if c \<noteq> CHR ''/'' then None else Some cs)"

definition from_string :: "string \<Rightarrow> knx_group_address option" where
  "from_string str =
     (case parse_part 31 str of None \<Rightarrow> None | Some (m, s1) \<Rightarrow>
      case expect_slash s1 of None \<Rightarrow> None | Some s2 \<Rightarrow>
      case parse_part 7 s2 of None \<Rightarrow> None | Some (d, s3) \<Rightarrow>
      case expect_slash s3 of None \<Rightarrow> None | Some s4 \<Rightarrow>
      case parse_part 255 s4 of None \<Rightarrow> None | Some (u, s5) \<Rightarrow>
      if s5 \<noteq> [] then None
      else Some \<lparr>ga_main = m, ga_middle = d, ga_sub = u\<rparr>)"

definition ga_to_string :: "knx_group_address \<Rightarrow> string" where
  "ga_to_string g =
     to_string (unat (ga_main g)) @ ''/'' @ to_string (unat (ga_middle g)) @ ''/'' @
     to_string (unat (ga_sub g))"

definition to_eibaddr :: "knx_group_address \<Rightarrow> u16" where
  "to_eibaddr g =
     ucast (push_bit 11 (ucast (ga_main g) :: u32) OR push_bit 8 (ucast (ga_middle g) :: u32)
       OR ucast (ga_sub g))"

definition from_eibaddr :: "u16 \<Rightarrow> knx_group_address" where
  "from_eibaddr addr =
     \<lparr>ga_main = ucast (drop_bit 11 addr AND 0x1F),
      ga_middle = ucast (drop_bit 8 addr AND 0x07),
      ga_sub = ucast (addr AND 0xFF)\<rparr>"

section \<open>Addresses with a namespace\<close>

text \<open>
  The static \<^verbatim>\<open>default_namespace_\<close> is the first argument of the operations that read it.
\<close>

record knx_address =
  ka_ns :: string
  ka_group :: knx_group_address

definition from_cometvisu :: "string \<Rightarrow> string \<Rightarrow> knx_address option" where
  "from_cometvisu default_ns str =
     (case find_char (CHR '':'') str of
        None \<Rightarrow> (case from_string str of None \<Rightarrow> None
                 | Some g \<Rightarrow> Some \<lparr>ka_ns = default_ns, ka_group = g\<rparr>)
      | Some colon \<Rightarrow> (case from_string (drop (colon + 1) str) of None \<Rightarrow> None
                 | Some g \<Rightarrow> Some \<lparr>ka_ns = substr str 0 colon, ka_group = g\<rparr>))"

definition to_cometvisu :: "knx_address \<Rightarrow> string" where
  "to_cometvisu a =
     (if ka_ns a = [] then ga_to_string (ka_group a)
      else ka_ns a @ '':'' @ ga_to_string (ka_group a))"

section \<open>APDUs\<close>

text \<open>
  \<^verbatim>\<open>ApduType\<close> has three enumerators; the cast of \<^verbatim>\<open>apdu[1] & 0xC0\<close> can also give \<^verbatim>\<open>0xC0\<close>, which is
  none of them and is \<open>ApduOther\<close> here.
\<close>

datatype apdu_type = ApduRead | ApduResponse | ApduWrite | ApduOther

definition apdu_type_of :: "byte \<Rightarrow> apdu_type" where
  "apdu_type_of b =
     (if b AND 0xC0 = 0x00 then ApduRead
      else if b AND 0xC0 = 0x40 then ApduResponse
      else if b AND 0xC0 = 0x80 then ApduWrite
      else ApduOther)"

definition parse_apdu :: "bytes \<Rightarrow> (apdu_type \<times> bytes) option" where
  "parse_apdu apdu =
     (if length apdu < 2 then None
      else let t = apdu_type_of (apdu ! 1) in
        Some (t, case t of
            ApduRead \<Rightarrow> []
          | ApduOther \<Rightarrow> []
          | _ \<Rightarrow> if length apdu = 2 then [apdu ! 1 AND 0x3F] else drop 2 apdu))"

section \<open>eibd messages\<close>

record eib_types =
  eib_open_groupcon :: u16
  eib_group_packet :: u16
  eib_apdu_packet :: u16

definition build_eibd_message :: "u16 \<Rightarrow> bytes \<Rightarrow> bytes" where
  "build_eibd_message type data =
     (let payload_size = 2 + length data in
      [of_nat (drop_bit 8 payload_size AND 0xFF), of_nat (payload_size AND 0xFF),
       hi_byte type, lo_byte type] @ data)"

text \<open>
  \<^verbatim>\<open>parse_eibd_message\<close> copies the range from offset 4 to offset \<^verbatim>\<open>2 + payload_len\<close>, which is
  reversed, and so undefined, when the length field is below 2.
\<close>

definition parse_eibd_message :: "bytes \<Rightarrow> (u16 \<times> bytes) option outcome" where
  "parse_eibd_message raw =
     (if length raw < 4 then Ret None
      else let payload_len = unat (be16 (raw ! 0) (raw ! 1)) in
        if length raw < payload_len + 2 then Ret None
        else if payload_len < 2 then UB
        else Ret (Some (be16 (raw ! 2) (raw ! 3), take (payload_len - 2) (drop 4 raw))))"

definition try_extract_message :: "bytes \<Rightarrow> bytes option \<times> bytes" where
  "try_extract_message buffer =
     (if length buffer < 2 then (None, buffer)
      else let total_needed = 2 + unat (be16 (buffer ! 0) (buffer ! 1)) in
        if length buffer < total_needed then (None, buffer)
        else (Some (take total_needed buffer), drop total_needed buffer))"

definition build_open_groupcon :: "eib_types \<Rightarrow> bool \<Rightarrow> bytes" where
  "build_open_groupcon et write_only =
     build_eibd_message (eib_open_groupcon et) [0x00, 0x00, if write_only then 0x01 else 0x00]"

definition build_group_packet :: "eib_types \<Rightarrow> u16 \<Rightarrow> bytes \<Rightarrow> bytes" where
  "build_group_packet et group_addr apdu =
     build_eibd_message (eib_group_packet et) ([hi_byte group_addr, lo_byte group_addr] @ apdu)"


section \<open>Parsing and printing of group addresses\<close>

definition digit_string :: "string \<Rightarrow> bool" where
  "digit_string ds \<longleftrightarrow> ds \<noteq> [] \<and> (\<forall>c \<in> set ds. is_digit c)"

definition valid_ga :: "knx_group_address \<Rightarrow> bool" where
  "valid_ga g \<longleftrightarrow> unat (ga_main g) < 32 \<and> unat (ga_middle g) < 8"

lemma parse_loop_eq:
  assumes "v \<le> m"
  shows "parse_loop m v s =
    (let r = foldl (\<lambda>v c. v * 10 + digit_val c) v (takeWhile is_digit s)
     in if r > m then None else Some (r, dropWhile is_digit s))"
  using assms
proof (induction s arbitrary: v)
  case (Cons c cs)
  show ?case
  proof (cases "is_digit c \<and> v * 10 + digit_val c > m")
    case True
    then have "foldl (\<lambda>v c. v * 10 + digit_val c) (v * 10 + digit_val c) (takeWhile is_digit cs) > m"
      using foldl_dec_mono less_le_trans by blast
    with True show ?thesis by simp
  next
    case False
    with Cons show ?thesis by (auto simp: Let_def)
  qed
qed simp

lemma parse_part_eq:
  "parse_part m s =
    (let ds = takeWhile is_digit s
     in if ds = [] \<or> dec_value ds > m then None
        else Some (of_nat (dec_value ds), dropWhile is_digit s))"
  by (cases s) (auto simp: parse_part_def parse_loop_eq dec_value_def Let_def simp del: parse_loop.simps)

lemma slash_not_digit [simp]: "\<not> is_digit (CHR ''/'')"
  by (simp add: is_digit_def)

lemma parse_part_append:
  assumes "digit_string ds" "dec_value ds \<le> m" "rest = [] \<or> \<not> is_digit (hd rest)"
  shows "parse_part m (ds @ rest) = Some (of_nat (dec_value ds), rest)"
  using takeWhile_digits_append [of ds rest] assms
  by (simp add: parse_part_eq digit_string_def)

lemma parse_part_SomeD:
  assumes "parse_part m s = Some (v, rest)"
  obtains ds where "s = ds @ rest" "digit_string ds" "dec_value ds \<le> m" "v = of_nat (dec_value ds)"
proof
  show "s = takeWhile is_digit s @ rest" "digit_string (takeWhile is_digit s)"
    "dec_value (takeWhile is_digit s) \<le> m" "v = of_nat (dec_value (takeWhile is_digit s))"
    using assms
    by (auto simp: parse_part_eq digit_string_def Let_def dest: set_takeWhileD split: if_splits)
qed

lemma expect_slash_Some [simp]: "expect_slash s = Some r \<longleftrightarrow> s = CHR ''/'' # r"
  by (auto simp: expect_slash_def split: list.splits if_splits)

lemma from_string_iff:
  "from_string s = Some g \<longleftrightarrow>
    (\<exists>a b c. s = a @ ''/'' @ b @ ''/'' @ c
      \<and> digit_string a \<and> digit_string b \<and> digit_string c
      \<and> dec_value a \<le> 31 \<and> dec_value b \<le> 7 \<and> dec_value c \<le> 255
      \<and> g = \<lparr>ga_main = of_nat (dec_value a), ga_middle = of_nat (dec_value b),
             ga_sub = of_nat (dec_value c)\<rparr>)"
  (is "?l \<longleftrightarrow> ?r")
proof
  assume ?l
  then obtain m s1 s2 d s3 s4 u where
    p: "parse_part 31 s = Some (m, s1)" "expect_slash s1 = Some s2"
       "parse_part 7 s2 = Some (d, s3)" "expect_slash s3 = Some s4"
       "parse_part 255 s4 = Some (u, [])"
    and g: "g = \<lparr>ga_main = m, ga_middle = d, ga_sub = u\<rparr>"
    by (auto simp: from_string_def split: option.splits prod.splits if_splits)
  from p(1) obtain a where "s = a @ s1" "digit_string a" "dec_value a \<le> 31" "m = of_nat (dec_value a)"
    by (rule parse_part_SomeD)
  moreover from p(3) obtain b
    where "s2 = b @ s3" "digit_string b" "dec_value b \<le> 7" "d = of_nat (dec_value b)"
    by (rule parse_part_SomeD)
  moreover from p(5) obtain c
    where "s4 = c @ []" "digit_string c" "dec_value c \<le> 255" "u = of_nat (dec_value c)"
    by (rule parse_part_SomeD)
  ultimately show ?r using p(2,4) g by (intro exI [of _ a] exI [of _ b] exI [of _ c]) simp
next
  assume ?r
  then obtain a b c where *: "s = a @ ''/'' @ b @ ''/'' @ c"
      "digit_string a" "digit_string b" "digit_string c"
      "dec_value a \<le> 31" "dec_value b \<le> 7" "dec_value c \<le> 255"
    and g: "g = \<lparr>ga_main = of_nat (dec_value a), ga_middle = of_nat (dec_value b),
             ga_sub = of_nat (dec_value c)\<rparr>" by blast
  have "parse_part 31 s = Some (of_nat (dec_value a), ''/'' @ b @ ''/'' @ c)"
    using * parse_part_append [of a 31 "''/'' @ b @ ''/'' @ c"] by simp
  moreover have "parse_part 7 (b @ ''/'' @ c) = Some (of_nat (dec_value b), ''/'' @ c)"
    using * parse_part_append [of b 7 "''/'' @ c"] by simp
  moreover have "parse_part 255 c = Some (of_nat (dec_value c), [])"
    using * parse_part_append [of c 255 "[]"] by simp
  ultimately show ?l using g by (simp add: from_string_def expect_slash_def)
qed

lemma digit_string_to_string [simp]: "digit_string (to_string n)"
  using to_string_digits by (simp add: digit_string_def)

lemma from_string_to_string: "valid_ga g \<Longrightarrow> from_string (ga_to_string g) = Some g"
  unfolding from_string_iff ga_to_string_def
  using unat_byte_less [of "ga_sub g"]
  by (intro exI [of _ "to_string (unat (ga_main g))"] exI [of _ "to_string (unat (ga_middle g))"]
       exI [of _ "to_string (unat (ga_sub g))"]) (simp add: valid_ga_def)

lemma from_string_valid: "from_string s = Some g \<Longrightarrow> valid_ga g"
  by (auto simp: from_string_iff valid_ga_def unsigned_of_nat take_bit_eq_mod)


section \<open>The 16-bit form of a group address\<close>

lemma and_mask_nat:
  "w AND (31 :: u16) = take_bit 5 w" "w AND (7 :: u16) = take_bit 3 w" "w AND (255 :: u16) = take_bit 8 w"
  by (simp_all add: take_bit_eq_mask mask_eq_exp_minus_1)

lemma unat_from_eibaddr:
  "unat (ga_main (from_eibaddr a)) = unat a div 2048"
  "unat (ga_middle (from_eibaddr a)) = unat a div 256 mod 8"
  "unat (ga_sub (from_eibaddr a)) = unat a mod 256"
proof -
  have "unat a div 2048 < 32" using unat_u16_less [of a] by simp
  then show "unat (ga_main (from_eibaddr a)) = unat a div 2048"
    "unat (ga_middle (from_eibaddr a)) = unat a div 256 mod 8"
    "unat (ga_sub (from_eibaddr a)) = unat a mod 256"
    by (simp_all add: from_eibaddr_def and_mask_nat unsigned_ucast_eq unsigned_take_bit_eq
        unsigned_drop_bit_eq drop_bit_eq_div take_bit_eq_mod unat_div unat_mod)
qed

lemma unat_to_eibaddr:
  assumes "valid_ga g"
  shows "unat (to_eibaddr g) = 2048 * unat (ga_main g) + 256 * unat (ga_middle g) + unat (ga_sub g)"
proof -
  let ?m = "ucast (ga_main g) :: u32" and ?d = "ucast (ga_middle g) :: u32"
    and ?s = "ucast (ga_sub g) :: u32"
  have b: "unat ?m < 32" "unat ?d < 8" "unat ?s < 256"
    using assms unat_byte_less [of "ga_sub g"] by (simp_all add: valid_ga_def)
  have dm: "?d = take_bit 3 ?d"
    using b(2) by (simp add: word_unat_eq_iff unsigned_take_bit_eq take_bit_eq_mod unat_mod)
  have sm: "?s = take_bit 8 ?s"
    using b(3) by (simp add: word_unat_eq_iff unsigned_take_bit_eq take_bit_eq_mod unat_mod)
  have "push_bit 11 ?m OR push_bit 8 ?d = push_bit 11 ?m + push_bit 8 ?d"
    by (rule disjunctive_add [symmetric], subst dm) (auto simp: bit_simps)
  moreover have "(push_bit 11 ?m OR push_bit 8 ?d) OR ?s = (push_bit 11 ?m OR push_bit 8 ?d) + ?s"
    by (rule disjunctive_add [symmetric], subst sm) (auto simp: bit_simps)
  ultimately have "push_bit 11 ?m OR push_bit 8 ?d OR ?s = push_bit 11 ?m + push_bit 8 ?d + ?s"
    by (simp only: or.assoc [symmetric])
  moreover have "unat (push_bit 11 ?m + push_bit 8 ?d + ?s) = 2048 * unat ?m + 256 * unat ?d + unat ?s"
    using b by (simp add: push_bit_eq_mult unat_word_ariths)
  moreover have "unat (ucast w :: u16) = unat w mod 65536" for w :: u32
    by (simp add: unsigned_ucast_eq take_bit_eq_mod)
  ultimately show ?thesis using b by (simp only: to_eibaddr_def) simp
qed

lemma from_eibaddr_valid [simp]: "valid_ga (from_eibaddr a)"
  using unat_u16_less [of a] by (simp add: valid_ga_def unat_from_eibaddr)

lemma split_levels:
  fixes m d s :: nat
  assumes "d < 8" "s < 256"
  shows "(2048 * m + 256 * d + s) div 2048 = m"
    and "(2048 * m + 256 * d + s) div 256 mod 8 = d"
    and "(2048 * m + 256 * d + s) mod 256 = s"
proof -
  show "(2048 * m + 256 * d + s) div 2048 = m"
    using assms by (intro div_nat_eqI) auto
  have "(2048 * m + 256 * d + s) div 256 = 8 * m + d"
    using assms by (intro div_nat_eqI) auto
  then show "(2048 * m + 256 * d + s) div 256 mod 8 = d" using assms by simp
  have "2048 * m + 256 * d + s = s + 256 * (8 * m + d)" by simp
  then show "(2048 * m + 256 * d + s) mod 256 = s"
    using assms by (metis mod_less mod_mult_self2)
qed

lemma from_to_eibaddr: "valid_ga g \<Longrightarrow> from_eibaddr (to_eibaddr g) = g"
  using unat_byte_less [of "ga_sub g"]
  by (intro knx_group_address.equality)
    (simp_all add: word_unat_eq_iff unat_from_eibaddr unat_to_eibaddr valid_ga_def split_levels)

lemma to_from_eibaddr [simp]: "to_eibaddr (from_eibaddr a) = a"
proof -
  have "2048 * (n div 2048) + 256 * (n div 256 mod 8) + n mod 256 = n" for n :: nat
  proof -
    have "8 * (n div 256 div 8) + n div 256 mod 8 = n div 256" by simp
    moreover have "256 * (n div 256) + n mod 256 = n" by simp
    moreover have "n div 2048 = n div 256 div 8" using div_mult2_eq [of n 256 8] by simp
    ultimately show ?thesis by linarith
  qed
  then show ?thesis
    by (simp add: word_unat_eq_iff unat_to_eibaddr unat_from_eibaddr)
qed

section \<open>Framing\<close>

lemma length_bytes_be16:
  assumes "n < 65536"
  shows "unat (be16 (of_nat (drop_bit 8 n AND 0xFF)) (of_nat (n AND 0xFF))) = n"
proof -
  have "k AND 255 = take_bit 8 k" for k :: nat
    by (simp add: take_bit_eq_mask mask_eq_exp_minus_1)
  then have "n AND 255 = n mod 256" "drop_bit 8 n AND 255 = n div 256 mod 256"
    by (simp_all add: take_bit_eq_mod drop_bit_eq_div)
  then show ?thesis
    using assms by (simp add: unat_be16 unsigned_of_nat take_bit_eq_mod)
qed

lemma length_build [simp]: "length (build_eibd_message t d) = 4 + length d"
  by (simp add: build_eibd_message_def Let_def)

lemma build_header:
  assumes "length d < 65534"
  shows "unat (be16 (build_eibd_message t d ! 0) (build_eibd_message t d ! 1)) = 2 + length d"
  using length_bytes_be16 [of "2 + length d"] assms by (simp add: build_eibd_message_def Let_def)

lemma parse_build: "length d < 65534 \<Longrightarrow> parse_eibd_message (build_eibd_message t d) = Ret (Some (t, d))"
  using build_header [of d t]
  by (simp add: parse_eibd_message_def Let_def)
     (simp add: build_eibd_message_def Let_def)

lemma try_extract_build_append:
  assumes "length d < 65534"
  shows "try_extract_message (build_eibd_message t d @ rest) = (Some (build_eibd_message t d), rest)"
  using build_header [OF assms, of t]
  by (simp add: try_extract_message_def Let_def nth_append)

lemma try_extract_None: "try_extract_message buf = (None, buf') \<Longrightarrow> buf' = buf"
  by (auto simp: try_extract_message_def Let_def split: if_splits)

lemma try_extract_Some_append:
  "try_extract_message buf = (Some m, buf') \<Longrightarrow> try_extract_message (buf @ ext) = (Some m, buf' @ ext)"
  by (auto simp: try_extract_message_def Let_def nth_append split: if_splits)

lemma try_extract_Some_split:
  "try_extract_message buf = (Some m, buf') \<Longrightarrow> buf = m @ buf' \<and> 2 \<le> length m"
  by (auto simp: try_extract_message_def Let_def split: if_splits)

lemma try_extract_None_short: "try_extract_message buf = (None, buf') \<Longrightarrow> length buf < 65537"
  using unat_u16_less [of "be16 (buf ! 0) (buf ! 1)"]
  by (auto simp: try_extract_message_def Let_def split: if_splits)

text \<open>What was taken off the buffer has a consistent length field, so parsing it is defined.\<close>

lemma extracted_length:
  assumes "try_extract_message buf = (Some m, buf')"
  shows "length m = 2 + unat (be16 (m ! 0) (m ! 1))"
  using assms by (auto simp: try_extract_message_def Let_def split: if_splits)

lemma parse_extracted_defined:
  "try_extract_message buf = (Some m, buf') \<Longrightarrow> parse_eibd_message m \<noteq> UB"
  using extracted_length [of buf m buf'] by (auto simp: parse_eibd_message_def Let_def)

lemma parse_extracted:
  assumes "try_extract_message buf = (Some m, buf')"
  shows "parse_eibd_message m =
     Ret (if length m < 4 then None else Some (be16 (m ! 2) (m ! 3), drop 4 m))"
  using extracted_length [OF assms] by (auto simp: parse_eibd_message_def Let_def)


section \<open>The encodings as codecs\<close>

interpretation ga_text: codec ga_to_string from_string valid_ga
  by unfold_locales (rule from_string_to_string)

interpretation ga_eib: tight_codec to_eibaddr "\<lambda>a. Some (from_eibaddr a)" valid_ga
  by unfold_locales (auto simp: from_to_eibaddr)

definition decode_eibd :: "bytes \<Rightarrow> (u16 \<times> bytes) option" where
  "decode_eibd raw = (case parse_eibd_message raw of UB \<Rightarrow> None | Ret r \<Rightarrow> r)"

interpretation eibd: codec "\<lambda>(t, d). build_eibd_message t d" decode_eibd "\<lambda>(t, d). length d < 65534"
  by unfold_locales (auto simp: decode_eibd_def parse_build)

section \<open>Addresses with a namespace\<close>

lemma colon_not_in_ga [simp]: "CHR '':'' \<notin> set (ga_to_string g)"
  using to_string_digits by (fastforce simp: ga_to_string_def is_digit_def)

lemma from_to_cometvisu:
  assumes "valid_ga (ka_group a)" "CHR '':'' \<notin> set (ka_ns a)" "ka_ns a = [] \<longrightarrow> dns = []"
  shows "from_cometvisu dns (to_cometvisu a) = Some a"
proof (cases "ka_ns a = []")
  case True
  with assms have "find_char (CHR '':'') (to_cometvisu a) = None" by (simp add: to_cometvisu_def)
  with True assms show ?thesis
    by (simp add: from_cometvisu_def to_cometvisu_def from_string_to_string)
next
  case False
  with assms(2) have "find_char (CHR '':'') (to_cometvisu a) = Some (length (ka_ns a))"
    by (simp add: to_cometvisu_def)
  with False assms(1) show ?thesis
    by (simp add: from_cometvisu_def to_cometvisu_def substr_def from_string_to_string)
qed

lemma from_cometvisu_valid: "from_cometvisu dns s = Some a \<Longrightarrow> valid_ga (ka_group a)"
  by (auto simp: from_cometvisu_def from_string_valid split: option.splits)

section \<open>APDUs\<close>

lemma parse_apdu_type: "parse_apdu apdu = Some (t, d) \<Longrightarrow> t = apdu_type_of (apdu ! 1)"
  by (auto simp: parse_apdu_def Let_def split: if_splits)

lemma parse_apdu_short: "parse_apdu apdu = None \<longleftrightarrow> length apdu < 2"
  by (simp add: parse_apdu_def Let_def)

lemma apdu_type_read: "apdu_type_of b = ApduRead \<longleftrightarrow> b AND 0xC0 = 0"
  by (simp add: apdu_type_of_def)

section \<open>Properties of the protocol layer\<close>

text \<open>
  The grammar of group addresses: a string is accepted exactly when it is three non-empty
  decimal numbers separated by slashes with values of at most 31, 7 and 255, and the three values
  are the parts of the address.
\<close>

lemma group_address_grammar:
  "from_string s = Some g \<longleftrightarrow>
    (\<exists>a b c. s = a @ ''/'' @ b @ ''/'' @ c
      \<and> digit_string a \<and> digit_string b \<and> digit_string c
      \<and> dec_value a \<le> 31 \<and> dec_value b \<le> 7 \<and> dec_value c \<le> 255
      \<and> g = \<lparr>ga_main = of_nat (dec_value a), ga_middle = of_nat (dec_value b),
             ga_sub = of_nat (dec_value c)\<rparr>)"
  by (rule from_string_iff)

text \<open>
  The 16-bit form of an address is a bijection onto the valid addresses: every 16-bit value is
  the code of exactly one group address, and no bits of a valid address are lost.
\<close>

lemma eibaddr_bijection:
  "bij_betw to_eibaddr {g. valid_ga g} UNIV \<and> to_eibaddr (from_eibaddr a) = a \<and> valid_ga (from_eibaddr a)"
proof -
  have "to_eibaddr ` {g. valid_ga g} = UNIV"
    using to_from_eibaddr from_eibaddr_valid by (metis (mono_tags) UNIV_eq_I imageI mem_Collect_eq)
  then show ?thesis using ga_eib.inj_on_encode by (simp add: bij_betw_def)
qed

text \<open>
  Addresses round trip through their text form: the text written for a valid address, with or
  without a namespace prefix, is read back as the same address.
\<close>

lemma address_text_round_trip:
  assumes "valid_ga (ka_group a)" "CHR '':'' \<notin> set (ka_ns a)" "ka_ns a = [] \<longrightarrow> dns = []"
  shows "from_cometvisu dns (to_cometvisu a) = Some a"
  using assms by (rule from_to_cometvisu)

lemma address_text_round_trip_witness:
  "from_cometvisu ''KNX'' (to_cometvisu \<lparr>ka_ns = ''KNX'', ka_group = from_eibaddr 0x0A03\<rparr>) =
     Some \<lparr>ka_ns = ''KNX'', ka_group = from_eibaddr 0x0A03\<rparr>"
  by (rule address_text_round_trip) simp_all

text \<open>
  (C39) Framing: a message built for up to 65533 bytes of data is taken off the front of a buffer whole,
  whatever follows it, and parsing it gives type and data back; the rest of the buffer is untouched.
\<close>

theorem framing_round_trip:
  assumes "length d < 65534"
  shows "try_extract_message (build_eibd_message t d @ rest) = (Some (build_eibd_message t d), rest) \<and>
    parse_eibd_message (build_eibd_message t d) = Ret (Some (t, d))"
  using assms by (simp add: try_extract_build_append parse_build)

theorem framing_round_trip_witness:
  "try_extract_message (build_eibd_message 0x27 [8, 1, 0, 0x80] @ [0, 9]) =
     (Some (build_eibd_message 0x27 [8, 1, 0, 0x80]), [0, 9]) \<and>
   parse_eibd_message (build_eibd_message 0x27 [8, 1, 0, 0x80]) = Ret (Some (0x27, [8, 1, 0, 0x80]))"
  by (rule framing_round_trip) simp

text \<open>
  Extraction is safe for parsing: whatever bytes a peer sends, a message taken off the buffer has
  a consistent length field, so parsing it never reads outside it; the undefined case of a length
  field below 2 cannot arise.
\<close>

lemma extracted_message_parses:
  assumes "try_extract_message buf = (Some m, buf')"
  shows "buf = m @ buf' \<and> parse_eibd_message m =
     Ret (if length m < 4 then None else Some (be16 (m ! 2) (m ! 3), drop 4 m))"
  using try_extract_Some_split [OF assms] parse_extracted [OF assms] by simp

lemma extracted_message_parses_witness:
  "parse_eibd_message [0, 1, 9] = Ret None"
proof -
  have "try_extract_message [0, 1, 9, 7] = (Some [0, 1, 9], [7])"
    by (simp add: try_extract_message_def be16_def Let_def)
  from extracted_message_parses [OF this] show ?thesis by simp
qed

text \<open>A length field below 2 is accepted by no other test of \<^verbatim>\<open>parse_eibd_message\<close>.\<close>

lemma parse_eibd_message_reversed_range: "parse_eibd_message [0, 1, 9, 7] = UB"
  by (simp add: parse_eibd_message_def be16_def Let_def)

text \<open>The length field of more than 65533 bytes of data wraps.\<close>

lemma build_eibd_message_wraps: "length d = 65534 \<Longrightarrow> take 2 (build_eibd_message t d) = [0, 0]"
  by (simp add: build_eibd_message_def Let_def)

end
