(* ===== verification/Knxd_Client.thy ===== *)
theory Knxd_Client
  imports Knxd_Interface Knxd_Protocol "HOL-Library.Monad_Syntax"
begin

text \<open>
  \<^verbatim>\<open>src/knxd/knxd_client.cpp\<close>: the client of the knxd daemon over a Unix domain socket.  The
  operating system is a parameter: a record of the calls the code makes, over a state of its own;
  what the theorems need of it is stated as a hypothesis where it is used.  The client's lock is
  taken for the whole of every operation, so the operations are functions of the client's state.
\<close>

section \<open>The operating system\<close>

datatype errno = EINTR | EAGAIN | EINPROGRESS | E_OTHER

datatype 'a sysret = Ok 'a | Errno errno

datatype poll_events = PollIn | PollOut | PollNone

record revents =
  rv_in :: bool
  rv_hup :: bool
  rv_err :: bool
  rv_nval :: bool

text \<open>
  \<open>os_poll\<close> answers \<open>Ok None\<close> for the timeout.  Of the file status flags only the non-blocking bit
  is read and written.
\<close>

record 'e os =
  os_sun_path_size :: nat
  os_socket :: "'e \<Rightarrow> int \<times> 'e"
  os_connect :: "int \<Rightarrow> string \<Rightarrow> 'e \<Rightarrow> unit sysret \<times> 'e"
  os_so_error :: "int \<Rightarrow> 'e \<Rightarrow> int sysret \<times> 'e"
  os_getfl :: "int \<Rightarrow> 'e \<Rightarrow> bool sysret \<times> 'e"
  os_setfl :: "int \<Rightarrow> bool \<Rightarrow> 'e \<Rightarrow> 'e"
  os_poll :: "int \<Rightarrow> poll_events \<Rightarrow> int \<Rightarrow> 'e \<Rightarrow> revents option sysret \<times> 'e"
  os_close :: "int \<Rightarrow> 'e \<Rightarrow> 'e"
  os_read :: "int \<Rightarrow> nat \<Rightarrow> 'e \<Rightarrow> bytes sysret \<times> 'e"
  os_write :: "int \<Rightarrow> bytes \<Rightarrow> 'e \<Rightarrow> nat sysret \<times> 'e"
  os_clock :: "'e \<Rightarrow> int"
  os_sleep :: "int \<Rightarrow> 'e \<Rightarrow> 'e"

section \<open>Socket input and output\<close>

partial_function (option) write_all_loop ::
    "'e os \<Rightarrow> int \<Rightarrow> bytes \<Rightarrow> nat \<Rightarrow> 'e \<Rightarrow> (bool \<times> 'e) option" where
  "write_all_loop os fd data offset e =
     (if offset < length data then
        case os_write os fd (drop offset data) e of
          (Ok written, e) \<Rightarrow> write_all_loop os fd data (offset + written) e
        | (Errno EINTR, e) \<Rightarrow> write_all_loop os fd data offset e
        | (Errno EAGAIN, e) \<Rightarrow>
            (case os_poll os fd PollOut 5000 e of
               (Ok (Some _), e) \<Rightarrow> write_all_loop os fd data offset e
             | (_, e) \<Rightarrow> Some (False, e))
        | (Errno _, e) \<Rightarrow> Some (False, e)
      else Some (True, e))"

definition write_all :: "'e os \<Rightarrow> int \<Rightarrow> bytes \<Rightarrow> 'e \<Rightarrow> (bool \<times> 'e) option" where
  "write_all os fd data e = write_all_loop os fd data 0 e"

definition kMaxReadBufferSize :: nat where
  "kMaxReadBufferSize = 1048576"

text \<open>
  The capacity of the read buffer after a message was taken out; \<open>shrink_to_fit\<close> is what the library makes of the
  request to shrink.
\<close>

definition shrink_if_large :: "(nat \<Rightarrow> nat \<Rightarrow> nat) \<Rightarrow> nat \<Rightarrow> nat \<Rightarrow> nat" where
  "shrink_if_large shrink_to_fit len capacity =
     (if capacity > len * 4 \<or> capacity - len > 64 * 1024 then shrink_to_fit len capacity else capacity)"

lemma shrink_if_large_bound:
  assumes "len \<le> capacity" "shrink_to_fit len capacity = len"
  shows "len \<le> shrink_if_large shrink_to_fit len capacity \<and>
    shrink_if_large shrink_to_fit len capacity \<le> min (4 * len) (len + 65536)"
  using assms by (auto simp: shrink_if_large_def)

datatype read_outcome = Data | Eof | WouldBlock | ReadError

definition append_bounded :: "bytes \<Rightarrow> bytes \<Rightarrow> bytes" where
  "append_bounded buffer new =
     (let new_size = length buffer + length new;
          kept = (if new_size > kMaxReadBufferSize then
                    let excess = new_size - kMaxReadBufferSize in
                    if excess \<ge> length buffer then [] else drop excess buffer
                  else buffer)
      in kept @ new)"

definition read_some :: "'e os \<Rightarrow> int \<Rightarrow> bytes \<Rightarrow> 'e \<Rightarrow> read_outcome \<times> bytes \<times> 'e" where
  "read_some os fd buffer e =
     (case os_read os fd 4096 e of
        (Ok new, e) \<Rightarrow>
          if new \<noteq> [] then (Data, append_bounded buffer new, e) else (Eof, buffer, e)
      | (Errno EAGAIN, e) \<Rightarrow> (WouldBlock, buffer, e)
      | (Errno EINTR, e) \<Rightarrow> (WouldBlock, buffer, e)
      | (Errno _, e) \<Rightarrow> (ReadError, buffer, e))"

lemma append_bounded_length:
  assumes "new \<noteq> []"
  shows "length buffer < length (append_bounded buffer new) \<or> 65537 \<le> length (append_bounded buffer new)"
  using assms by (auto simp: append_bounded_def Let_def kMaxReadBufferSize_def)

lemma read_some_Data:
  assumes "read_some os fd buffer e = (Data, buffer', e')"
  obtains new where "new \<noteq> []" "buffer' = append_bounded buffer new" "os_read os fd 4096 e = (Ok new, e')"
  using assms
  by (auto simp: read_some_def split: prod.splits sysret.splits errno.splits if_splits)

lemma read_message_shrinks:
  assumes "try_extract_message buffer = (None, b)" "read_some os fd b e = (Data, b', e')"
  shows "65537 - length b' < 65537 - length buffer"
proof -
  from assms(2) obtain new where "new \<noteq> []" "b' = append_bounded b new"
    by (rule read_some_Data)
  then show ?thesis
    using append_bounded_length [of new b] try_extract_None_short [OF assms(1)] try_extract_None [OF assms(1)]
    by auto
qed

text \<open>
  The loop ends: an incomplete message is shorter than 65537 bytes, and every round reads at least
  one more byte.
\<close>

function read_message :: "'e os \<Rightarrow> int \<Rightarrow> bytes \<Rightarrow> 'e \<Rightarrow> bytes option \<times> bytes \<times> 'e" where
  "read_message os fd buffer e =
     (case try_extract_message buffer of
        (Some msg, buffer) \<Rightarrow> (Some msg, buffer, e)
      | (None, buffer) \<Rightarrow>
          (case read_some os fd buffer e of
             (Data, buffer, e) \<Rightarrow> read_message os fd buffer e
           | (_, buffer, e) \<Rightarrow> (None, buffer, e)))"
  by pat_completeness auto
termination
  by (relation "measure (\<lambda>(_, _, buffer, _). 65537 - length buffer)")
    (auto dest: read_message_shrinks [OF sym sym])

declare read_message.simps [simp del]

partial_function (option) read_message_deadline_loop ::
    "'e os \<Rightarrow> int \<Rightarrow> int \<Rightarrow> bytes \<Rightarrow> 'e \<Rightarrow> (bytes option \<times> bytes \<times> 'e) option" where
  "read_message_deadline_loop os fd deadline buffer e =
     (case try_extract_message buffer of
        (Some msg, buffer) \<Rightarrow> Some (Some msg, buffer, e)
      | (None, buffer) \<Rightarrow>
          let now = os_clock os e in
          if now \<ge> deadline then Some (None, buffer, e)
          else
            let poll_ms = max 1 ((deadline - now) div 1000000) in
            case os_poll os fd PollIn poll_ms e of
              (Ok None, e) \<Rightarrow> Some (None, buffer, e)
            | (Errno EINTR, e) \<Rightarrow> read_message_deadline_loop os fd deadline buffer e
            | (Errno _, e) \<Rightarrow> Some (None, buffer, e)
            | (Ok (Some _), e) \<Rightarrow>
                (case read_some os fd buffer e of
                   (Data, buffer, e) \<Rightarrow> read_message_deadline_loop os fd deadline buffer e
                 | (WouldBlock, buffer, e) \<Rightarrow> read_message_deadline_loop os fd deadline buffer e
                 | (Eof, buffer, e) \<Rightarrow> Some (None, buffer, e)
                 | (ReadError, buffer, e) \<Rightarrow> Some (None, buffer, e)))"

definition read_message_deadline ::
    "'e os \<Rightarrow> int \<Rightarrow> bytes \<Rightarrow> int \<Rightarrow> 'e \<Rightarrow> (bytes option \<times> bytes \<times> 'e) option" where
  "read_message_deadline os fd buffer timeout_ms e =
     read_message_deadline_loop os fd (os_clock os e + max 0 timeout_ms * 1000000) buffer e"


section \<open>The client\<close>

record client_impl =
  ci_fd :: int
  ci_group_socket_open :: bool
  ci_handshake_timeout_ms :: int
  ci_socket_path :: string
  ci_write_only :: bool
  ci_read_buffer :: bytes
  ci_telegram_count :: u64
  ci_last_group_write :: int

type_synonym 'e client = "client_impl \<times> 'e"

definition new_client_impl :: client_impl where
  "new_client_impl = \<lparr>ci_fd = -1, ci_group_socket_open = False, ci_handshake_timeout_ms = 5000,
     ci_socket_path = '''', ci_write_only = False, ci_read_buffer = [], ci_telegram_count = 0,
     ci_last_group_write = 0\<rparr>"

definition client_is_connected :: "'e client \<Rightarrow> bool" where
  "client_is_connected k \<longleftrightarrow> ci_fd (fst k) \<ge> 0"

fun client_disconnect :: "'e os \<Rightarrow> 'e client \<Rightarrow> 'e client" where
  "client_disconnect os (c, e) =
     (let (c, e) = (if ci_fd c \<ge> 0 then (c\<lparr>ci_fd := -1\<rparr>, os_close os (ci_fd c) e) else (c, e))
      in (c\<lparr>ci_group_socket_open := False, ci_read_buffer := []\<rparr>, e))"

fun close_failed :: "'e os \<Rightarrow> 'e client \<Rightarrow> bool \<times> 'e client" where
  "close_failed os (c, e) = (False, c\<lparr>ci_fd := -1\<rparr>, os_close os (ci_fd c) e)"

text \<open>The end of a successful \<^verbatim>\<open>connect\<close>: back to blocking mode.\<close>

fun restore_blocking :: "'e os \<Rightarrow> bool sysret \<Rightarrow> 'e client \<Rightarrow> bool \<times> 'e client" where
  "restore_blocking os flags (c, e) =
     (case flags of Ok _ \<Rightarrow> (True, c, os_setfl os (ci_fd c) False e) | Errno _ \<Rightarrow> (True, c, e))"

text \<open>The connection attempt itself, once the socket is in non-blocking mode.\<close>

fun finish_connect :: "'e os \<Rightarrow> string \<Rightarrow> bool sysret \<Rightarrow> 'e client \<Rightarrow> bool \<times> 'e client" where
  "finish_connect os socket_path flags (c, e) =
     (case os_connect os (ci_fd c) socket_path e of
        (Ok _, e) \<Rightarrow> restore_blocking os flags (c, e)
      | (Errno EINPROGRESS, e) \<Rightarrow>
          (case os_poll os (ci_fd c) PollOut 5000 e of
             (Ok (Some _), e) \<Rightarrow>
               (case os_so_error os (ci_fd c) e of
                  (Ok so_error, e) \<Rightarrow>
                    if so_error \<noteq> 0 then close_failed os (c, e) else restore_blocking os flags (c, e)
                | (Errno _, e) \<Rightarrow> close_failed os (c, e))
           | (_, e) \<Rightarrow> close_failed os (c, e))
      | (Errno _, e) \<Rightarrow> close_failed os (c, e))"

fun client_connect :: "'e os \<Rightarrow> string \<Rightarrow> 'e client \<Rightarrow> bool \<times> 'e client" where
  "client_connect os socket_path (c, e) =
     (let (c, e) = (if ci_fd c \<ge> 0 then client_disconnect os (c, e) else (c, e));
          (fd, e) = os_socket os e;
          c = c\<lparr>ci_fd := fd\<rparr>
      in if fd < 0 then (False, c, e)
         else if length socket_path \<ge> os_sun_path_size os then (False, c, e)
         else
           let c = c\<lparr>ci_socket_path := socket_path\<rparr>;
               (flags, e) = os_getfl os fd e;
               e = (case flags of Ok _ \<Rightarrow> os_setfl os fd True e | Errno _ \<Rightarrow> e)
           in finish_connect os socket_path flags (c, e))"

fun client_set_nonblocking :: "'e os \<Rightarrow> bool \<Rightarrow> 'e client \<Rightarrow> 'e client" where
  "client_set_nonblocking os enable (c, e) =
     (if ci_fd c < 0 then (c, e)
      else case os_getfl os (ci_fd c) e of
          (Errno _, e) \<Rightarrow> (c, e)
        | (Ok _, e) \<Rightarrow> (c, os_setfl os (ci_fd c) enable e))"

fun outcome_option :: "'a outcome \<Rightarrow> 'a option" where
  "outcome_option UB = None"
| "outcome_option (Ret x) = Some x"

fun client_open_group_socket :: "'e os \<Rightarrow> eib_types \<Rightarrow> bool \<Rightarrow> 'e client \<Rightarrow> (bool \<times> 'e client) option" where
  "client_open_group_socket os et write_only (c, e) =
     (if \<not> client_is_connected (c, e) then Some (False, c, e)
      else do {
        let c = c\<lparr>ci_write_only := write_only\<rparr>;
        (sent, e) \<leftarrow> write_all os (ci_fd c) (build_open_groupcon et write_only) e;
        if \<not> sent then Some (False, c, e)
        else do {
          (resp, buffer, e) \<leftarrow>
            read_message_deadline os (ci_fd c) (ci_read_buffer c) (ci_handshake_timeout_ms c) e;
          let c = c\<lparr>ci_read_buffer := buffer\<rparr>;
          case resp of
            None \<Rightarrow> Some (False, c, e)
          | Some resp \<Rightarrow> do {
              parsed \<leftarrow> outcome_option (parse_eibd_message resp);
              case parsed of
                None \<Rightarrow> Some (False, c, e)
              | Some (resp_type, _) \<Rightarrow>
                  let opened = (resp_type = eib_open_groupcon et)
                  in Some (opened, c\<lparr>ci_group_socket_open := opened\<rparr>, e)
            }
        }
      })"

fun client_reconnect :: "'e os \<Rightarrow> eib_types \<Rightarrow> 'e client \<Rightarrow> (bool \<times> 'e client) option" where
  "client_reconnect os et (c, e) =
     (if ci_socket_path c = '''' then Some (False, c, e)
      else
        let (c, e) = (if ci_fd c \<ge> 0 then (c\<lparr>ci_fd := -1\<rparr>, os_close os (ci_fd c) e) else (c, e));
            c = c\<lparr>ci_group_socket_open := False, ci_read_buffer := []\<rparr>;
            (connected, c, e) = client_connect os (ci_socket_path c) (c, e)
        in if \<not> connected then Some (False, c, e)
           else do {
             (opened, c, e) \<leftarrow> client_open_group_socket os et (ci_write_only c) (c, e);
             if \<not> opened then Some (False, client_disconnect os (c, e))
             else Some (True, client_set_nonblocking os True (c, e))
           })"

definition kMinWriteInterval :: int where
  "kMinWriteInterval = 50 * 1000000"

definition rate_limit :: "'e os \<Rightarrow> client_impl \<Rightarrow> 'e \<Rightarrow> 'e" where
  "rate_limit os c e =
     (if ci_last_group_write c > 0 then
        let elapsed = os_clock os e - ci_last_group_write c in
        if elapsed < kMinWriteInterval then os_sleep os (kMinWriteInterval - elapsed) e else e
      else e)"

fun stamp_write :: "'e os \<Rightarrow> 'e client \<Rightarrow> 'e client" where
  "stamp_write os (c, e) = (c\<lparr>ci_last_group_write := os_clock os e\<rparr>, e)"

fun client_send_group_packet ::
    "'e os \<Rightarrow> eib_types \<Rightarrow> u16 \<Rightarrow> bytes \<Rightarrow> 'e client \<Rightarrow> (bool \<times> 'e client) option" where
  "client_send_group_packet os et group_addr apdu (c, e) =
     (let e = rate_limit os c e in do {
        (ready, c, e) \<leftarrow>
          (if \<not> client_is_connected (c, e) \<or> \<not> ci_group_socket_open c
           then client_reconnect os et (c, e) else Some (True, c, e));
        if \<not> ready then Some (False, c, e)
        else do {
          (sent, e) \<leftarrow> write_all os (ci_fd c) (build_group_packet et group_addr apdu) e;
          if sent then Some (True, stamp_write os (c, e))
          else do {
            (ready, c, e) \<leftarrow> client_reconnect os et (c, e);
            if \<not> ready then Some (False, stamp_write os (c, e))
            else do {
              (sent, e) \<leftarrow> write_all os (ci_fd c) (build_group_packet et group_addr apdu) e;
              Some (sent, stamp_write os (c, e))
            }
          }
        }
      })"

definition telegram_of :: "eib_types \<Rightarrow> u16 \<times> bytes \<Rightarrow> (u16 \<times> bytes) option" where
  "telegram_of et m = (case m of (msg_type, msg_data) \<Rightarrow>
     if msg_type = eib_apdu_packet et \<and> length msg_data \<ge> 6
     then Some (be16 (msg_data ! 2) (msg_data ! 3), drop 4 msg_data)
     else if msg_type = eib_group_packet et \<and> length msg_data \<ge> 6
     then Some (be16 (msg_data ! 2) (msg_data ! 3), drop 4 msg_data)
     else None)"

definition fetch_message :: "'e os \<Rightarrow> 'e client \<Rightarrow> bytes option \<times> 'e client" where
  "fetch_message os k = (case k of (c, e) \<Rightarrow>
     case read_message os (ci_fd c) (ci_read_buffer c) e of
       (msg, buffer, e) \<Rightarrow> (msg, c\<lparr>ci_read_buffer := buffer\<rparr>, e))"

text \<open>One message, with a reconnection and a second try when the peer has hung up.\<close>

definition fetch_or_reconnect :: "'e os \<Rightarrow> eib_types \<Rightarrow> 'e client \<Rightarrow> (bytes option \<times> 'e client) option" where
  "fetch_or_reconnect os et k =
     (case fetch_message os k of
        (Some msg, k) \<Rightarrow> Some (Some msg, k)
      | (None, c, e) \<Rightarrow>
          (case os_poll os (ci_fd c) PollNone 0 e of
             (Ok (Some rv), e) \<Rightarrow>
               if rv_hup rv \<or> rv_err rv then do {
                 (ready, k) \<leftarrow> client_reconnect os et (c, e);
                 if ready then Some (fetch_message os k) else Some (None, k)
               }
               else Some (None, c, e)
           | (_, e) \<Rightarrow> Some (None, c, e)))"

text \<open>The message as a group telegram, counted.\<close>

fun count_telegram :: "eib_types \<Rightarrow> bytes option \<Rightarrow> client_impl \<Rightarrow> ((u16 \<times> bytes) option \<times> client_impl) option" where
  "count_telegram et None c = Some (None, c)"
| "count_telegram et (Some msg) c = do {
     parsed \<leftarrow> outcome_option (parse_eibd_message msg);
     case Option.bind parsed (telegram_of et) of
       Some t \<Rightarrow> Some (Some t, c\<lparr>ci_telegram_count := ci_telegram_count c + 1\<rparr>)
     | None \<Rightarrow> Some (None, c)
   }"

fun client_poll_group_telegram ::
    "'e os \<Rightarrow> eib_types \<Rightarrow> 'e client \<Rightarrow> ((u16 \<times> bytes) option \<times> 'e client) option" where
  "client_poll_group_telegram os et (c, e) = do {
     (ready, k) \<leftarrow>
       (if \<not> client_is_connected (c, e) then client_reconnect os et (c, e) else Some (True, c, e));
     if \<not> ready then Some (None, k)
     else do {
       (msg, c, e) \<leftarrow> fetch_or_reconnect os et k;
       (tg, c) \<leftarrow> count_telegram et msg c;
       Some (tg, c, e)
     }
   }"

fun client_wait_for_activity :: "'e os \<Rightarrow> int \<Rightarrow> 'e client \<Rightarrow> wait_result \<times> 'e client" where
  "client_wait_for_activity os timeout_ms (c, e) =
     (if ci_fd c < 0 then (WaitError, c, e)
      else case os_poll os (ci_fd c) PollIn timeout_ms e of
          (Errno EINTR, e) \<Rightarrow> (Timeout, c, e)
        | (Errno _, e) \<Rightarrow> (WaitError, c, e)
        | (Ok None, e) \<Rightarrow> (Timeout, c, e)
        | (Ok (Some rv), e) \<Rightarrow>
            if rv_hup rv \<or> rv_err rv \<or> rv_nval rv then (WaitError, c, e)
            else (if rv_in rv then GroupData else Timeout, c, e))"

definition client_set_handshake_timeout_ms :: "int \<Rightarrow> 'e client \<Rightarrow> 'e client" where
  "client_set_handshake_timeout_ms timeout_ms k =
     ((fst k)\<lparr>ci_handshake_timeout_ms := max 1 timeout_ms\<rparr>, snd k)"

definition client_get_fd :: "'e client \<Rightarrow> int" where
  "client_get_fd k = ci_fd (fst k)"

definition client_get_telegram_count :: "'e client \<Rightarrow> u64" where
  "client_get_telegram_count k = ci_telegram_count (fst k)"

text \<open>The destructor closes an open socket.\<close>

definition client_destroy :: "'e os \<Rightarrow> 'e client \<Rightarrow> 'e" where
  "client_destroy os k = (if ci_fd (fst k) \<ge> 0 then os_close os (ci_fd (fst k)) (snd k) else snd k)"

definition knxd_client_ops :: "'e os \<Rightarrow> eib_types \<Rightarrow> 'e client knxd_ops" where
  "knxd_client_ops os et = \<lparr>
     kc_connect = (\<lambda>path k. Some (client_connect os path k)),
     kc_disconnect = client_disconnect os,
     kc_reconnect = client_reconnect os et,
     kc_is_connected = client_is_connected,
     kc_open_group_socket = client_open_group_socket os et,
     kc_send_group_packet = client_send_group_packet os et,
     kc_poll_group_telegram = client_poll_group_telegram os et,
     kc_get_fd = client_get_fd,
     kc_get_telegram_count = client_get_telegram_count,
     kc_set_nonblocking = client_set_nonblocking os,
     kc_wait_for_activity = client_wait_for_activity os\<rparr>"


section \<open>Writing\<close>

text \<open>
  What \<^verbatim>\<open>write(2)\<close> promises: it takes a prefix of the data, or fails and takes nothing; \<open>sent\<close> is the
  stream of bytes each descriptor has taken.
\<close>

definition write_law :: "'e os \<Rightarrow> ('e \<Rightarrow> int \<Rightarrow> bytes) \<Rightarrow> bool" where
  "write_law os sent \<longleftrightarrow>
     (\<forall>fd bs e. case os_write os fd bs e of
        (Ok n, e') \<Rightarrow> n \<le> length bs \<and> sent e' = (sent e)(fd := sent e fd @ take n bs)
      | (Errno _, e') \<Rightarrow> sent e' = sent e) \<and>
     (\<forall>fd ev t e. sent (snd (os_poll os fd ev t e)) = sent e)"

text \<open>
  Progress: a write of a non-empty range takes at least one byte or fails, and only finitely many
  calls in a row are interrupted or find the buffer full, as counted by \<open>m\<close>.
\<close>

definition write_progress :: "'e os \<Rightarrow> ('e \<Rightarrow> nat) \<Rightarrow> bool" where
  "write_progress os m \<longleftrightarrow>
     (\<forall>fd bs e. bs \<noteq> [] \<longrightarrow> (case os_write os fd bs e of
        (Ok n, e') \<Rightarrow> 0 < n
      | (Errno _, e') \<Rightarrow> m e' < m e)) \<and>
     (\<forall>fd ev t e. m (snd (os_poll os fd ev t e)) \<le> m e)"

lemma write_law_poll: "write_law os sent \<Longrightarrow> os_poll os fd ev t e = (r, e') \<Longrightarrow> sent e' = sent e"
  unfolding write_law_def by (metis snd_conv)

lemma write_progress_poll: "write_progress os m \<Longrightarrow> os_poll os fd ev t e = (r, e') \<Longrightarrow> m e' \<le> m e"
  unfolding write_progress_def by (metis snd_conv)

text \<open>
  The call that started at \<open>offset\<close> returned; the descriptor took the bytes from there up to some
  \<open>k\<close>, which is the end of the data exactly when the result is true.
\<close>

definition wrote :: "('e \<Rightarrow> int \<Rightarrow> bytes) \<Rightarrow> int \<Rightarrow> bytes \<Rightarrow> nat \<Rightarrow> 'e \<Rightarrow> (bool \<times> 'e) option \<Rightarrow> bool" where
  "wrote sent fd data offset e r \<longleftrightarrow>
     (\<exists>b e' k. r = Some (b, e') \<and> offset \<le> k \<and> k \<le> length data \<and> (b \<longleftrightarrow> k = length data) \<and>
        sent e' = (sent e)(fd := sent e fd @ take (k - offset) (drop offset data)))"

lemma wrote_stop:
  "sent e' = sent e \<Longrightarrow> offset < length data \<Longrightarrow> wrote sent fd data offset e (Some (False, e'))"
  unfolding wrote_def by (intro exI [of _ False] exI [of _ e'] exI [of _ offset]) simp

lemma wrote_end: "wrote sent fd data (length data) e (Some (True, e))"
  unfolding wrote_def by (intro exI [of _ True] exI [of _ e] exI [of _ "length data"]) simp

lemma wrote_same: "sent e' = sent e \<Longrightarrow> wrote sent fd data offset e' r = wrote sent fd data offset e r"
  by (simp add: wrote_def)

lemma wrote_step:
  assumes "sent v = (sent e)(fd := sent e fd @ take n (drop offset data))"
    and "wrote sent fd data (offset + n) v r"
  shows "wrote sent fd data offset e r"
proof -
  obtain b e' k where r: "r = Some (b, e')" "offset + n \<le> k" "k \<le> length data" "b \<longleftrightarrow> k = length data"
    "sent e' = (sent v)(fd := sent v fd @ take (k - (offset + n)) (drop (offset + n) data))"
    using assms(2) unfolding wrote_def by blast
  obtain j where k: "k = offset + n + j" using r(2) le_Suc_ex by blast
  have "take n (drop offset data) @ take (k - (offset + n)) (drop (offset + n) data)
      = take (k - offset) (drop offset data)"
    using take_add [of n j "drop offset data"] by (simp add: k add.commute [of offset n])
  with r assms(1) show ?thesis
    unfolding wrote_def by (intro exI [of _ b] exI [of _ e'] exI [of _ k]) simp
qed

lemma write_all_loop_step:
  assumes "write_law os sent" "write_progress os m" "offset < length data"
    and ok: "\<And>n e'. 0 < n \<Longrightarrow> offset + n \<le> length data \<Longrightarrow>
      wrote sent fd data (offset + n) e' (write_all_loop os fd data (offset + n) e')"
    and again: "\<And>e'. m e' < m e \<Longrightarrow> wrote sent fd data offset e' (write_all_loop os fd data offset e')"
  shows "wrote sent fd data offset e (write_all_loop os fd data offset e)"
proof -
  obtain r v where v: "os_write os fd (drop offset data) e = (r, v)"
    by (cases "os_write os fd (drop offset data) e")
  have w: "case r of Ok n \<Rightarrow> 0 < n \<and> n \<le> length data - offset \<and>
        sent v = (sent e)(fd := sent e fd @ take n (drop offset data))
      | Errno _ \<Rightarrow> sent v = sent e \<and> m v < m e"
    using assms(1-3) v unfolding write_law_def write_progress_def
    by (cases r) (auto dest!: spec [of _ fd] spec [of _ "drop offset data"] spec [of _ e])
  obtain p u where u: "os_poll os fd PollOut 5000 v = (p, u)" by (cases "os_poll os fd PollOut 5000 v")
  have su: "sent u = sent v" "m u \<le> m v"
    using write_law_poll [OF assms(1) u] write_progress_poll [OF assms(2) u] by auto
  have "write_all_loop os fd data offset e = (case r of
      Ok n \<Rightarrow> write_all_loop os fd data (offset + n) v
    | Errno EINTR \<Rightarrow> write_all_loop os fd data offset v
    | Errno EAGAIN \<Rightarrow> (case p of Ok (Some _) \<Rightarrow> write_all_loop os fd data offset u | _ \<Rightarrow> Some (False, u))
    | Errno _ \<Rightarrow> Some (False, v))"
    by (subst write_all_loop.simps) (simp add: assms(3) v u split: sysret.split errno.split option.split)
  then show ?thesis
    using w su assms(3) ok wrote_step [of sent v e fd] again [of u] again [of v]
    by (auto simp: wrote_stop wrote_same [of sent u e] wrote_same [of sent v e]
        split: sysret.splits errno.splits option.splits)
qed

lemma write_all_loop_wrote:
  assumes "write_law os sent" "write_progress os m" "offset \<le> length data"
  shows "wrote sent fd data offset e (write_all_loop os fd data offset e)"
  using assms(3)
proof (induction "(length data - offset, m e)" arbitrary: offset e
    rule: wf_induct_rule [OF wf_lex_prod [OF wf_less wf_less]])
  case (1 offset e)
  show ?case
  proof (cases "offset < length data")
    case True
    show ?thesis
    proof (rule write_all_loop_step [OF assms(1,2) True])
      fix n e' assume "0 < n" "offset + n \<le> length data"
      then show "wrote sent fd data (offset + n) e' (write_all_loop os fd data (offset + n) e')"
        by (intro 1(1)) (use True in auto)
    next
      fix e' assume "m e' < m e"
      then show "wrote sent fd data offset e' (write_all_loop os fd data offset e')"
        by (intro 1(1)) (use True in auto)
    qed
  next
    case False
    then show ?thesis using 1(2) wrote_end by (subst write_all_loop.simps) auto
  qed
qed

lemma write_all_wrote:
  assumes "write_law os sent" "write_progress os m"
  obtains b e' k where "write_all os fd data e = Some (b, e')" "k \<le> length data"
    "b \<longleftrightarrow> k = length data" "sent e' = (sent e)(fd := sent e fd @ take k data)"
  using write_all_loop_wrote [OF assms, of 0 data fd e] by (auto simp: write_all_def wrote_def)


section \<open>Reading\<close>

text \<open>
  What \<^verbatim>\<open>read(2)\<close> promises: at most as many bytes as asked for, the next ones of the stream;
  \<open>pending\<close> is what each descriptor has still to deliver.
\<close>

definition read_law :: "'e os \<Rightarrow> ('e \<Rightarrow> int \<Rightarrow> bytes) \<Rightarrow> bool" where
  "read_law os pending \<longleftrightarrow>
     (\<forall>fd n e. case os_read os fd n e of
        (Ok bs, e') \<Rightarrow> length bs \<le> n \<and> pending e fd = bs @ pending e' fd
      | (Errno _, e') \<Rightarrow> pending e' fd = pending e fd)"

lemma read_law_Ok:
  "read_law os pending \<Longrightarrow> os_read os fd n e = (Ok bs, e') \<Longrightarrow>
     length bs \<le> n \<and> pending e fd = bs @ pending e' fd"
  unfolding read_law_def by (auto dest!: spec [of _ fd] spec [of _ n] spec [of _ e])

lemma read_law_Errno:
  "read_law os pending \<Longrightarrow> os_read os fd n e = (Errno x, e') \<Longrightarrow> pending e' fd = pending e fd"
  unfolding read_law_def by (auto dest!: spec [of _ fd] spec [of _ n] spec [of _ e])

text \<open>
  Below the limit nothing is dropped; and the limit is out of reach, since a message is extracted
  as soon as the buffer holds one.
\<close>

lemma append_bounded_room:
  "length buffer + length new \<le> kMaxReadBufferSize \<Longrightarrow> append_bounded buffer new = buffer @ new"
  by (simp add: append_bounded_def Let_def)

lemma read_some_stream:
  assumes law: "read_law os pending" and room: "length buffer < 65537"
    and r: "read_some os fd buffer e = (r, buffer', e')"
  shows "buffer @ pending e fd = buffer' @ pending e' fd"
proof -
  obtain s v where s: "os_read os fd 4096 e = (s, v)" by (cases "os_read os fd 4096 e")
  show ?thesis
  proof (cases s)
    case (Ok bs)
    with s read_law_Ok [OF law] have bs: "length bs \<le> 4096" "pending e fd = bs @ pending v fd" by auto
    then have "append_bounded buffer bs = buffer @ bs"
      using room by (intro append_bounded_room) (simp add: kMaxReadBufferSize_def)
    with bs r show ?thesis by (auto simp: read_some_def s Ok split: if_splits)
  next
    case (Errno x)
    with s read_law_Errno [OF law] have "pending v fd = pending e fd" by auto
    with r show ?thesis by (auto simp: read_some_def s Errno split: errno.splits)
  qed
qed

lemma read_message_unfold:
  "try_extract_message buffer = (Some m, b) \<Longrightarrow> read_message os fd buffer e = (Some m, b, e)"
  "try_extract_message buffer = (None, b) \<Longrightarrow> read_some os fd b e = (r, b', e') \<Longrightarrow>
     read_message os fd buffer e = (if r = Data then read_message os fd b' e' else (None, b', e'))"
  by (subst read_message.simps, simp)
    (subst read_message.simps, simp split: read_outcome.split)

text \<open>
  A read takes the first message off the stream as if buffer and socket were one, however the stream
  arrives in pieces; when it returns empty-handed no byte is lost.
\<close>

lemma read_message_stream:
  assumes "read_law os pending" "read_message os fd buffer e = (msg, buffer', e')"
  shows "case msg of
      Some m \<Rightarrow> try_extract_message (buffer @ pending e fd) = (Some m, buffer' @ pending e' fd)
    | None \<Rightarrow> buffer' @ pending e' fd = buffer @ pending e fd \<and> length buffer' < 65537 + 4096"
  using assms
proof (induction os fd buffer e arbitrary: msg buffer' e' rule: read_message.induct)
  case (1 os fd buffer e)
  obtain x b where x: "try_extract_message buffer = (x, b)" by (cases "try_extract_message buffer")
  show ?case
  proof (cases x)
    case (Some m)
    with 1(3) x have "msg = Some m" "buffer' = b" "e' = e"
      by (auto simp: read_message_unfold(1) [where m = m and b = b])
    with x Some show ?thesis by (simp add: try_extract_Some_append)
  next
    case None
    obtain r b' v where r: "read_some os fd b e = (r, b', v)" by (cases "read_some os fd b e") auto
    have b: "b = buffer" and short: "length buffer < 65537"
      using x None try_extract_None try_extract_None_short by auto
    have eq: "buffer @ pending e fd = b' @ pending v fd"
      using read_some_stream [OF 1(2) short] r b by simp
    note unf = read_message_unfold(2) [OF x [unfolded None] r]
    show ?thesis
    proof (cases "r = Data")
      case True
      have "read_message os fd b' v = (msg, buffer', e')" using 1(3) unf True by simp
      from 1(1) [OF x [symmetric] None r [symmetric] True refl 1(2) this] eq
      show ?thesis by (simp split: option.splits)
    next
      case False
      then have "b' = b" using r
        by (auto simp: read_some_def split: prod.splits sysret.splits errno.splits if_splits)
      with 1(3) unf False eq b short show ?thesis by auto
    qed
  qed
qed

text \<open>So the messages of a stream come out one by one, complete and in order.\<close>

lemma read_message_next:
  assumes "read_law os pending" "read_message os fd buffer e = (Some m, buffer', e')"
    and "buffer @ pending e fd = build_eibd_message t d @ rest" "length d < 65534"
  shows "m = build_eibd_message t d \<and> buffer' @ pending e' fd = rest"
  using read_message_stream [OF assms(1,2)] try_extract_build_append [OF assms(4), of t rest]
  by (simp add: assms(3))

fun read_batch :: "'e os \<Rightarrow> int \<Rightarrow> nat \<Rightarrow> bytes \<Rightarrow> 'e \<Rightarrow> bytes list \<times> bytes \<times> 'e" where
  "read_batch os fd 0 buffer e = ([], buffer, e)"
| "read_batch os fd (Suc n) buffer e =
     (case read_message os fd buffer e of
        (None, buffer, e) \<Rightarrow> ([], buffer, e)
      | (Some m, buffer, e) \<Rightarrow>
          (case read_batch os fd n buffer e of (ms, buffer, e) \<Rightarrow> (m # ms, buffer, e)))"

abbreviation wire :: "(u16 \<times> bytes) list \<Rightarrow> bytes list" where
  "wire \<equiv> map (\<lambda>(t, d). build_eibd_message t d)"

lemma read_batch_prefix:
  assumes "read_law os pending" "buffer @ pending e fd = concat (wire ms) @ rest"
    and "\<forall>(t, d) \<in> set ms. length d < 65534" "n \<le> length ms"
    and "read_batch os fd n buffer e = (out, buffer', e')"
  shows "out = take (length out) (wire ms) \<and>
    buffer' @ pending e' fd = concat (drop (length out) (wire ms)) @ rest"
  using assms(2-)
proof (induction n arbitrary: buffer e ms out buffer' e')
  case (Suc n)
  then obtain t d ms' where ms: "ms = (t, d) # ms'" by (cases ms) auto
  obtain r b v where r: "read_message os fd buffer e = (r, b, v)" by (cases "read_message os fd buffer e") auto
  show ?case
  proof (cases r)
    case None
    then show ?thesis using Suc.prems r read_message_stream [OF assms(1) r] by auto
  next
    case (Some m)
    have m: "m = build_eibd_message t d" "b @ pending v fd = concat (wire ms') @ rest"
      using read_message_next [OF assms(1) r [unfolded Some]] Suc.prems by (auto simp: ms)
    obtain out' b' v' where o: "read_batch os fd n b v = (out', b', v')" by (cases "read_batch os fd n b v") auto
    from Suc.IH [OF m(2) _ _ o] Suc.prems o r Some m(1) show ?thesis by (auto simp: ms)
  qed
qed simp


section \<open>Time\<close>

declare client_disconnect.simps [simp del] close_failed.simps [simp del] restore_blocking.simps [simp del]
  finish_connect.simps [simp del] client_connect.simps [simp del] client_set_nonblocking.simps [simp del]
  client_open_group_socket.simps [simp del] client_reconnect.simps [simp del]
  client_send_group_packet.simps [simp del] client_poll_group_telegram.simps [simp del]
  client_wait_for_activity.simps [simp del]

text \<open>
  The clock is monotonic, a \<^verbatim>\<open>poll\<close> takes some time, and a sleep lasts at least as long as asked.
\<close>

definition clock_law :: "'e os \<Rightarrow> bool" where
  "clock_law os \<longleftrightarrow>
     (\<forall>e. os_clock os e \<le> os_clock os (snd (os_socket os e))) \<and>
     (\<forall>fd p e. os_clock os e \<le> os_clock os (snd (os_connect os fd p e))) \<and>
     (\<forall>fd e. os_clock os e \<le> os_clock os (snd (os_so_error os fd e))) \<and>
     (\<forall>fd e. os_clock os e \<le> os_clock os (snd (os_getfl os fd e))) \<and>
     (\<forall>fd b e. os_clock os e \<le> os_clock os (os_setfl os fd b e)) \<and>
     (\<forall>fd ev t e. os_clock os e < os_clock os (snd (os_poll os fd ev t e))) \<and>
     (\<forall>fd e. os_clock os e \<le> os_clock os (os_close os fd e)) \<and>
     (\<forall>fd n e. os_clock os e \<le> os_clock os (snd (os_read os fd n e))) \<and>
     (\<forall>fd bs e. os_clock os e \<le> os_clock os (snd (os_write os fd bs e))) \<and>
     (\<forall>d e. os_clock os e + max 0 d \<le> os_clock os (os_sleep os d e))"

lemma clock_lawD:
  assumes "clock_law os"
  shows "os_socket os e = (fd, e') \<Longrightarrow> os_clock os e \<le> os_clock os e'"
    and "os_connect os fd p e = (r, e') \<Longrightarrow> os_clock os e \<le> os_clock os e'"
    and "os_so_error os fd e = (s, e') \<Longrightarrow> os_clock os e \<le> os_clock os e'"
    and "os_getfl os fd e = (b, e') \<Longrightarrow> os_clock os e \<le> os_clock os e'"
    and "os_clock os e \<le> os_clock os (os_setfl os fd x e)"
    and "os_poll os fd ev t e = (rv, e') \<Longrightarrow> os_clock os e < os_clock os e'"
    and "os_clock os e \<le> os_clock os (os_close os fd e)"
    and "os_read os fd n e = (bs, e') \<Longrightarrow> os_clock os e \<le> os_clock os e'"
    and "os_write os fd ws e = (w, e') \<Longrightarrow> os_clock os e \<le> os_clock os e'"
    and "os_clock os e + max 0 d \<le> os_clock os (os_sleep os d e)"
  using assms unfolding clock_law_def by (metis snd_conv)+

lemma read_some_clock:
  "clock_law os \<Longrightarrow> read_some os fd buffer e = (r, buffer', e') \<Longrightarrow> os_clock os e \<le> os_clock os e'"
  by (auto simp: read_some_def split: prod.splits sysret.splits errno.splits if_splits
      dest: clock_lawD(8))

text \<open>The wait for a reply ends, because time passes with every poll.\<close>

lemma read_message_deadline_loop_returns:
  assumes law: "clock_law os"
  shows "\<exists>m b e'. read_message_deadline_loop os fd deadline buffer e = Some (m, b, e') \<and>
    os_clock os e \<le> os_clock os e'"
proof (induction "nat (deadline - os_clock os e)" arbitrary: buffer e rule: less_induct)
  case less
  let ?ok = "\<lambda>r. \<exists>m b e'. r = Some (m, b, e') \<and> os_clock os e \<le> os_clock os e'"
  obtain x b where x: "try_extract_message buffer = (x, b)" by (cases "try_extract_message buffer")
  show ?case
  proof (cases "x = None \<and> os_clock os e < deadline")
    case True
    let ?ms = "max 1 ((deadline - os_clock os e) div 1000000)"
    obtain p v where p: "os_poll os fd PollIn ?ms e = (p, v)" by (cases "os_poll os fd PollIn ?ms e")
    obtain s b' u where s: "read_some os fd b v = (s, b', u)" by (cases "read_some os fd b v") auto
    have pv: "os_clock os e < os_clock os v" using clock_lawD(6) [OF law p] .
    have su: "os_clock os v \<le> os_clock os u" using read_some_clock [OF law s] .
    have IH: "?ok (read_message_deadline_loop os fd deadline b'' w)" if "os_clock os e < os_clock os w" for b'' w
    proof -
      have "nat (deadline - os_clock os w) < nat (deadline - os_clock os e)" using that True by linarith
      from less(1) [OF this, of b''] that show ?thesis by force
    qed
    have "read_message_deadline_loop os fd deadline buffer e =
        (case p of Ok None \<Rightarrow> Some (None, b, v)
         | Errno EINTR \<Rightarrow> read_message_deadline_loop os fd deadline b v
         | Errno _ \<Rightarrow> Some (None, b, v)
         | Ok (Some _) \<Rightarrow> (case s of Data \<Rightarrow> read_message_deadline_loop os fd deadline b' u
             | WouldBlock \<Rightarrow> read_message_deadline_loop os fd deadline b' u
             | _ \<Rightarrow> Some (None, b', u)))"
      by (subst read_message_deadline_loop.simps)
        (use True in \<open>simp add: x p s Let_def split: sysret.split option.split errno.split read_outcome.split\<close>)
    then show ?thesis using IH [of v b] IH [of u b'] pv su
      by (auto split: sysret.splits option.splits errno.splits read_outcome.splits)
  next
    case False
    then show ?thesis
      by (subst read_message_deadline_loop.simps) (auto simp: x Let_def split: option.split)
  qed
qed

lemma read_message_deadline_returns:
  assumes "clock_law os"
  obtains m b e' where "read_message_deadline os fd buffer timeout e = Some (m, b, e')"
    "os_clock os e \<le> os_clock os e'"
  using read_message_deadline_loop_returns [OF assms] unfolding read_message_deadline_def by blast

text \<open>
  The states an operation can reach by calls of the operating system.  Whatever all calls keep or
  move forward, the operations of the client keep or move forward.
\<close>

inductive os_reaches :: "'e os \<Rightarrow> 'e \<Rightarrow> 'e \<Rightarrow> bool" for os :: "'e os" and e :: 'e where
  reaches_refl: "os_reaches os e e"
| reaches_socket: "os_reaches os e v \<Longrightarrow> os_socket os v = (fd, u) \<Longrightarrow> os_reaches os e u"
| reaches_connect: "os_reaches os e v \<Longrightarrow> os_connect os fd p v = (r, u) \<Longrightarrow> os_reaches os e u"
| reaches_so_error: "os_reaches os e v \<Longrightarrow> os_so_error os fd v = (s, u) \<Longrightarrow> os_reaches os e u"
| reaches_getfl: "os_reaches os e v \<Longrightarrow> os_getfl os fd v = (b, u) \<Longrightarrow> os_reaches os e u"
| reaches_setfl: "os_reaches os e v \<Longrightarrow> os_reaches os e (os_setfl os fd x v)"
| reaches_poll: "os_reaches os e v \<Longrightarrow> os_poll os fd ev t v = (rv, u) \<Longrightarrow> os_reaches os e u"
| reaches_close: "os_reaches os e v \<Longrightarrow> os_reaches os e (os_close os fd v)"
| reaches_read: "os_reaches os e v \<Longrightarrow> os_read os fd n v = (bs, u) \<Longrightarrow> os_reaches os e u"
| reaches_write: "os_reaches os e v \<Longrightarrow> os_write os fd ws v = (w, u) \<Longrightarrow> os_reaches os e u"
| reaches_sleep: "os_reaches os e v \<Longrightarrow> os_reaches os e (os_sleep os d v)"

declare reaches_refl [simp] reaches_setfl [simp] reaches_close [simp] reaches_sleep [simp]

lemma reaches_calls [simp]:
  assumes "os_reaches os e v"
  shows "os_reaches os e (snd (os_socket os v))" "os_reaches os e (snd (os_connect os fd p v))"
    "os_reaches os e (snd (os_so_error os fd v))" "os_reaches os e (snd (os_getfl os fd v))"
    "os_reaches os e (snd (os_poll os fd ev t v))" "os_reaches os e (snd (os_read os fd n v))"
    "os_reaches os e (snd (os_write os fd ws v))"
  using assms os_reaches.intros by (metis prod.collapse)+

lemma reaches_trans: "os_reaches os v u \<Longrightarrow> os_reaches os e v \<Longrightarrow> os_reaches os e u"
  by (induction rule: os_reaches.induct) (simp_all, (metis reaches_calls snd_conv)+)

lemma reaches_clock: "os_reaches os e v \<Longrightarrow> clock_law os \<Longrightarrow> os_clock os e \<le> os_clock os v"
proof (induction rule: os_reaches.induct)
  case (reaches_sleep v d)
  then show ?case using clock_lawD(10) [of os v d] by simp
qed (auto dest: clock_lawD intro: order_trans less_imp_le)

text \<open>The socket is closed once, whether or not the client was disconnected before it is destroyed.\<close>

lemma client_destroy_disconnect: "client_destroy os (client_disconnect os k) = client_destroy os k"
  by (cases k) (simp add: client_destroy_def client_disconnect.simps Let_def)

lemma client_disconnect_reaches [simp]:
  "os_reaches os e (snd k) \<Longrightarrow> os_reaches os e (snd (client_disconnect os k))"
  by (cases k) (simp add: client_disconnect.simps Let_def)

lemma client_set_nonblocking_reaches [simp]:
  "os_reaches os e (snd k) \<Longrightarrow> os_reaches os e (snd (client_set_nonblocking os b k))"
  by (cases k) (simp add: client_set_nonblocking.simps case_prod_unfold split: sysret.split)

lemma close_failed_reaches [simp]:
  "os_reaches os e (snd k) \<Longrightarrow> os_reaches os e (snd (snd (close_failed os k)))"
  by (cases k) (simp add: close_failed.simps)

lemma restore_blocking_reaches [simp]:
  "os_reaches os e (snd k) \<Longrightarrow> os_reaches os e (snd (snd (restore_blocking os flags k)))"
  by (cases k) (simp add: restore_blocking.simps split: sysret.split)

lemma finish_connect_reaches [simp]:
  "os_reaches os e (snd k) \<Longrightarrow> os_reaches os e (snd (snd (finish_connect os path flags k)))"
  by (cases k) (simp add: finish_connect.simps case_prod_unfold
      split: sysret.split option.split errno.split)

lemma client_connect_reaches [simp]:
  "os_reaches os e (snd k) \<Longrightarrow> os_reaches os e (snd (snd (client_connect os path k)))"
  by (cases k) (simp add: client_connect.simps case_prod_unfold Let_def split: sysret.split)

lemma read_some_reaches [simp]:
  "os_reaches os e v \<Longrightarrow> os_reaches os e (snd (snd (read_some os fd buffer v)))"
  by (simp add: read_some_def case_prod_unfold split: sysret.split errno.split)

lemma write_all_loop_reaches:
  assumes ret: "write_all_loop os fd data offset v = Some r"
  shows "os_reaches os e v \<longrightarrow> os_reaches os e (snd r)"
proof (rule write_all_loop.raw_induct [where P = "\<lambda>os fd data offset v r.
    \<forall>e. os_reaches os e v \<longrightarrow> os_reaches os e (snd r)", OF _ ret, THEN spec], goal_cases)
  case (1 loop os fd data offset v r)
  then show ?case
    by (auto simp: case_prod_unfold split: if_splits sysret.splits errno.splits option.splits)
qed

lemma read_message_reaches:
  "os_reaches os e v \<Longrightarrow> os_reaches os e (snd (snd (read_message os fd buffer v)))"
proof (induction os fd buffer v rule: read_message.induct)
  case (1 os fd buffer v)
  then show ?case
    by (subst read_message.simps)
      (auto simp: case_prod_unfold prod_eq_iff split: option.split read_outcome.split)
qed

lemma read_message_deadline_loop_reaches:
  assumes ret: "read_message_deadline_loop os fd deadline buffer v = Some r"
  shows "os_reaches os e v \<longrightarrow> os_reaches os e (snd (snd r))"
proof (rule read_message_deadline_loop.raw_induct [where P = "\<lambda>os fd deadline buffer v r.
    \<forall>e. os_reaches os e v \<longrightarrow> os_reaches os e (snd (snd r))", OF _ ret, THEN spec], goal_cases)
  case (1 loop os fd deadline buffer v r)
  then show ?case
    by (auto simp: case_prod_unfold Let_def
        split: if_splits sysret.splits errno.splits option.splits read_outcome.splits)
qed

lemma io_reaches:
  "write_all os fd data v = Some (b, u) \<Longrightarrow> os_reaches os e v \<Longrightarrow> os_reaches os e u"
  "read_message_deadline os fd buffer t v = Some (m, buffer', u) \<Longrightarrow> os_reaches os e v \<Longrightarrow> os_reaches os e u"
  using write_all_loop_reaches read_message_deadline_loop_reaches
  unfolding write_all_def read_message_deadline_def by fastforce+

lemma client_open_reaches:
  assumes "client_open_group_socket os et wo (c, v) = Some (b, c', u)" "os_reaches os e v"
  shows "os_reaches os e u"
  using assms
  by (auto simp: client_open_group_socket.simps Let_def bind_eq_Some_conv
      split: if_splits option.splits) (blast intro: io_reaches)+

lemma client_reconnect_reaches:
  assumes "client_reconnect os et (c, v) = Some (b, c', u)" "os_reaches os e v"
  shows "os_reaches os e u"
proof -
  define k where "k = (if ci_fd c \<ge> 0 then (c\<lparr>ci_fd := -1\<rparr>, os_close os (ci_fd c) v) else (c, v))"
  obtain c1 v1 where k: "k = (c1, v1)" by (cases k)
  have v1: "os_reaches os e v1" using k assms(2) by (auto simp: k_def split: if_splits)
  define c2 where "c2 = c1\<lparr>ci_group_socket_open := False, ci_read_buffer := []\<rparr>"
  obtain b3 c3 v3 where 3: "client_connect os (ci_socket_path c1) (c2, v1) = (b3, c3, v3)"
    by (cases "client_connect os (ci_socket_path c1) (c2, v1)") auto
  have v3: "os_reaches os e v3" using client_connect_reaches [of os e "(c2, v1)" "ci_socket_path c1"] v1 3 by simp
  note unf = client_reconnect.simps k_def [symmetric] k c2_def [symmetric] 3 Let_def bind_eq_Some_conv
  show ?thesis
  proof (cases "ci_socket_path c = [] \<or> \<not> b3")
    case True
    with assms v3 show ?thesis by (auto simp: unf split: if_splits)
  next
    case False
    then obtain o4 c4 v4 where 4: "client_open_group_socket os et (ci_write_only c3) (c3, v3) = Some (o4, c4, v4)"
      and r: "(b, c', u) = (if o4 then (True, client_set_nonblocking os True (c4, v4))
        else (False, client_disconnect os (c4, v4)))"
      using assms(1) by (auto simp: unf split: if_splits)
    have "os_reaches os e v4" using client_open_reaches [OF 4 v3] .
    then have "os_reaches os e (snd (client_set_nonblocking os True (c4, v4)))"
      "os_reaches os e (snd (client_disconnect os (c4, v4)))" by simp_all
    with r show ?thesis by (metis (full_types) snd_conv)
  qed
qed

lemma client_send_reaches:
  assumes "client_send_group_packet os et ga apdu (c, v) = Some (b, c', u)"
  shows "os_reaches os (rate_limit os c v) u"
  using assms
  by (auto simp: client_send_group_packet.simps Let_def bind_eq_Some_conv split: if_splits
      dest!: io_reaches(1) [where e = "rate_limit os c v"] client_reconnect_reaches [where e = "rate_limit os c v"])


section \<open>What the operations do to the client's state\<close>

lemma client_disconnect_state [simp]:
  "ci_fd (fst (client_disconnect os k)) = (if ci_fd (fst k) \<ge> 0 then -1 else ci_fd (fst k))"
  "ci_telegram_count (fst (client_disconnect os k)) = ci_telegram_count (fst k)"
  "ci_last_group_write (fst (client_disconnect os k)) = ci_last_group_write (fst k)"
  by (cases k; simp add: client_disconnect.simps Let_def)+

lemma client_set_nonblocking_state [simp]: "fst (client_set_nonblocking os b k) = fst k"
  by (cases k) (simp add: client_set_nonblocking.simps case_prod_unfold split: sysret.split)

lemma finish_connect_state [simp]:
  "fst (finish_connect os path flags k) \<Longrightarrow> fst (snd (finish_connect os path flags k)) = fst k"
  "ci_telegram_count (fst (snd (finish_connect os path flags k))) = ci_telegram_count (fst k)"
  "ci_last_group_write (fst (snd (finish_connect os path flags k))) = ci_last_group_write (fst k)"
  "\<not> fst (finish_connect os path flags k) \<Longrightarrow> ci_fd (fst (snd (finish_connect os path flags k))) = -1"
  by (cases k; simp add: finish_connect.simps close_failed.simps restore_blocking.simps case_prod_unfold
      split: sysret.splits option.splits errno.splits if_splits)+

text \<open>
  The three ends of \<^verbatim>\<open>connect\<close>: no socket; a path that does not fit, which leaves the socket open; and
  the attempt proper.
\<close>

lemma client_connect_cases:
  assumes "client_connect os path (c, v) = (b, c', u)"
  obtains (no_socket) c1 fd where "fd < 0" "\<not> b" "c' = c1\<lparr>ci_fd := fd\<rparr>" "c1 \<in> {c, fst (client_disconnect os (c, v))}"
  | (too_long) c1 fd where "fd \<ge> 0" "os_sun_path_size os \<le> length path" "\<not> b" "c' = c1\<lparr>ci_fd := fd\<rparr>"
      "c1 \<in> {c, fst (client_disconnect os (c, v))}"
  | (attempt) c1 fd flags w where "fd \<ge> 0" "length path < os_sun_path_size os"
      "c1 \<in> {c, fst (client_disconnect os (c, v))}"
      "finish_connect os path flags (c1\<lparr>ci_fd := fd, ci_socket_path := path\<rparr>, w) = (b, c', u)"
proof -
  obtain c1 v1 where 1: "(if ci_fd c \<ge> 0 then client_disconnect os (c, v) else (c, v)) = (c1, v1)"
    by fastforce
  obtain fd v2 where 2: "os_socket os v1 = (fd, v2)" by (cases "os_socket os v1")
  obtain fl v3 where 3: "os_getfl os fd v2 = (fl, v3)" by (cases "os_getfl os fd v2")
  have c1: "c1 \<in> {c, fst (client_disconnect os (c, v))}" using 1 by (auto split: if_splits)
  note unf = client_connect.simps 1 2 3 Let_def prod.case
  consider "fd < 0" | "fd \<ge> 0" "os_sun_path_size os \<le> length path"
    | "fd \<ge> 0" "length path < os_sun_path_size os" by linarith
  then show thesis
  proof cases
    case 1
    then show thesis using assms c1 no_socket [of fd c1] unfolding unf by simp
  next
    case 2
    then show thesis using assms c1 too_long [of fd c1] unfolding unf by simp
  next
    case 3
    then show thesis using assms c1 attempt [of fd c1 fl] unfolding unf by simp
  qed
qed

lemma client_connect_state:
  assumes "client_connect os path (c, v) = (b, c', u)"
  shows "ci_telegram_count c' = ci_telegram_count c \<and> ci_last_group_write c' = ci_last_group_write c \<and>
    (b \<longrightarrow> ci_fd c' \<ge> 0)"
  using assms
proof (cases rule: client_connect_cases)
  case (attempt c1 fd flags w)
  let ?k = "(c1\<lparr>ci_fd := fd, ci_socket_path := path\<rparr>, w)"
  show ?thesis
    using finish_connect_state [of os path flags ?k] attempt by auto
qed auto

lemma client_open_state:
  assumes "client_open_group_socket os et wo (c, e) = Some (b, c', e')"
  shows "ci_fd c' = ci_fd c" "ci_telegram_count c' = ci_telegram_count c"
    "ci_last_group_write c' = ci_last_group_write c"
  using assms
  by (auto simp: client_open_group_socket.simps Let_def bind_eq_Some_conv split: if_splits option.splits)

lemma client_reconnect_cases:
  assumes "client_reconnect os et (c, v) = Some (b, c', u)"
  obtains (no_path) "\<not> b" "c' = c" "u = v"
  | (no_connection) c2 v2 where "ci_telegram_count c2 = ci_telegram_count c"
      "ci_last_group_write c2 = ci_last_group_write c"
      "client_connect os (ci_socket_path c) (c2, v2) = (False, c', u)" "\<not> b"
  | (opened) c2 v2 c3 v3 o4 c4 v4 where "ci_telegram_count c2 = ci_telegram_count c"
      "ci_last_group_write c2 = ci_last_group_write c"
      "client_connect os (ci_socket_path c) (c2, v2) = (True, c3, v3)"
      "client_open_group_socket os et (ci_write_only c3) (c3, v3) = Some (o4, c4, v4)" "b = o4"
      "(c', u) = (if o4 then client_set_nonblocking os True (c4, v4) else client_disconnect os (c4, v4))"
proof -
  define k where "k = (if ci_fd c \<ge> 0 then (c\<lparr>ci_fd := -1\<rparr>, os_close os (ci_fd c) v) else (c, v))"
  obtain c1 v1 where k: "k = (c1, v1)" by (cases k)
  have c1: "ci_socket_path c1 = ci_socket_path c" "ci_telegram_count c1 = ci_telegram_count c"
    "ci_last_group_write c1 = ci_last_group_write c"
    using k by (auto simp: k_def split: if_splits)
  define c2 where "c2 = c1\<lparr>ci_group_socket_open := False, ci_read_buffer := []\<rparr>"
  obtain b3 c3 v3 where 3: "client_connect os (ci_socket_path c) (c2, v1) = (b3, c3, v3)"
    by (cases "client_connect os (ci_socket_path c) (c2, v1)") auto
  note unf = client_reconnect.simps k_def [symmetric] k c1 c2_def [symmetric] 3 Let_def bind_eq_Some_conv
  have c2: "ci_telegram_count c2 = ci_telegram_count c" "ci_last_group_write c2 = ci_last_group_write c"
    by (simp_all add: c2_def c1)
  show thesis
  proof (cases "ci_socket_path c = []")
    case True
    with assms no_path show thesis by (simp add: unf)
  next
    case False
    show thesis
    proof (cases b3)
      case True
      then obtain o4 c4 v4 where
        "client_open_group_socket os et (ci_write_only c3) (c3, v3) = Some (o4, c4, v4)"
        "(b, c', u) = (if o4 then (True, client_set_nonblocking os True (c4, v4))
          else (False, client_disconnect os (c4, v4)))"
        using assms False by (auto simp: unf split: if_splits)
      with 3 True c2 opened [of c2 v1 c3 v3 o4 c4 v4] show thesis by (auto split: if_splits)
    next
      case no: False
      with assms False have "b = False" "c3 = c'" "v3 = u" by (auto simp: unf)
      with 3 no c2 no_connection [of c2 v1] show thesis by simp
    qed
  qed
qed

lemma client_reconnect_state:
  assumes "client_reconnect os et (c, v) = Some (b, c', u)"
  shows "ci_telegram_count c' = ci_telegram_count c \<and> ci_last_group_write c' = ci_last_group_write c \<and>
    (b \<longrightarrow> ci_fd c' \<ge> 0)"
  using assms
proof (cases rule: client_reconnect_cases)
  case (no_connection c2 v2)
  then show ?thesis using client_connect_state [OF no_connection(3)] by simp
next
  case (opened c2 v2 c3 v3 o4 c4 v4)
  have "c' = fst (if o4 then client_set_nonblocking os True (c4, v4) else client_disconnect os (c4, v4))"
    using opened(6) by (metis fst_conv)
  then show ?thesis
    using opened client_open_state [OF opened(4)] client_connect_state [OF opened(3)] by simp
qed simp

section \<open>The client implements the interface\<close>

lemma fetch_message_count:
  "fetch_message os k = (m, c, e) \<Longrightarrow> ci_telegram_count c = ci_telegram_count (fst k)"
  by (auto simp: fetch_message_def split: prod.splits)

lemma fetch_or_reconnect_count:
  assumes "fetch_or_reconnect os et k = Some (msg, c', e')"
  shows "ci_telegram_count c' = ci_telegram_count (fst k)"
proof -
  obtain m c e where m: "fetch_message os k = (m, c, e)" by (cases "fetch_message os k") auto
  have c: "ci_telegram_count c = ci_telegram_count (fst k)" using m by (rule fetch_message_count)
  obtain p v where p: "os_poll os (ci_fd c) PollNone 0 e = (p, v)" by (cases "os_poll os (ci_fd c) PollNone 0 e")
  have again: "ci_telegram_count c' = ci_telegram_count c"
    if "client_reconnect os et (c, v) = Some (b, k2)" "fetch_message os k2 = (msg, c', e') \<or> k2 = (c', e')" for b k2
    using that client_reconnect_state [of os et c v b "fst k2" "snd k2"] by (auto dest: fetch_message_count)
  show ?thesis
    using assms c again
    by (auto simp: fetch_or_reconnect_def m p bind_eq_Some_conv
        split: option.splits sysret.splits if_splits)
qed

lemma count_telegram_count:
  assumes "count_telegram et msg c = Some (tg, c')"
  shows "ci_telegram_count c' = ci_telegram_count c + (if tg = None then 0 else 1)"
  using assms by (cases msg) (auto simp: bind_eq_Some_conv split: option.splits)

lemma client_poll_count:
  assumes "client_poll_group_telegram os et (c, e) = Some (tg, c', e')"
  shows "ci_telegram_count c' = ci_telegram_count c + (if tg = None then 0 else 1)"
  using assms
  by (auto simp: client_poll_group_telegram.simps bind_eq_Some_conv split: if_splits
      dest!: fetch_or_reconnect_count count_telegram_count client_reconnect_state)

lemma client_wait_state: "fst (snd (client_wait_for_activity os t k)) = fst k"
  by (cases k) (simp add: client_wait_for_activity.simps case_prod_unfold
      split: sysret.split option.split errno.split)

interpretation client: knxd_client "knxd_client_ops os et" for os et
proof (unfold_locales, goal_cases)
  case (1 k)
  then show ?case by (simp add: knxd_client_ops_def client_is_connected_def)
next
  case (2 path k k')
  then show ?case by (cases k; cases k')
    (auto simp: knxd_client_ops_def client_is_connected_def dest: client_connect_state)
next
  case (3 wo k b k')
  then show ?case by (cases k; cases k') (auto simp: knxd_client_ops_def client_is_connected_def dest: client_open_state(1))
next
  case (4 k wo)
  then show ?case by (cases k) (simp add: knxd_client_ops_def client_is_connected_def client_open_group_socket.simps)
next
  case (5 b k)
  then show ?case by (simp add: knxd_client_ops_def client_is_connected_def)
next
  case (6 t k)
  then show ?case by (simp add: knxd_client_ops_def client_is_connected_def client_wait_state)
next
  case (7 k t)
  then show ?case by (cases k) (simp add: knxd_client_ops_def client_is_connected_def client_wait_for_activity.simps)
next
  case (8 k tg k')
  then show ?case by (cases k; cases k') (simp add: knxd_client_ops_def client_get_telegram_count_def client_poll_count)
qed


section \<open>Every operation returns\<close>

text \<open>What is read from the socket was extracted from a buffer, so parsing it is defined.\<close>

lemma read_message_extracted:
  "read_message os fd buffer e = (Some m, buffer', e') \<Longrightarrow>
     \<exists>b b'. try_extract_message b = (Some m, b')"
proof (induction os fd buffer e rule: read_message.induct)
  case (1 os fd buffer e)
  obtain x b where x: "try_extract_message buffer = (x, b)" by (cases "try_extract_message buffer")
  show ?case
  proof (cases x)
    case (Some m')
    with 1 x have "m' = m" by (auto simp: read_message_unfold(1) [where m = m' and b = b])
    with x Some show ?thesis by auto
  next
    case None
    obtain r b' v where r: "read_some os fd b e = (r, b', v)" by (cases "read_some os fd b e") auto
    show ?thesis
      using 1(1) [OF x [symmetric] None r [symmetric] _ refl] 1(2) read_message_unfold(2) [OF x [unfolded None] r]
      by (auto split: if_splits)
  qed
qed

lemma read_message_deadline_extracted:
  assumes "read_message_deadline os fd buffer timeout e = Some (Some m, buffer', e')"
  shows "\<exists>b b'. try_extract_message b = (Some m, b')"
proof -
  define d where "d = os_clock os e + max 0 timeout * 1000000"
  have ret: "read_message_deadline_loop os fd d buffer e = Some (Some m, buffer', e')"
    using assms by (simp add: read_message_deadline_def d_def)
  have "\<forall>x. fst (Some m, buffer', e') = Some x \<longrightarrow> (\<exists>b b'. try_extract_message b = (Some x, b'))"
  proof (rule read_message_deadline_loop.raw_induct [where P = "\<lambda>os fd deadline buffer e r.
      \<forall>m. fst r = Some m \<longrightarrow> (\<exists>b b'. try_extract_message b = (Some m, b'))", OF _ ret], goal_cases)
    case (1 loop os fd deadline buffer e r)
    then show ?case
      by (auto simp: case_prod_unfold Let_def split: if_splits sysret.splits errno.splits option.splits
          read_outcome.splits) (metis prod.collapse)
  qed
  then show ?thesis by simp
qed

lemma parse_defined: "\<exists>b b'. try_extract_message b = (Some m, b') \<Longrightarrow>
    \<exists>x. outcome_option (parse_eibd_message m) = Some x"
  using parse_extracted by fastforce

text \<open>The laws of the operating system under which the client always answers.\<close>

definition os_live :: "'e os \<Rightarrow> ('e \<Rightarrow> int \<Rightarrow> bytes) \<Rightarrow> ('e \<Rightarrow> nat) \<Rightarrow> bool" where
  "os_live os sent m \<longleftrightarrow> write_law os sent \<and> write_progress os m \<and> clock_law os"

lemma write_all_returns: "os_live os sent m \<Longrightarrow> \<exists>b e'. write_all os fd data e = Some (b, e')"
  unfolding os_live_def by (metis write_all_wrote)

lemma client_open_returns:
  assumes "os_live os sent m"
  shows "\<exists>b k'. client_open_group_socket os et wo k = Some (b, k')"
proof -
  obtain c e where k: "k = (c, e)" by (cases k)
  obtain b v where b: "write_all os (ci_fd c) (build_open_groupcon et wo) e = Some (b, v)"
    using write_all_returns [OF assms] by blast
  obtain r buf u where r: "read_message_deadline os (ci_fd c) (ci_read_buffer c) (ci_handshake_timeout_ms c) v = Some (r, buf, u)"
    using read_message_deadline_returns [of os] assms unfolding os_live_def by metis
  have "\<exists>x. outcome_option (parse_eibd_message y) = Some x" if "r = Some y" for y
    using r that by (intro parse_defined read_message_deadline_extracted) simp
  then show ?thesis
    by (cases r) (auto simp: k client_open_group_socket.simps Let_def b r split: option.split)
qed

lemma client_reconnect_returns:
  assumes "os_live os sent m"
  shows "\<exists>b k'. client_reconnect os et k = Some (b, k')"
proof -
  obtain c e where k: "k = (c, e)" by (cases k)
  obtain c1 e1 where 1: "(if ci_fd c \<ge> 0 then (c\<lparr>ci_fd := -1\<rparr>, os_close os (ci_fd c) e) else (c, e)) = (c1, e1)"
    by fastforce
  obtain b2 c2 e2 where 2: "client_connect os (ci_socket_path c1)
      (c1\<lparr>ci_group_socket_open := False, ci_read_buffer := []\<rparr>, e1) = (b2, c2, e2)"
    by (cases "client_connect os (ci_socket_path c1)
      (c1\<lparr>ci_group_socket_open := False, ci_read_buffer := []\<rparr>, e1)") auto
  obtain b3 c3 e3 where 3: "client_open_group_socket os et (ci_write_only c2) (c2, e2) = Some (b3, c3, e3)"
    using client_open_returns [OF assms] by fast
  show ?thesis unfolding k client_reconnect.simps 1 Let_def prod.case by (simp add: 2 3) blast
qed

lemma client_send_returns:
  assumes "os_live os sent m"
  shows "\<exists>b k'. client_send_group_packet os et ga apdu k = Some (b, k')"
proof -
  obtain c e where k: "k = (c, e)" by (cases k)
  have rec: "\<exists>b c' e'. client_reconnect os et k2 = Some (b, c', e')" for k2
    using client_reconnect_returns [OF assms] by fast
  have wr: "\<exists>b e'. write_all os fd data v = Some (b, e')" for fd data v
    using write_all_returns [OF assms] .
  obtain b1 c1 e1 where 1: "(if \<not> client_is_connected (c, rate_limit os c e) \<or> \<not> ci_group_socket_open c
      then client_reconnect os et (c, rate_limit os c e) else Some (True, c, rate_limit os c e)) = Some (b1, c1, e1)"
    using rec by (metis (full_types))
  obtain b2 e2 where 2: "write_all os (ci_fd c1) (build_group_packet et ga apdu) e1 = Some (b2, e2)"
    using wr by blast
  obtain b3 c3 e3 where 3: "client_reconnect os et (c1, e2) = Some (b3, c3, e3)" using rec by blast
  obtain b4 e4 where 4: "write_all os (ci_fd c3) (build_group_packet et ga apdu) e3 = Some (b4, e4)"
    using wr by blast
  show ?thesis unfolding k client_send_group_packet.simps Let_def 1 by (simp add: 2 3 4) blast
qed

lemma fetch_message_extracted:
  "fetch_message os k = (Some m, k') \<Longrightarrow> \<exists>b b'. try_extract_message b = (Some m, b')"
  by (auto simp: fetch_message_def split: prod.splits dest: read_message_extracted)

lemma fetch_or_reconnect_returns:
  assumes "os_live os sent m"
  shows "\<exists>msg k'. fetch_or_reconnect os et k = Some (msg, k') \<and>
     (\<forall>x. msg = Some x \<longrightarrow> (\<exists>b b'. try_extract_message b = (Some x, b')))"
proof -
  obtain m1 c e where 1: "fetch_message os k = (m1, c, e)" by (cases "fetch_message os k") auto
  obtain p v where p: "os_poll os (ci_fd c) PollNone 0 e = (p, v)" by (cases "os_poll os (ci_fd c) PollNone 0 e")
  obtain b2 k2 where 2: "client_reconnect os et (c, v) = Some (b2, k2)"
    using client_reconnect_returns [OF assms] by blast
  obtain m3 k3 where 3: "fetch_message os k2 = (m3, k3)" by (cases "fetch_message os k2")
  show ?thesis
    using fetch_message_extracted [of os k] fetch_message_extracted [of os k2] 1 3
    by (simp add: fetch_or_reconnect_def p 2 split: option.split sysret.split)
qed

lemma client_poll_returns:
  assumes "os_live os sent m"
  shows "\<exists>tg k'. client_poll_group_telegram os et k = Some (tg, k')"
proof -
  obtain c e where k: "k = (c, e)" by (cases k)
  obtain b1 k1 where 1: "(if \<not> client_is_connected (c, e) then client_reconnect os et (c, e) else Some (True, c, e))
      = Some (b1, k1)"
    using client_reconnect_returns [OF assms] by (metis (full_types))
  obtain msg c2 e2 where 2: "fetch_or_reconnect os et k1 = Some (msg, c2, e2)"
    "\<forall>x. msg = Some x \<longrightarrow> (\<exists>b b'. try_extract_message b = (Some x, b'))"
    using fetch_or_reconnect_returns [OF assms, of et k1] by auto
  have "\<exists>tg c'. count_telegram et msg c2 = Some (tg, c')"
    using 2(2) parse_defined by (cases msg) (fastforce split: option.split)+
  then show ?thesis unfolding k client_poll_group_telegram.simps 1 by (auto simp: 2(1))
qed

section \<open>Sending\<close>

lemma rate_limit_clock:
  assumes "clock_law os" "ci_last_group_write c > 0"
  shows "ci_last_group_write c + kMinWriteInterval \<le> os_clock os (rate_limit os c e)"
proof -
  have "os_clock os e + max 0 d \<le> os_clock os (os_sleep os d e)" for d
    using clock_lawD(10) [OF assms(1)] .
  from this [of "kMinWriteInterval - (os_clock os e - ci_last_group_write c)"] assms(2) show ?thesis
    by (auto simp: rate_limit_def Let_def)
qed

lemma client_send_True:
  assumes "client_send_group_packet os et ga apdu (c, e) = Some (True, c', e')"
  obtains v where "write_all os (ci_fd c') (build_group_packet et ga apdu) v = Some (True, e')"
    "os_reaches os (rate_limit os c e) v" "ci_last_group_write c' = os_clock os e'"
proof -
  let ?e = "rate_limit os c e" and ?p = "build_group_packet et ga apdu"
  have "\<exists>v. write_all os (ci_fd c') ?p v = Some (True, e') \<and> os_reaches os ?e v \<and>
      ci_last_group_write c' = os_clock os e'"
    using assms
    by (auto simp: client_send_group_packet.simps Let_def bind_eq_Some_conv split: if_splits)
      (blast intro: io_reaches(1) client_reconnect_reaches reaches_refl)+
  then show thesis using that by blast
qed


section \<open>A concrete operating system\<close>

text \<open>
  A small operating system that obeys all the laws: one peer whose bytes arrive three at a time, a
  send buffer that takes two bytes per call and is full for the first few calls, and a clock that a
  poll or a sleep moves.
\<close>

record loopback =
  lb_sent :: "int \<Rightarrow> bytes"
  lb_input :: bytes
  lb_busy :: nat
  lb_clock :: int

definition lb_poll :: "int \<Rightarrow> poll_events \<Rightarrow> int \<Rightarrow> loopback \<Rightarrow> revents option sysret \<times> loopback" where
  "lb_poll fd ev t e =
     (Ok (if ev = PollIn \<and> lb_input e = [] then None
          else Some \<lparr>rv_in = (lb_input e \<noteq> []), rv_hup = False, rv_err = False, rv_nval = False\<rparr>),
      e\<lparr>lb_clock := lb_clock e + 1\<rparr>)"

definition lb_read :: "int \<Rightarrow> nat \<Rightarrow> loopback \<Rightarrow> bytes sysret \<times> loopback" where
  "lb_read fd n e =
     (if lb_input e = [] then (Errno EAGAIN, e)
      else (Ok (take (min 3 n) (lb_input e)), e\<lparr>lb_input := drop (min 3 n) (lb_input e)\<rparr>))"

definition lb_write :: "int \<Rightarrow> bytes \<Rightarrow> loopback \<Rightarrow> nat sysret \<times> loopback" where
  "lb_write fd bs e =
     (if lb_busy e > 0 then (Errno EAGAIN, e\<lparr>lb_busy := lb_busy e - 1\<rparr>)
      else (Ok (min 2 (length bs)), e\<lparr>lb_sent := (lb_sent e)(fd := lb_sent e fd @ take 2 bs)\<rparr>))"

definition loopback_os :: "loopback os" where
  "loopback_os = \<lparr>
     os_sun_path_size = 108,
     os_socket = (\<lambda>e. (7, e)),
     os_connect = (\<lambda>fd p e. (Ok (), e)),
     os_so_error = (\<lambda>fd e. (Ok 0, e)),
     os_getfl = (\<lambda>fd e. (Ok False, e)),
     os_setfl = (\<lambda>fd b e. e),
     os_poll = lb_poll,
     os_close = (\<lambda>fd e. e),
     os_read = lb_read,
     os_write = lb_write,
     os_clock = lb_clock,
     os_sleep = (\<lambda>d e. e\<lparr>lb_clock := lb_clock e + max 0 d\<rparr>)\<rparr>"

definition loopback_env :: "bytes \<Rightarrow> nat \<Rightarrow> loopback" where
  "loopback_env input busy = \<lparr>lb_sent = (\<lambda>_. []), lb_input = input, lb_busy = busy, lb_clock = 1\<rparr>"

lemma loopback_write_law: "write_law loopback_os lb_sent"
  by (simp add: write_law_def loopback_os_def lb_write_def lb_poll_def min_def)

lemma loopback_progress: "write_progress loopback_os lb_busy"
  by (auto simp: write_progress_def loopback_os_def lb_write_def lb_poll_def)

lemma loopback_read_law: "read_law loopback_os (\<lambda>e _. lb_input e)"
  by (simp add: read_law_def loopback_os_def lb_read_def min.coboundedI2)

lemma loopback_clock: "clock_law loopback_os"
  by (auto simp: clock_law_def loopback_os_def lb_write_def lb_poll_def lb_read_def)

lemma loopback_live: "os_live loopback_os lb_sent lb_busy"
  by (simp add: os_live_def loopback_write_law loopback_progress loopback_clock)

section \<open>Properties of the client\<close>

text \<open>
  (C13) \<^verbatim>\<open>write_all\<close> returns, and the stream of the socket grows by exactly the data when the result is
  true and by a proper prefix of it when the result is false; no byte is repeated, skipped or
  reordered, whatever partial writes, interruptions and full buffers occur.
\<close>

theorem write_all_exact:
  assumes "write_law os sent" "write_progress os m"
  shows "\<exists>b e' k. write_all os fd data e = Some (b, e') \<and> k \<le> length data \<and> (b \<longleftrightarrow> k = length data) \<and>
    sent e' = (sent e)(fd := sent e fd @ take k data)"
  using write_all_wrote [OF assms, of fd data e] by metis

theorem write_all_exact_witness:
  "\<exists>b e' k. write_all loopback_os 7 [1, 2, 3, 4, 5] (loopback_env [] 2) = Some (b, e') \<and>
     k \<le> length [1, 2, 3, 4, 5 :: byte] \<and> (b \<longleftrightarrow> k = length [1, 2, 3, 4, 5 :: byte]) \<and>
     lb_sent e' = (lb_sent (loopback_env [] 2))(7 := lb_sent (loopback_env [] 2) 7 @ take k [1, 2, 3, 4, 5])"
  using write_all_exact [OF loopback_write_law loopback_progress] .

text \<open>
  (C12) Reassembly: whatever repeated reads obtain from a stream of framed messages are the first
  messages of the stream, each complete and one per call, and the later messages are still there, in
  the buffer or in the socket: for every way the stream is cut into reads, none is torn, lost or
  duplicated.
\<close>

theorem messages_reassembled:
  assumes "read_law os pending" "buffer @ pending e fd = concat (wire ms) @ rest"
    and "list_all (\<lambda>(t, d). length d < 65534) ms" "n \<le> length ms"
    and "read_batch os fd n buffer e = (out, buffer', e')"
  shows "out = take (length out) (wire ms) \<and>
    buffer' @ pending e' fd = concat (drop (length out) (wire ms)) @ rest"
  using read_batch_prefix [OF assms(1,2) _ assms(4,5)] assms(3) by (simp add: list_all_iff)

theorem messages_reassembled_witness:
  "fst (read_batch loopback_os 7 2 [0, 5]
     (loopback_env [0, 0x27, 1, 2, 3, 0, 2, 0, 0x26, 9] 0)) =
   take (length (fst (read_batch loopback_os 7 2 [0, 5]
     (loopback_env [0, 0x27, 1, 2, 3, 0, 2, 0, 0x26, 9] 0))))
     [build_eibd_message 0x27 [1, 2, 3], build_eibd_message 0x26 []]"
proof -
  let ?e = "loopback_env [0, 0x27, 1, 2, 3, 0, 2, 0, 0x26, 9] 0"
  obtain out b e' where r: "read_batch loopback_os 7 2 [0, 5] ?e = (out, b, e')"
    by (cases "read_batch loopback_os 7 2 [0, 5] ?e") auto
  have "[0, 5] @ (\<lambda>e _. lb_input e) ?e (7 :: int) = concat (wire [(0x27, [1, 2, 3]), (0x26, [])]) @ [9]"
    by (simp add: loopback_env_def) code_simp
  from messages_reassembled [OF loopback_read_law this _ _ r] show ?thesis by (simp add: r)
qed



text \<open>
  (C25) A send that reports success has put the whole packet on the socket as its last action, and has
  kept the distance of 50 ms to the previous one; the time of the write is remembered.
\<close>

theorem send_delivers_and_paces:
  assumes "write_law os sent" "write_progress os m" "clock_law os"
    and "client_send_group_packet os et ga apdu (c, e) = Some (True, c', e')"
  shows "(\<exists>v. os_reaches os (rate_limit os c e) v \<and>
      sent e' (ci_fd c') = sent v (ci_fd c') @ build_group_packet et ga apdu) \<and>
    (ci_last_group_write c > 0 \<longrightarrow> ci_last_group_write c' \<ge> ci_last_group_write c + 50 * 1000000)"
proof -
  obtain v where v: "write_all os (ci_fd c') (build_group_packet et ga apdu) v = Some (True, e')"
    "os_reaches os (rate_limit os c e) v" "ci_last_group_write c' = os_clock os e'"
    using client_send_True [OF assms(4)] .
  have "sent e' (ci_fd c') = sent v (ci_fd c') @ build_group_packet et ga apdu"
    using write_all_wrote [OF assms(1,2), of "ci_fd c'" "build_group_packet et ga apdu" v] v(1) by force
  moreover have "os_clock os (rate_limit os c e) \<le> os_clock os e'"
    using reaches_clock [OF client_send_reaches [OF assms(4)] assms(3)] .
  ultimately show ?thesis
    using v(2,3) rate_limit_clock [OF assms(3), of c e] by (auto simp: kMinWriteInterval_def)
qed

abbreviation example_types :: eib_types where
  "example_types \<equiv> \<lparr>eib_open_groupcon = 0x26, eib_group_packet = 0x27, eib_apdu_packet = 0x25\<rparr>"

abbreviation example_client :: client_impl where
  "example_client \<equiv> new_client_impl\<lparr>ci_fd := 7, ci_group_socket_open := True, ci_last_group_write := 1\<rparr>"

lemma example_packet: "build_group_packet example_types 0x0A03 [0, 0x81] = [0, 6, 0, 0x27, 0x0A, 0x03, 0, 0x81]"
  by code_simp

theorem send_delivers_and_paces_witness:
  "\<exists>c' e'. client_send_group_packet loopback_os example_types 0x0A03 [0, 0x81] (example_client, loopback_env [] 0)
       = Some (True, c', e') \<and>
     ci_last_group_write c' \<ge> ci_last_group_write example_client + 50 * 1000000"
proof -
  have "\<exists>k'. client_send_group_packet loopback_os example_types 0x0A03 [0, 0x81] (example_client, loopback_env [] 0)
      = Some (True, k')"
    by (simp add: client_send_group_packet.simps new_client_impl_def client_is_connected_def example_packet
        write_all_def write_all_loop.simps rate_limit_def loopback_os_def lb_write_def loopback_env_def
        kMinWriteInterval_def Let_def)
  then obtain c' e' where s: "client_send_group_packet loopback_os example_types 0x0A03 [0, 0x81]
      (example_client, loopback_env [] 0) = Some (True, c', e')" by fast
  from send_delivers_and_paces [OF loopback_write_law loopback_progress loopback_clock s] s show ?thesis by auto
qed

text \<open>
  What \<^verbatim>\<open>wait_for_activity\<close> reports: a client without a socket, a failed poll and a socket that has
  hung up are errors, even when there is also data to read; interruption and timeout are a timeout.
  The client's own state does not change.
\<close>

lemma wait_for_activity_reports:
  "client_wait_for_activity os t (c, e) =
     (if ci_fd c < 0 then (WaitError, c, e)
      else let (r, e') = os_poll os (ci_fd c) PollIn t e in
        (case r of
           Errno x \<Rightarrow> if x = EINTR then Timeout else WaitError
         | Ok None \<Rightarrow> Timeout
         | Ok (Some rv) \<Rightarrow>
             if rv_hup rv \<or> rv_err rv \<or> rv_nval rv then WaitError
             else if rv_in rv then GroupData else Timeout, c, e'))"
  by (auto simp: client_wait_for_activity.simps Let_def split: prod.split sysret.split option.split errno.split)

text \<open>
  After \<^verbatim>\<open>connect\<close> the client is connected exactly when the call succeeded, with one exception: a
  socket path that does not fit into the address structure fails and leaves the new socket open.
\<close>

lemma connect_outcome:
  assumes "client_connect os path (c, e) = (b, c', e')"
  shows "client_is_connected (c', e') \<longleftrightarrow> b \<or> (os_sun_path_size os \<le> length path \<and> ci_fd c' \<ge> 0)"
  using assms
proof (cases rule: client_connect_cases)
  case (attempt c1 fd flags w)
  let ?k = "(c1\<lparr>ci_fd := fd, ci_socket_path := path\<rparr>, w)"
  show ?thesis
    using finish_connect_state(1,4) [of os path flags ?k] attempt
    by (cases b) (auto simp: client_is_connected_def)
qed (auto simp: client_is_connected_def)

lemma connect_outcome_witness:
  "client_is_connected (snd (client_connect loopback_os ''/run/knx'' (new_client_impl, loopback_env [] 0)))"
proof -
  obtain b c' e' where r: "client_connect loopback_os ''/run/knx'' (new_client_impl, loopback_env [] 0) = (b, c', e')"
    by (cases "client_connect loopback_os ''/run/knx'' (new_client_impl, loopback_env [] 0)") auto
  moreover from r have b
    by (auto simp: client_connect.simps finish_connect.simps restore_blocking.simps loopback_os_def new_client_impl_def Let_def)
  ultimately show ?thesis using connect_outcome [OF r] by simp
qed

lemma connect_long_path_leaves_socket:
  "client_connect loopback_os (replicate 108 (CHR ''x'')) (new_client_impl, e) = (False, new_client_impl\<lparr>ci_fd := 7\<rparr>, e)"
  by (simp add: client_connect.simps loopback_os_def new_client_impl_def Let_def)

text \<open>
  A message that is not a telegram ends the poll although the buffer holds a complete telegram behind
  it; the socket has nothing more to report, so the telegram waits for the next one.
\<close>

lemma telegram_behind_other_message:
  assumes "length d < 65534"
  shows "fetch_message os (c\<lparr>ci_read_buffer := build_eibd_message t d @ rest\<rparr>, e) =
    (Some (build_eibd_message t d), c\<lparr>ci_read_buffer := rest\<rparr>, e)"
  by (simp add: fetch_message_def read_message_unfold(1) [OF try_extract_build_append [OF assms]])

end
