(* ===== verification/Cache_Reader.thy ===== *)
theory Cache_Reader
  imports Backoff Knxd_Client Mock_Client Shared_Group_Cache "HOL-Library.Signed_Division"
begin

text \<open>
  \<^verbatim>\<open>src/knxd/cache_reader.cpp\<close>: the process that pumps group telegrams from knxd into the shared
  cache.  Its surroundings (the stop flag, clocks, sleeping, the outcome of the cache's lock) are a
  record of functions over a state of their own.
\<close>

record 's reader_env =
  re_should_stop :: "('s \<Rightarrow> bool \<times> 's) option"
  re_now :: "'s \<Rightarrow> int \<times> 's"
  re_nanosleep :: "int \<times> int \<Rightarrow> 's \<Rightarrow> 's"
  re_epoch :: "'s \<Rightarrow> u32"
  re_lock :: "'s \<Rightarrow> lock_result \<times> 's"

record cache_reader_options =
  cro_socket_path :: string
  cro_wait_timeout_ms :: int
  cro_reconnect_backoff_ms :: int
  cro_max_reconnect_backoff_ms :: int
  cro_sleep_slice_ms :: int

definition default_reader_options :: cache_reader_options where
  "default_reader_options = \<lparr>cro_socket_path = ''/run/knx'', cro_wait_timeout_ms = 1000,
     cro_reconnect_backoff_ms = 500, cro_max_reconnect_backoff_ms = 30000, cro_sleep_slice_ms = 100\<rparr>"

definition kRetryLogIntervalMs :: int where
  "kRetryLogIntervalMs = 30000"

datatype reader_log = Cannot_connect int | Restored | Lost int

record ('k, 's) reader =
  rd_knxd :: 'k
  rd_cache :: shared_group_cache
  rd_env :: 's
  rd_backoff_ms :: int
  rd_connected :: bool
  rd_logged_failure :: bool
  rd_last_log :: int
  rd_log :: "reader_log list"

definition stop_requested :: "'s reader_env \<Rightarrow> 's \<Rightarrow> bool \<times> 's" where
  "stop_requested env s = (case re_should_stop env of None \<Rightarrow> (False, s) | Some f \<Rightarrow> f s)"

text \<open>The sleep in slices; the result lists the slices that were slept.\<close>

definition slice_timespec :: "int \<Rightarrow> int \<times> int" where
  "slice_timespec chunk = (chunk div 1000, (chunk mod 1000) * 1000000)"

function sleep_loop :: "'s reader_env \<Rightarrow> int \<Rightarrow> int \<Rightarrow> 's \<Rightarrow> int list \<times> 's" where
  "sleep_loop env slice_ms remaining s =
     (if remaining > 0 then
        let (stop, s) = stop_requested env s in
        if stop then ([], s)
        else
          let chunk = min remaining (max 1 slice_ms);
              (chunks, s) = sleep_loop env slice_ms (remaining - chunk) (re_nanosleep env (slice_timespec chunk) s)
          in (chunk # chunks, s)
      else ([], s))"
  by pat_completeness auto
termination
  by (relation "measure (\<lambda>(_, _, remaining, _). nat remaining)") auto

declare sleep_loop.simps [simp del]

definition sleep_interruptible :: "'s reader_env \<Rightarrow> int \<Rightarrow> int \<Rightarrow> 's \<Rightarrow> int list \<times> 's" where
  "sleep_interruptible env duration_ms slice_ms s = sleep_loop env slice_ms duration_ms s"

partial_function (option) drain_loop ::
    "'k knxd_ops \<Rightarrow> 's reader_env \<Rightarrow> nat \<Rightarrow> ('k, 's) reader \<Rightarrow> (nat \<times> ('k, 's) reader) option" where
  "drain_loop ops env pushed r = do {
     (tg, k) \<leftarrow> kc_poll_group_telegram ops (rd_knxd r);
     let r = r\<lparr>rd_knxd := k\<rparr>;
     case tg of
       None \<Rightarrow> Some (pushed, r)
     | Some (addr, apdu) \<Rightarrow>
         (case parse_apdu apdu of
            None \<Rightarrow> drain_loop ops env pushed r
          | Some (apdu_type, value_data) \<Rightarrow>
              if apdu_type = ApduRead then drain_loop ops env pushed r
              else
                let (lock, s) = re_lock env (rd_env r)
                in drain_loop ops env (pushed + 1)
                     (r\<lparr>rd_cache := sgc_push lock (re_epoch env s) addr value_data (rd_cache r),
                        rd_env := s\<rparr>))
   }"

definition drain_telegrams ::
    "'k knxd_ops \<Rightarrow> 's reader_env \<Rightarrow> ('k, 's) reader \<Rightarrow> (nat \<times> ('k, 's) reader) option" where
  "drain_telegrams ops env r = drain_loop ops env 0 r"

section \<open>The main loop\<close>

definition initial_backoff_ms :: "cache_reader_options \<Rightarrow> int" where
  "initial_backoff_ms opts = max 1 (cro_reconnect_backoff_ms opts)"

definition max_backoff_ms :: "cache_reader_options \<Rightarrow> int" where
  "max_backoff_ms opts = max (initial_backoff_ms opts) (cro_max_reconnect_backoff_ms opts)"

definition wait_timeout_ms :: "cache_reader_options \<Rightarrow> int" where
  "wait_timeout_ms opts = max 1 (cro_wait_timeout_ms opts)"

definition log_retry :: "'s reader_env \<Rightarrow> ('k, 's) reader \<Rightarrow> ('k, 's) reader" where
  "log_retry env r =
     (let (now, s) = re_now env (rd_env r);
          r = r\<lparr>rd_env := s\<rparr>;
          due = (\<not> rd_logged_failure r \<or> (now - rd_last_log r) sdiv 1000000 \<ge> kRetryLogIntervalMs)
      in if due then r\<lparr>rd_log := rd_log r @ [Cannot_connect now], rd_last_log := now,
                       rd_logged_failure := True\<rparr>
         else r)"

text \<open>The backoff that ends a failed round: sleep, then double up to the maximum.\<close>

definition back_off :: "'s reader_env \<Rightarrow> cache_reader_options \<Rightarrow> ('k, 's) reader \<Rightarrow> int list \<times> ('k, 's) reader" where
  "back_off env opts r =
     (let (chunks, s) = sleep_interruptible env (rd_backoff_ms r) (cro_sleep_slice_ms opts) (rd_env r)
      in (chunks, r\<lparr>rd_env := s, rd_backoff_ms := min (rd_backoff_ms r * 2) (max_backoff_ms opts)\<rparr>))"

definition connect_round ::
    "'k knxd_ops \<Rightarrow> 's reader_env \<Rightarrow> cache_reader_options \<Rightarrow> ('k, 's) reader \<Rightarrow> (int list \<times> ('k, 's) reader) option" where
  "connect_round ops env opts r = do {
     (connected, k) \<leftarrow> kc_connect ops (cro_socket_path opts) (rd_knxd r);
     (opened, k) \<leftarrow> (if connected then kc_open_group_socket ops False k else Some (False, k));
     if opened then
       let r = r\<lparr>rd_knxd := kc_set_nonblocking ops True k, rd_connected := True,
                 rd_backoff_ms := initial_backoff_ms opts\<rparr>
       in Some ([], if rd_logged_failure r
                    then r\<lparr>rd_log := rd_log r @ [Restored], rd_logged_failure := False\<rparr> else r)
     else
       let r = log_retry env (r\<lparr>rd_knxd := kc_disconnect ops k\<rparr>)
       in Some (back_off env opts r)
   }"

definition wait_round ::
    "'k knxd_ops \<Rightarrow> 's reader_env \<Rightarrow> cache_reader_options \<Rightarrow> ('k, 's) reader \<Rightarrow> (int list \<times> ('k, 's) reader) option" where
  "wait_round ops env opts r =
     (let (w, k) = kc_wait_for_activity ops (wait_timeout_ms opts) (rd_knxd r);
          r = r\<lparr>rd_knxd := k\<rparr>
      in case w of
           GroupData \<Rightarrow> do {
             (pushed, r) \<leftarrow> drain_telegrams ops env r;
             Some ([], if pushed > 0 then r\<lparr>rd_backoff_ms := initial_backoff_ms opts\<rparr> else r)
           }
         | Timeout \<Rightarrow> Some ([], r)
         | WaitError \<Rightarrow>
             let (now, s) = re_now env (rd_env r);
                 r = r\<lparr>rd_log := rd_log r @ [Lost now], rd_logged_failure := True, rd_last_log := now,
                       rd_env := s, rd_knxd := kc_disconnect ops (rd_knxd r), rd_connected := False\<rparr>
             in Some (back_off env opts r))"

text \<open>One round of the loop; the list holds the milliseconds slept in it, slice by slice.\<close>

definition reader_round ::
    "'k knxd_ops \<Rightarrow> 's reader_env \<Rightarrow> cache_reader_options \<Rightarrow> ('k, 's) reader \<Rightarrow> (int list \<times> ('k, 's) reader) option" where
  "reader_round ops env opts r =
     (if \<not> rd_connected r then connect_round ops env opts r else wait_round ops env opts r)"

partial_function (option) reader_loop ::
    "'k knxd_ops \<Rightarrow> 's reader_env \<Rightarrow> cache_reader_options \<Rightarrow> ('k, 's) reader \<Rightarrow> ('k, 's) reader option" where
  "reader_loop ops env opts r =
     (let (stop, s) = stop_requested env (rd_env r);
          r = r\<lparr>rd_env := s\<rparr>
      in if stop then Some r
         else do {
           (_, r) \<leftarrow> reader_round ops env opts r;
           reader_loop ops env opts r
         })"

definition start_reader :: "cache_reader_options \<Rightarrow> 'k \<Rightarrow> shared_group_cache \<Rightarrow> 's \<Rightarrow> ('k, 's) reader" where
  "start_reader opts k cache s = \<lparr>rd_knxd = k, rd_cache = cache, rd_env = s,
     rd_backoff_ms = initial_backoff_ms opts, rd_connected = False, rd_logged_failure = False,
     rd_last_log = 0, rd_log = []\<rparr>"

definition run_cache_reader ::
    "'k knxd_ops \<Rightarrow> 's reader_env \<Rightarrow> cache_reader_options \<Rightarrow> 'k \<Rightarrow> shared_group_cache \<Rightarrow> 's \<Rightarrow> ('k, 's) reader option" where
  "run_cache_reader ops env opts k cache s = reader_loop ops env opts (start_reader opts k cache s)"


section \<open>Sleeping\<close>

lemma sleep_loop_step:
  assumes "remaining > 0" "stop_requested env s = (False, s1)"
    and "sleep_loop env slice_ms (remaining - min remaining (max 1 slice_ms))
      (re_nanosleep env (slice_timespec (min remaining (max 1 slice_ms))) s1) = (cs, s2)"
  shows "sleep_loop env slice_ms remaining s = (min remaining (max 1 slice_ms) # cs, s2)"
  by (subst sleep_loop.simps) (use assms in \<open>simp add: Let_def\<close>)

lemma sleep_loop_stop:
  "remaining \<le> 0 \<or> fst (stop_requested env s) \<Longrightarrow> fst (sleep_loop env slice_ms remaining s) = []"
  by (subst sleep_loop.simps) (auto simp: Let_def split: prod.split)

lemma sleep_loop_chunks:
  "(\<forall>c \<in> set (fst (sleep_loop env slice_ms remaining s)). 1 \<le> c \<and> c \<le> max 1 slice_ms) \<and>
   sum_list (fst (sleep_loop env slice_ms remaining s)) \<le> max 0 remaining \<and>
   ((\<forall>s. \<not> fst (stop_requested env s)) \<longrightarrow> sum_list (fst (sleep_loop env slice_ms remaining s)) = max 0 remaining)"
proof (induction "nat remaining" arbitrary: remaining s rule: less_induct)
  case less
  show ?case
  proof (cases "remaining > 0 \<and> \<not> fst (stop_requested env s)")
    case True
    then obtain s1 where s1: "stop_requested env s = (False, s1)" by (cases "stop_requested env s") auto
    let ?c = "min remaining (max 1 slice_ms)"
    let ?s = "re_nanosleep env (slice_timespec ?c) s1"
    obtain cs s2 where 2: "sleep_loop env slice_ms (remaining - ?c) ?s = (cs, s2)"
      by (cases "sleep_loop env slice_ms (remaining - ?c) ?s")
    have "nat (remaining - ?c) < nat remaining" using True by linarith
    from less(1) [OF this, of ?s] True show ?thesis
      unfolding sleep_loop_step [OF _ s1 2, OF conjunct1 [OF True]] 2 fst_conv by auto
  next
    case False
    then show ?thesis using sleep_loop_stop [of remaining env s slice_ms] by auto
  qed
qed

lemma slice_timespec_ns:
  "0 \<le> chunk \<Longrightarrow> fst (slice_timespec chunk) * 1000000000 + snd (slice_timespec chunk) = chunk * 1000000 \<and>
     0 \<le> snd (slice_timespec chunk) \<and> snd (slice_timespec chunk) < 1000000000"
  unfolding slice_timespec_def fst_conv snd_conv
  using div_mult_mod_eq [of chunk 1000] pos_mod_bound [of 1000 chunk] pos_mod_sign [of 1000 chunk]
  by linarith

section \<open>Draining\<close>

text \<open>\<open>delivers ops k tgs k'\<close>: polling the client yields the telegrams \<open>tgs\<close> and then none.\<close>

inductive delivers :: "'k knxd_ops \<Rightarrow> 'k \<Rightarrow> (u16 \<times> bytes) list \<Rightarrow> 'k \<Rightarrow> bool" for ops where
  delivers_none: "kc_poll_group_telegram ops k = Some (None, k') \<Longrightarrow> delivers ops k [] k'"
| delivers_next: "kc_poll_group_telegram ops k = Some (Some tg, k1) \<Longrightarrow> delivers ops k1 tgs k' \<Longrightarrow>
    delivers ops k (tg # tgs) k'"

inductive_simps delivers_Nil: "delivers ops k [] k'"
inductive_simps delivers_Cons: "delivers ops k (tg # tgs) k'"

text \<open>The values the telegrams carry: those of writes, responses and unknown services, not of reads.\<close>

fun telegram_values :: "(u16 \<times> bytes) list \<Rightarrow> (u16 \<times> bytes) list" where
  "telegram_values [] = []"
| "telegram_values ((addr, apdu) # tgs) =
     (case parse_apdu apdu of
        Some (apdu_type, v) \<Rightarrow> if apdu_type = ApduRead then telegram_values tgs else (addr, v) # telegram_values tgs
      | None \<Rightarrow> telegram_values tgs)"

definition lock_works :: "'s reader_env \<Rightarrow> bool" where
  "lock_works env \<longleftrightarrow> (\<forall>s. lock_acquired (fst (re_lock env s)))"

lemma sgc_push_acquired: "lock_acquired lock \<Longrightarrow> sgc_push lock t a v c = sgc_push Lock_ok t a v c"
  by (simp add: sgc_push_def split: option.split)

text \<open>Everything of the reader but the client, the cache and the surroundings.\<close>

definition same_control :: "('k, 's) reader \<Rightarrow> ('k, 's) reader \<Rightarrow> bool" where
  "same_control r r' \<longleftrightarrow> rd_backoff_ms r' = rd_backoff_ms r \<and> rd_connected r' = rd_connected r \<and>
     rd_logged_failure r' = rd_logged_failure r \<and> rd_last_log r' = rd_last_log r \<and> rd_log r' = rd_log r"

lemma drain_loop_delivers:
  assumes "delivers ops k tgs k'" "lock_works env" "rd_knxd r = k"
  shows "\<exists>r' ps. drain_loop ops env pushed r = Some (pushed + length (telegram_values tgs), r') \<and>
    rd_knxd r' = k' \<and> same_control r r' \<and> map snd ps = telegram_values tgs \<and>
    rd_cache r' = push_all (sgc_push Lock_ok) ps (rd_cache r)"
  using assms
proof (induction arbitrary: pushed r rule: delivers.induct)
  case (delivers_none k k')
  then show ?case by (subst drain_loop.simps) (simp add: same_control_def)
next
  case (delivers_next k tg k1 tgs k')
  obtain addr apdu where tg: "tg = (addr, apdu)" by (cases tg)
  let ?r = "r\<lparr>rd_knxd := k1\<rparr>"
  obtain lock s where lock: "re_lock env (rd_env r) = (lock, s)" by (cases "re_lock env (rd_env r)")
  have ok: "lock_acquired lock" using delivers_next.prems(1) lock by (metis fst_conv lock_works_def)
  show ?case
  proof (cases "parse_apdu apdu = None \<or> (\<exists>v. parse_apdu apdu = Some (ApduRead, v))")
    case True
    have eq: "drain_loop ops env pushed r = drain_loop ops env pushed ?r"
      by (subst drain_loop.simps) (use True delivers_next tg in auto)
    have vs: "telegram_values (tg # tgs) = telegram_values tgs" using True tg by auto
    show ?thesis
      using delivers_next.IH [OF delivers_next.prems(1), of ?r pushed] unfolding eq vs
      by (simp add: same_control_def)
  next
    case False
    then obtain t v where v: "parse_apdu apdu = Some (t, v)" "t \<noteq> ApduRead" by auto
    let ?p = "(re_epoch env s, addr, v)"
    let ?r2 = "?r\<lparr>rd_cache := sgc_push lock (re_epoch env s) addr v (rd_cache r), rd_env := s\<rparr>"
    have eq: "drain_loop ops env pushed r = drain_loop ops env (Suc pushed) ?r2"
      by (subst drain_loop.simps) (use delivers_next tg v lock in \<open>simp add: Let_def\<close>)
    have k1: "rd_knxd ?r2 = k1" by simp
    obtain r' ps where IH: "drain_loop ops env (Suc pushed) ?r2 = Some (Suc pushed + length (telegram_values tgs), r')"
      "rd_knxd r' = k'" "same_control ?r2 r'" "map snd ps = telegram_values tgs"
      "rd_cache r' = push_all (sgc_push Lock_ok) ps (rd_cache ?r2)"
      using delivers_next.IH [OF delivers_next.prems(1) k1, of "Suc pushed"] by blast
    have vs: "telegram_values (tg # tgs) = (addr, v) # telegram_values tgs" using v tg by simp
    have "push_all (sgc_push Lock_ok) (?p # ps) (rd_cache r) = rd_cache r'"
      using IH(5) by (simp add: sgc_push_acquired [OF ok])
    moreover have "same_control r r'" using IH(3) by (simp add: same_control_def)
    moreover have "map snd (?p # ps) = telegram_values (tg # tgs)" using IH(4) vs by simp
    moreover have "drain_loop ops env pushed r = Some (pushed + length (telegram_values (tg # tgs)), r')"
      using IH(1) eq vs by simp
    ultimately show ?thesis using IH(2) by metis
  qed
qed


section \<open>Backoff and the control state\<close>

interpretation rb: doubling_backoff rd_backoff_ms "\<lambda>r. snd (back_off env opts r)" "max_backoff_ms opts"
  for env :: "'s reader_env" and opts
  by unfold_locales (simp add: back_off_def case_prod_unfold Let_def)

definition backoff_ok :: "cache_reader_options \<Rightarrow> ('k, 's) reader \<Rightarrow> bool" where
  "backoff_ok opts r \<longleftrightarrow> initial_backoff_ms opts \<le> rd_backoff_ms r \<and> rd_backoff_ms r \<le> max_backoff_ms opts"

lemma backoff_options [simp]:
  "1 \<le> initial_backoff_ms opts" "0 < initial_backoff_ms opts" "initial_backoff_ms opts \<le> max_backoff_ms opts"
  by (simp_all add: initial_backoff_ms_def max_backoff_ms_def)

lemma backoff_ok_start: "backoff_ok opts (start_reader opts k cache s)"
  by (simp add: backoff_ok_def start_reader_def)

lemma backoff_ok_back_off:
  assumes "backoff_ok opts r" "rd_backoff_ms r' = rd_backoff_ms r"
  shows "backoff_ok opts (snd (back_off env opts r'))"
  using rb.failure_bounds [of "initial_backoff_ms opts" r' opts env] assms by (simp add: backoff_ok_def)

lemma back_off_sleeps:
  assumes "backoff_ok opts r" "\<forall>s. \<not> fst (stop_requested env s)"
  shows "sum_list (fst (back_off env opts r)) = rd_backoff_ms r"
proof -
  have "0 \<le> rd_backoff_ms r" using assms(1) backoff_options(2) [of opts] unfolding backoff_ok_def by linarith
  moreover have "fst (back_off env opts r) = fst (sleep_loop env (cro_sleep_slice_ms opts) (rd_backoff_ms r) (rd_env r))"
    by (simp add: back_off_def sleep_interruptible_def case_prod_unfold Let_def)
  ultimately show ?thesis
    using sleep_loop_chunks [of env "cro_sleep_slice_ms opts" "rd_backoff_ms r" "rd_env r"] assms(2) by simp
qed

lemma back_off_connected [simp]: "rd_connected (snd (back_off env opts r)) = rd_connected r"
  by (simp add: back_off_def case_prod_unfold Let_def)

lemma log_retry_control [simp]:
  "rd_backoff_ms (log_retry env r) = rd_backoff_ms r" "rd_connected (log_retry env r) = rd_connected r"
  by (simp_all add: log_retry_def case_prod_unfold Let_def)

text \<open>Draining leaves the control state alone, whatever the client delivers.\<close>

lemma drain_loop_control:
  assumes ret: "drain_loop ops env pushed r = Some res"
  shows "same_control r (snd res)"
proof (rule drain_loop.raw_induct [where P = "\<lambda>ops env pushed r res. same_control r (snd res)", OF _ ret], goal_cases)
  case (1 loop ops env pushed r res)
  have IH: "loop ops env n x = Some res \<Longrightarrow> same_control x (snd res)" for n x by (rule 1(1))
  obtain tg k where k: "kc_poll_group_telegram ops (rd_knxd r) = Some (tg, k)"
    using 1(2) by (auto simp: bind_eq_Some_conv)
  obtain lock s where lock: "re_lock env (rd_env r) = (lock, s)" by (cases "re_lock env (rd_env r)")
  show ?case
  proof (cases tg)
    case None
    then show ?thesis using 1(2) k by (auto simp: same_control_def)
  next
    case (Some t)
    obtain addr apdu where t: "t = (addr, apdu)" by (cases t)
    show ?thesis
      using 1(2) IH by (cases "parse_apdu apdu")
        (fastforce simp: k Some t lock Let_def same_control_def split: if_splits)+
  qed
qed

lemma drain_telegrams_control: "drain_telegrams ops env r = Some (n, r') \<Longrightarrow> same_control r r'"
  using drain_loop_control [of ops env 0 r "(n, r')"] by (simp add: drain_telegrams_def)

text \<open>
  One round: the backoff stays within its bounds, and a round that ends without a connection has
  slept the whole backoff, unless a stop was requested.
\<close>

lemma connect_round_spec:
  assumes ok: "backoff_ok opts r" and ret: "connect_round ops env opts r = Some (chunks, r')"
    and off: "\<not> rd_connected r"
  shows "backoff_ok opts r' \<and>
    (\<not> rd_connected r' \<longrightarrow> (\<forall>s. \<not> fst (stop_requested env s)) \<longrightarrow> sum_list chunks = rd_backoff_ms r)"
proof -
  obtain c k where c: "kc_connect ops (cro_socket_path opts) (rd_knxd r) = Some (c, k)"
    using ret by (auto simp: connect_round_def bind_eq_Some_conv)
  obtain op k2 where op: "(if c then kc_open_group_socket ops False k else Some (False, k)) = Some (op, k2)"
    using ret c by (auto simp: connect_round_def bind_eq_Some_conv)
  show ?thesis
  proof (cases op)
    case True
    then show ?thesis using ret c op by (auto simp: connect_round_def backoff_ok_def Let_def split: if_splits)
  next
    case False
    let ?r = "log_retry env (r\<lparr>rd_knxd := kc_disconnect ops k2\<rparr>)"
    have "back_off env opts ?r = (chunks, r')" using ret c op False by (simp add: connect_round_def Let_def)
    moreover have "backoff_ok opts ?r" using ok by (simp add: backoff_ok_def)
    ultimately show ?thesis
      using backoff_ok_back_off [of opts ?r ?r env] back_off_sleeps [of opts ?r env] by simp
  qed
qed

lemma wait_round_spec:
  assumes ok: "backoff_ok opts r" and ret: "wait_round ops env opts r = Some (chunks, r')"
    and on: "rd_connected r"
  shows "backoff_ok opts r' \<and>
    (\<not> rd_connected r' \<longrightarrow> (\<forall>s. \<not> fst (stop_requested env s)) \<longrightarrow> sum_list chunks = rd_backoff_ms r) \<and>
    (fst (kc_wait_for_activity ops (wait_timeout_ms opts) (rd_knxd r)) = WaitError \<longrightarrow> \<not> rd_connected r')"
proof -
  obtain w k where w: "kc_wait_for_activity ops (wait_timeout_ms opts) (rd_knxd r) = (w, k)"
    by (cases "kc_wait_for_activity ops (wait_timeout_ms opts) (rd_knxd r)")
  show ?thesis
  proof (cases w)
    case Timeout
    then show ?thesis using ret ok on by (auto simp: wait_round_def w backoff_ok_def)
  next
    case GroupData
    then obtain n r2 where "drain_telegrams ops env (r\<lparr>rd_knxd := k\<rparr>) = Some (n, r2)"
      and r2: "r' = (if n > 0 then r2\<lparr>rd_backoff_ms := initial_backoff_ms opts\<rparr> else r2)"
      using ret by (auto simp: wait_round_def w bind_eq_Some_conv)
    then have "same_control (r\<lparr>rd_knxd := k\<rparr>) r2" by (intro drain_telegrams_control)
    then show ?thesis using ok on r2 GroupData w by (auto simp: same_control_def backoff_ok_def)
  next
    case WaitError
    obtain now s where now: "re_now env (rd_env r) = (now, s)" by (cases "re_now env (rd_env r)")
    let ?r = "r\<lparr>rd_log := rd_log r @ [Lost now], rd_logged_failure := True, rd_last_log := now,
      rd_env := s, rd_knxd := kc_disconnect ops k, rd_connected := False\<rparr>"
    have "back_off env opts ?r = (chunks, r')" using ret WaitError w now by (simp add: wait_round_def Let_def)
    moreover have "backoff_ok opts ?r" using ok by (simp add: backoff_ok_def)
    ultimately show ?thesis
      using backoff_ok_back_off [of opts ?r ?r env] back_off_sleeps [of opts ?r env] back_off_connected [of env opts ?r]
      by simp
  qed
qed


lemma reader_round_spec:
  assumes "backoff_ok opts r" "reader_round ops env opts r = Some (chunks, r')"
  shows "backoff_ok opts r' \<and>
    (\<not> rd_connected r' \<longrightarrow> (\<forall>s. \<not> fst (stop_requested env s)) \<longrightarrow> sum_list chunks = rd_backoff_ms r)"
  using connect_round_spec [OF assms(1)] wait_round_spec [OF assms(1)] assms(2)
  by (simp add: reader_round_def split: if_splits)

lemma back_off_knxd [simp]: "rd_knxd (snd (back_off env opts r)) = rd_knxd r"
  by (simp add: back_off_def case_prod_unfold Let_def)

lemma log_retry_knxd [simp]: "rd_knxd (log_retry env r) = rd_knxd r"
  by (simp add: log_retry_def case_prod_unfold Let_def)

context knxd_client
begin

text \<open>
  The reader relies on one promise of the client here: waiting on a closed connection is an error.
  So a reader whose client has lost its connection notices in the next round, sleeps and reconnects.
\<close>

lemma lost_connection_noticed:
  assumes "backoff_ok opts r" "reader_round ops env opts r = Some (chunks, r')"
    and "rd_connected r" "\<not> kc_is_connected ops (rd_knxd r)"
  shows "\<not> rd_connected r'"
  using wait_round_spec [OF assms(1), of ops env chunks r'] wait_closed [OF assms(4)] assms(2,3)
  by (simp add: reader_round_def)

text \<open>After a failed attempt to connect nothing of the connection is left.\<close>

lemma failed_round_closed:
  assumes "\<not> rd_connected r" "reader_round ops env opts r = Some (chunks, r')" "\<not> rd_connected r'"
  shows "\<not> kc_is_connected ops (rd_knxd r')"
proof -
  have ret: "connect_round ops env opts r = Some (chunks, r')" using assms by (simp add: reader_round_def)
  obtain c k where c: "kc_connect ops (cro_socket_path opts) (rd_knxd r) = Some (c, k)"
    using ret by (auto simp: connect_round_def bind_eq_Some_conv)
  obtain op k2 where op: "(if c then kc_open_group_socket ops False k else Some (False, k)) = Some (op, k2)"
    using ret c by (auto simp: connect_round_def bind_eq_Some_conv)
  have "\<not> op" using ret c op assms(3) by (auto simp: connect_round_def Let_def split: if_splits)
  then have "r' = snd (back_off env opts (log_retry env (r\<lparr>rd_knxd := kc_disconnect ops k2\<rparr>)))"
    using ret c op by (simp add: connect_round_def Let_def)
  then show ?thesis by (simp add: disconnect_closes)
qed

end

section \<open>Stopping\<close>

text \<open>
  The reader stops when it is told to: every operation of the client returns, only finitely many
  telegrams are pending at a time, and the stop flag is set after finitely many questions (\<open>ms\<close>
  counts the ones that are still answered with no).
\<close>

definition client_total :: "'k knxd_ops \<Rightarrow> ('k \<Rightarrow> nat) \<Rightarrow> bool" where
  "client_total ops mk \<longleftrightarrow>
     (\<forall>p k. kc_connect ops p k \<noteq> None) \<and> (\<forall>wo k. kc_open_group_socket ops wo k \<noteq> None) \<and>
     (\<forall>k. kc_poll_group_telegram ops k \<noteq> None) \<and>
     (\<forall>k tg k'. kc_poll_group_telegram ops k = Some (Some tg, k') \<longrightarrow> mk k' < mk k)"

definition stop_comes :: "'s reader_env \<Rightarrow> ('s \<Rightarrow> nat) \<Rightarrow> bool" where
  "stop_comes env ms \<longleftrightarrow>
     (\<forall>s s'. stop_requested env s = (False, s') \<longrightarrow> ms s' < ms s) \<and>
     (\<forall>s s'. stop_requested env s = (True, s') \<longrightarrow> ms s' \<le> ms s) \<and>
     (\<forall>s. ms (snd (re_now env s)) \<le> ms s) \<and> (\<forall>t s. ms (re_nanosleep env t s) \<le> ms s) \<and>
     (\<forall>s. ms (snd (re_lock env s)) \<le> ms s)"

lemma sleep_loop_ms: "stop_comes env ms \<Longrightarrow> ms (snd (sleep_loop env slice_ms remaining s)) \<le> ms s"
proof (induction env slice_ms remaining s rule: sleep_loop.induct)
  case (1 env slice_ms remaining s)
  obtain b s1 where b: "stop_requested env s = (b, s1)" by (cases "stop_requested env s")
  let ?c = "min remaining (max 1 slice_ms)"
  let ?s = "re_nanosleep env (slice_timespec ?c) s1"
  have s1: "ms s1 \<le> ms s" using 1(2) b unfolding stop_comes_def by (cases b) (auto intro: less_imp_le)
  have s2: "ms ?s \<le> ms s1" using 1(2) unfolding stop_comes_def by blast
  show ?case
  proof (cases "remaining > 0 \<and> \<not> b")
    case True
    then have "ms (snd (sleep_loop env slice_ms (remaining - ?c) ?s)) \<le> ms ?s"
      using 1(1) [OF _ refl b [symmetric] _ refl 1(2)] by simp
    with True b s1 s2 show ?thesis by (subst sleep_loop.simps) (simp add: Let_def case_prod_unfold)
  next
    case False
    with b s1 show ?thesis by (subst sleep_loop.simps) (auto simp: Let_def)
  qed
qed

lemma back_off_ms: "stop_comes env ms \<Longrightarrow> ms (rd_env (snd (back_off env opts r))) \<le> ms (rd_env r)"
  using sleep_loop_ms [of env ms] by (simp add: back_off_def sleep_interruptible_def case_prod_unfold Let_def)

lemma log_retry_ms: "stop_comes env ms \<Longrightarrow> ms (rd_env (log_retry env r)) \<le> ms (rd_env r)"
  by (simp add: log_retry_def case_prod_unfold Let_def stop_comes_def)

lemma drain_loop_returns:
  assumes "client_total ops mk" "stop_comes env ms"
  shows "\<exists>n r'. drain_loop ops env pushed r = Some (n, r') \<and> ms (rd_env r') \<le> ms (rd_env r)"
proof (induction "mk (rd_knxd r)" arbitrary: pushed r rule: less_induct)
  case less
  obtain tg k where k: "kc_poll_group_telegram ops (rd_knxd r) = Some (tg, k)"
    using assms(1) unfolding client_total_def by (metis not_Some_eq surj_pair)
  obtain lock s where lock: "re_lock env (rd_env r) = (lock, s)" by (cases "re_lock env (rd_env r)")
  have s: "ms s \<le> ms (rd_env r)" using assms(2) lock unfolding stop_comes_def by (metis snd_conv)
  show ?case
  proof (cases tg)
    case None
    then show ?thesis using k by (subst drain_loop.simps) simp
  next
    case (Some t)
    obtain addr apdu where t: "t = (addr, apdu)" by (cases t)
    have "mk k < mk (rd_knxd r)" using assms(1) k Some unfolding client_total_def by blast
    then have IH: "\<exists>n r'. drain_loop ops env p r2 = Some (n, r') \<and> ms (rd_env r') \<le> ms (rd_env r2)"
      if "rd_knxd r2 = k" for p r2 using less that by simp
    show ?thesis
    proof (cases "parse_apdu apdu = None \<or> (\<exists>v. parse_apdu apdu = Some (ApduRead, v))")
      case True
      then have "drain_loop ops env pushed r = drain_loop ops env pushed (r\<lparr>rd_knxd := k\<rparr>)"
        by (subst drain_loop.simps) (auto simp: k Some t)
      then show ?thesis using IH [of "r\<lparr>rd_knxd := k\<rparr>" pushed] by simp
    next
      case False
      then obtain ty v where v: "parse_apdu apdu = Some (ty, v)" "ty \<noteq> ApduRead" by auto
      let ?r2 = "r\<lparr>rd_knxd := k, rd_cache := sgc_push lock (re_epoch env s) addr v (rd_cache r), rd_env := s\<rparr>"
      have "drain_loop ops env pushed r = drain_loop ops env (Suc pushed) ?r2"
        by (subst drain_loop.simps) (simp add: k Some t v lock Let_def)
      then show ?thesis using IH [of ?r2 "Suc pushed"] s by (auto intro: order_trans)
    qed
  qed
qed

lemma reader_round_returns:
  assumes total: "client_total ops mk" and stop: "stop_comes env ms"
  shows "\<exists>chunks r'. reader_round ops env opts r = Some (chunks, r') \<and> ms (rd_env r') \<le> ms (rd_env r)"
proof (cases "rd_connected r")
  case False
  obtain c k where c: "kc_connect ops (cro_socket_path opts) (rd_knxd r) = Some (c, k)"
    using total unfolding client_total_def by (metis not_Some_eq surj_pair)
  obtain op k2 where op: "(if c then kc_open_group_socket ops False k else Some (False, k)) = Some (op, k2)"
    using total unfolding client_total_def by (metis not_Some_eq surj_pair)
  let ?r = "log_retry env (r\<lparr>rd_knxd := kc_disconnect ops k2\<rparr>)"
  obtain chunks r2 where b: "back_off env opts ?r = (chunks, r2)" by (cases "back_off env opts ?r")
  have "ms (rd_env r2) \<le> ms (rd_env r)"
    using back_off_ms [OF stop, of opts ?r] log_retry_ms [OF stop, of "r\<lparr>rd_knxd := kc_disconnect ops k2\<rparr>"] b by simp
  with False c op b show ?thesis by (simp add: reader_round_def connect_round_def Let_def)
next
  case True
  obtain w k where w: "kc_wait_for_activity ops (wait_timeout_ms opts) (rd_knxd r) = (w, k)"
    by (cases "kc_wait_for_activity ops (wait_timeout_ms opts) (rd_knxd r)")
  obtain now s where now: "re_now env (rd_env r) = (now, s)" by (cases "re_now env (rd_env r)")
  have s: "ms s \<le> ms (rd_env r)" using stop now unfolding stop_comes_def by (metis snd_conv)
  obtain n r3 where d: "drain_loop ops env 0 (r\<lparr>rd_knxd := k\<rparr>) = Some (n, r3)" "ms (rd_env r3) \<le> ms (rd_env r)"
    using drain_loop_returns [OF total stop, of 0 "r\<lparr>rd_knxd := k\<rparr>"] by auto
  let ?r = "r\<lparr>rd_log := rd_log r @ [Lost now], rd_logged_failure := True, rd_last_log := now,
      rd_env := s, rd_knxd := kc_disconnect ops k, rd_connected := False\<rparr>"
  obtain chunks r2 where b: "back_off env opts ?r = (chunks, r2)" by (cases "back_off env opts ?r")
  have "ms (rd_env r2) \<le> ms (rd_env r)" using back_off_ms [OF stop, of opts ?r] b s by simp
  with True w now b d show ?thesis
    by (cases w) (simp_all add: reader_round_def wait_round_def drain_telegrams_def Let_def)
qed

lemma reader_loop_returns:
  assumes "client_total ops mk" "stop_comes env ms"
  shows "\<exists>r'. reader_loop ops env opts r = Some r'"
proof (induction "ms (rd_env r)" arbitrary: r rule: less_induct)
  case less
  obtain b s where b: "stop_requested env (rd_env r) = (b, s)" by (cases "stop_requested env (rd_env r)")
  show ?case
  proof (cases b)
    case True
    then show ?thesis using b by (subst reader_loop.simps) (simp add: Let_def)
  next
    case False
    then have "ms s < ms (rd_env r)" using assms(2) b unfolding stop_comes_def by auto
    moreover obtain chunks r2 where r2: "reader_round ops env opts (r\<lparr>rd_env := s\<rparr>) = Some (chunks, r2)" "ms (rd_env r2) \<le> ms s"
      using reader_round_returns [OF assms, of opts "r\<lparr>rd_env := s\<rparr>"] by auto
    ultimately show ?thesis using less [of r2] b False by (subst reader_loop.simps) (simp add: Let_def)
  qed
qed


section \<open>Runs of the reader\<close>

text \<open>
  The states at the head of the loop, with the sleeps of each round.  Every run of \<open>reader_loop\<close> is
  such a run.
\<close>

inductive reader_rounds ::
    "'k knxd_ops \<Rightarrow> 's reader_env \<Rightarrow> cache_reader_options \<Rightarrow> ('k, 's) reader \<Rightarrow> int list list \<Rightarrow> ('k, 's) reader \<Rightarrow> bool"
  for ops env opts where
  rounds_refl: "reader_rounds ops env opts r [] r"
| rounds_step: "reader_rounds ops env opts r css r1 \<Longrightarrow> stop_requested env (rd_env r1) = (False, s) \<Longrightarrow>
    reader_round ops env opts (r1\<lparr>rd_env := s\<rparr>) = Some (chunks, r2) \<Longrightarrow>
    reader_rounds ops env opts r (css @ [chunks]) r2"

inductive_simps reader_rounds_Nil: "reader_rounds ops env opts r [] r'"

lemma reader_rounds_backoff:
  "reader_rounds ops env opts r css r' \<Longrightarrow> backoff_ok opts r \<Longrightarrow> backoff_ok opts r'"
proof (induction rule: reader_rounds.induct)
  case (rounds_step r css r1 s chunks r2)
  then have "backoff_ok opts (r1\<lparr>rd_env := s\<rparr>)" by (simp add: backoff_ok_def)
  from reader_round_spec [OF this rounds_step(3)] show ?case by simp
qed

lemma reader_loop_rounds:
  assumes "client_total ops mk" "stop_comes env ms" "reader_rounds ops env opts r0 css r"
  shows "\<exists>r' css' s. reader_loop ops env opts r = Some (r'\<lparr>rd_env := s\<rparr>) \<and> reader_rounds ops env opts r0 (css @ css') r' \<and>
    stop_requested env (rd_env r') = (True, s)"
  using assms(3)
proof (induction "ms (rd_env r)" arbitrary: r css rule: less_induct)
  case less
  obtain b s where b: "stop_requested env (rd_env r) = (b, s)" by (cases "stop_requested env (rd_env r)")
  show ?case
  proof (cases b)
    case True
    then have "reader_loop ops env opts r = Some (r\<lparr>rd_env := s\<rparr>)"
      using b by (subst reader_loop.simps) (simp add: Let_def)
    with b True less(2) show ?thesis by (metis append_Nil2)
  next
    case False
    obtain chunks r2 where r2: "reader_round ops env opts (r\<lparr>rd_env := s\<rparr>) = Some (chunks, r2)" "ms (rd_env r2) \<le> ms s"
      using reader_round_returns [OF assms(1,2), of opts "r\<lparr>rd_env := s\<rparr>"] by auto
    have b': "stop_requested env (rd_env r) = (False, s)" using b False by simp
    then have "ms s < ms (rd_env r)" using assms(2) unfolding stop_comes_def by blast
    with r2(2) have "ms (rd_env r2) < ms (rd_env r)" by simp
    from less(1) [OF this rounds_step [OF less(2) b' r2(1)]]
    obtain r' css' t where "reader_loop ops env opts r2 = Some (r'\<lparr>rd_env := t\<rparr>)"
      "reader_rounds ops env opts r0 (css @ chunks # css') r'" "stop_requested env (rd_env r') = (True, t)" by auto
    moreover have "reader_loop ops env opts r = reader_loop ops env opts r2"
      using b' r2(1) by (subst reader_loop.simps) (simp add: Let_def)
    ultimately show ?thesis by metis
  qed
qed

lemma refused_round:
  assumes "\<And>k. \<exists>k'. kc_connect ops (cro_socket_path opts) k = Some (False, k')" "\<not> rd_connected r"
    and "reader_round ops env opts r = Some (chunks, r')"
  shows "\<not> rd_connected r' \<and> rd_backoff_ms r' = min (rd_backoff_ms r * 2) (max_backoff_ms opts)"
proof -
  obtain k' where "kc_connect ops (cro_socket_path opts) (rd_knxd r) = Some (False, k')" using assms(1) by blast
  then have "back_off env opts (log_retry env (r\<lparr>rd_knxd := kc_disconnect ops k'\<rparr>)) = (chunks, r')"
    using assms(2,3) by (simp add: reader_round_def connect_round_def Let_def)
  then show ?thesis
    using back_off_connected [of env opts "log_retry env (r\<lparr>rd_knxd := kc_disconnect ops k'\<rparr>)"] assms(2)
      rb.failure_delay [of env opts "log_retry env (r\<lparr>rd_knxd := kc_disconnect ops k'\<rparr>)"] by simp
qed

lemma min_double: "0 \<le> (m :: int) \<Longrightarrow> min (min a m * 2) m = min (a * 2) m"
  by (auto simp: min_def)

lemma max_backoff_pos: "0 \<le> max_backoff_ms opts"
  by (simp add: max_backoff_ms_def initial_backoff_ms_def)

lemma refused_rounds:
  assumes "reader_rounds ops env opts r css r'"
    and "\<And>k. \<exists>k'. kc_connect ops (cro_socket_path opts) k = Some (False, k')" "\<forall>s. \<not> fst (stop_requested env s)"
    and "r = start_reader opts k cache s0"
  shows "\<not> rd_connected r' \<and> rd_backoff_ms r' = min (initial_backoff_ms opts * 2 ^ length css) (max_backoff_ms opts) \<and>
    map sum_list css = map (\<lambda>i. min (initial_backoff_ms opts * 2 ^ i) (max_backoff_ms opts)) [0..<length css]"
  using assms
proof (induction rule: reader_rounds.induct)
  case (rounds_refl r)
  then show ?case by (simp add: start_reader_def min_absorb1)
next
  case (rounds_step r css r1 s chunks r2)
  let ?r = "r1\<lparr>rd_env := s\<rparr>"
  have IH: "\<not> rd_connected r1" "rd_backoff_ms r1 = min (initial_backoff_ms opts * 2 ^ length css) (max_backoff_ms opts)"
    "map sum_list css = map (\<lambda>i. min (initial_backoff_ms opts * 2 ^ i) (max_backoff_ms opts)) [0..<length css]"
    using rounds_step.IH rounds_step.prems by blast+
  have "\<not> rd_connected ?r" using IH(1) by simp
  from refused_round [OF rounds_step.prems(1) this rounds_step(3)]
  have r2: "\<not> rd_connected r2" "rd_backoff_ms r2 = min (rd_backoff_ms r1 * 2) (max_backoff_ms opts)" by auto
  have "backoff_ok opts ?r"
    using reader_rounds_backoff [OF rounds_step(1)] rounds_step.prems(3) backoff_ok_start [of opts k cache s0]
    by (simp add: backoff_ok_def)
  from reader_round_spec [OF this rounds_step(3)] r2(1) rounds_step.prems(2)
  have "sum_list chunks = rd_backoff_ms r1" by simp
  moreover have "rd_backoff_ms r2 = min (initial_backoff_ms opts * 2 ^ Suc (length css)) (max_backoff_ms opts)"
    using min_double [of "max_backoff_ms opts" "initial_backoff_ms opts * 2 ^ length css"] max_backoff_pos [of opts]
    by (simp add: r2(2) IH(2) algebra_simps)
  ultimately show ?case using IH r2(1) by simp
qed

section \<open>Properties of the reader\<close>


definition countdown_env :: "nat reader_env" where
  "countdown_env = \<lparr>re_should_stop = Some (\<lambda>s. (s = 0, s - 1)), re_now = (\<lambda>s. (0, s)), re_nanosleep = (\<lambda>t s. s),
     re_epoch = (\<lambda>s. 100), re_lock = (\<lambda>s. (Lock_ok, s))\<rparr>"

definition endless_env :: "unit reader_env" where
  "endless_env = \<lparr>re_should_stop = None, re_now = (\<lambda>s. (0, s)), re_nanosleep = (\<lambda>t s. s),
     re_epoch = (\<lambda>s. 100), re_lock = (\<lambda>s. (Lock_ok, s))\<rparr>"

lemma example_envs:
  "stop_comes countdown_env (\<lambda>s. s)" "lock_works countdown_env" "\<not> fst (stop_requested endless_env s)"
  by (auto simp: stop_comes_def stop_requested_def countdown_env_def lock_works_def endless_env_def)

abbreviation example_reader :: "mock \<Rightarrow> (mock, nat) reader" where
  "example_reader k \<equiv> start_reader default_reader_options k \<lparr>sgc_data = Some zero_data, sgc_owns_mmap = True\<rparr> 3"


text \<open>
  (C23) The reader never spins.  In every round it can reach, the delay is between the configured first
  and largest delay, and a round that ends without a connection has slept the whole delay unless a
  stop was requested.
\<close>

theorem reader_never_spins:
  assumes "reader_rounds ops env opts (start_reader opts k cache s0) css r"
    and "reader_round ops env opts r = Some (chunks, r')"
  shows "1 \<le> rd_backoff_ms r \<and> initial_backoff_ms opts \<le> rd_backoff_ms r \<and> rd_backoff_ms r \<le> max_backoff_ms opts \<and>
    ((\<forall>s. \<not> fst (stop_requested env s)) \<longrightarrow> \<not> rd_connected r' \<longrightarrow> sum_list chunks = rd_backoff_ms r)"
proof -
  have ok: "backoff_ok opts r" by (rule reader_rounds_backoff [OF assms(1) backoff_ok_start])
  then have "1 \<le> rd_backoff_ms r" using backoff_options(1) [of opts] unfolding backoff_ok_def by linarith
  with ok reader_round_spec [OF ok assms(2)] show ?thesis by (auto simp: backoff_ok_def)
qed

theorem reader_never_spins_witness:
  "sum_list (fst (the (reader_round mock_ops endless_env default_reader_options
     (start_reader default_reader_options (new_mock\<lparr>mk_connection_success := False\<rparr>)
       \<lparr>sgc_data = Some zero_data, sgc_owns_mmap = True\<rparr> ())))) = 500"
proof -
  let ?r = "start_reader default_reader_options (new_mock\<lparr>mk_connection_success := False\<rparr>)
       \<lparr>sgc_data = Some zero_data, sgc_owns_mmap = True\<rparr> ()"
  have "\<exists>chunks r'. reader_round mock_ops endless_env default_reader_options ?r = Some (chunks, r') \<and> \<not> rd_connected r'"
    by (simp add: reader_round_def connect_round_def start_reader_def mock_ops_def mock_connect_def new_mock_def Let_def)
      (metis back_off_connected log_retry_control(2) prod.collapse reader.select_convs(5))
  then obtain chunks r' where "reader_round mock_ops endless_env default_reader_options ?r = Some (chunks, r')"
    "\<not> rd_connected r'" by blast
  with reader_never_spins [OF rounds_refl this(1)] example_envs(3) show ?thesis
    by (simp add: start_reader_def initial_backoff_ms_def default_reader_options_def)
qed

text \<open>
  The retry schedule while knxd cannot be reached: the delays of consecutive rounds are the
  powers of two times the first delay, cut at the largest one.
\<close>

lemma reader_retry_schedule:
  assumes "\<And>k. \<exists>k'. kc_connect ops (cro_socket_path opts) k = Some (False, k')" "\<forall>s. \<not> fst (stop_requested env s)"
    and "reader_rounds ops env opts (start_reader opts k cache s0) css r"
  shows "map sum_list css = map (\<lambda>i. min (initial_backoff_ms opts * 2 ^ i) (max_backoff_ms opts)) [0..<length css]"
  using refused_rounds [OF assms(3,1,2) refl] by blast

definition refusing_ops :: "mock knxd_ops" where
  "refusing_ops = mock_ops\<lparr>kc_connect := \<lambda>path k. Some (False, k)\<rparr>"

lemma reader_retry_schedule_witness:
  "\<exists>c1 c2 r. reader_rounds refusing_ops endless_env default_reader_options
     (start_reader default_reader_options new_mock \<lparr>sgc_data = Some zero_data, sgc_owns_mmap = True\<rparr> ()) [c1, c2] r \<and>
     [sum_list c1, sum_list c2] = [500, 1000]"
proof -
  let ?r0 = "start_reader default_reader_options new_mock \<lparr>sgc_data = Some zero_data, sgc_owns_mmap = True\<rparr> ()"
  have refuse: "\<exists>k'. kc_connect refusing_ops (cro_socket_path default_reader_options) k = Some (False, k')" for k
    by (simp add: refusing_ops_def)
  have round: "\<exists>chunks r'. reader_round refusing_ops endless_env default_reader_options r = Some (chunks, r') \<and> \<not> rd_connected r'"
    if "\<not> rd_connected r" for r :: "(mock, unit) reader"
  proof -
    have "reader_round refusing_ops endless_env default_reader_options r = Some (back_off endless_env default_reader_options
        (log_retry endless_env (r\<lparr>rd_knxd := kc_disconnect refusing_ops (rd_knxd r)\<rparr>)))"
      using that by (simp add: reader_round_def connect_round_def refusing_ops_def Let_def)
    then show ?thesis using refused_round [OF refuse that] by (metis surj_pair)
  qed
  have go: "stop_requested endless_env (rd_env r) = (False, ())" for r :: "(mock, unit) reader"
    by (simp add: stop_requested_def endless_env_def)
  have same: "r\<lparr>rd_env := ()\<rparr> = r" for r :: "(mock, unit) reader" by simp
  obtain c1 r1 where 1: "reader_round refusing_ops endless_env default_reader_options ?r0 = Some (c1, r1)" "\<not> rd_connected r1"
    using round [of ?r0] by (auto simp: start_reader_def)
  obtain c2 r2 where 2: "reader_round refusing_ops endless_env default_reader_options r1 = Some (c2, r2)"
    using round [OF 1(2)] by blast
  have 11: "reader_round refusing_ops endless_env default_reader_options (?r0\<lparr>rd_env := ()\<rparr>) = Some (c1, r1)"
    using 1(1) unfolding same .
  have 22: "reader_round refusing_ops endless_env default_reader_options (r1\<lparr>rd_env := ()\<rparr>) = Some (c2, r2)"
    using 2 unfolding same .
  have rounds: "reader_rounds refusing_ops endless_env default_reader_options ?r0 (([] @ [c1]) @ [c2]) r2"
    by (rule rounds_step [OF rounds_step [OF rounds_refl go 11] go 22])
  from reader_retry_schedule [OF refuse _ this] example_envs(3)
  have "map sum_list [c1, c2] = [500, 1000]"
    by (simp add: initial_backoff_ms_def max_backoff_ms_def default_reader_options_def)
  with rounds show ?thesis by auto
qed

text \<open>
  (C24) The reader stops.  When every operation of the client returns, finitely many telegrams are
  pending at a time and the stop flag is set eventually, \<^verbatim>\<open>run_cache_reader\<close> returns, and it does so
  right after a question that was answered with a stop.
\<close>

theorem reader_stops:
  assumes "client_total ops mk" "stop_comes env ms"
  shows "\<exists>r s css. run_cache_reader ops env opts k cache s0 = Some (r\<lparr>rd_env := s\<rparr>) \<and>
    reader_rounds ops env opts (start_reader opts k cache s0) css r \<and> stop_requested env (rd_env r) = (True, s)"
  using reader_loop_rounds [OF assms rounds_refl] by (fastforce simp: run_cache_reader_def)

lemma mock_total: "client_total mock_ops (\<lambda>k. length (mk_telegram_queue k))"
  by (auto simp: client_total_def mock_ops_def mock_poll_group_telegram_def split: list.splits)

theorem reader_stops_witness:
  "\<exists>r s. run_cache_reader mock_ops countdown_env default_reader_options new_mock
     \<lparr>sgc_data = Some zero_data, sgc_owns_mmap = True\<rparr> 3 = Some (r\<lparr>rd_env := s\<rparr>)"
  using reader_stops [OF mock_total example_envs(1)] by blast

text \<open>
  A telegram whose service bits are 11 is neither a read nor one of the two services with a value, but it is pushed
  all the same, with an empty value.
\<close>

lemma other_service_stored: "telegram_values [(addr, [0, 0xC0, 1, 2])] = [(addr, [])]"
  by (simp add: parse_apdu_def apdu_type_of_def Let_def)

end
