(* ===== verification/Fcgi_Request.thy ===== *)
theory Fcgi_Request
  imports Cpp_Std
begin

text \<open>
  \<^verbatim>\<open>src/fcgi/fcgi_request.cpp\<close>: the parameters of a FastCGI request, the response, and the endpoint path
  of a request under the different ways web servers pass it.
\<close>

record fcgi_request =
  rq_request_method :: string
  rq_request_uri :: string
  rq_query_string :: string
  rq_content_type :: string
  rq_content :: string
  rq_script_name :: string
  rq_path_info :: string
  rq_server_protocol :: string

definition new_request :: fcgi_request where
  "new_request = \<lparr>rq_request_method = [], rq_request_uri = [], rq_query_string = [], rq_content_type = [],
     rq_content = [], rq_script_name = [], rq_path_info = [], rq_server_protocol = []\<rparr>"

record fcgi_response =
  rs_status_code :: int
  rs_content_type :: string
  rs_body :: string

definition new_response :: fcgi_response where
  "new_response = \<lparr>rs_status_code = 200, rs_content_type = ''application/json'', rs_body = []\<rparr>"

definition without_query :: "string \<Rightarrow> string" where
  "without_query uri = (case find_char (CHR ''?'') uri of None \<Rightarrow> uri | Some qpos \<Rightarrow> take qpos uri)"

definition request_path :: "fcgi_request \<Rightarrow> string" where
  "request_path rq =
     (if rq_path_info rq \<noteq> [] then rq_path_info rq
      else if rq_request_uri rq \<noteq> [] then
        let uri_path = without_query (rq_request_uri rq);
            script_name = rq_script_name rq
        in if script_name \<noteq> [] \<and> length uri_path \<ge> length script_name \<and> take (length script_name) uri_path = script_name then
             let trail = drop (length script_name) uri_path in
             if trail \<noteq> [] then trail
             else case rfind_char (CHR ''/'') script_name of
               Some last_slash \<Rightarrow> drop last_slash script_name
             | None \<Rightarrow> uri_path
           else uri_path
      else if rq_script_name rq \<noteq> [] then
        (case rfind_char (CHR ''/'') (rq_script_name rq) of
           Some last_slash \<Rightarrow>
             let tail = drop last_slash (rq_script_name rq) in if tail \<noteq> ''/'' then tail else []
         | None \<Rightarrow> [])
      else [])"

section \<open>The endpoint\<close>

lemma without_query_takeWhile: "without_query uri = takeWhile (\<lambda>c. c \<noteq> CHR ''?'') uri"
proof -
  have "(case find_char c s of None \<Rightarrow> s | Some k \<Rightarrow> take k s) = takeWhile (\<lambda>x. x \<noteq> c) s" for c and s :: string
    by (induction s) (auto split: option.splits)
  then show ?thesis by (simp add: without_query_def)
qed

lemma rfind_char_last:
  "c \<notin> set ys \<Longrightarrow> rfind_char c (xs @ c # ys) = Some (length xs)"
proof (induction xs)
  case Nil
  have "c \<notin> set ys \<Longrightarrow> rfind_char c ys = None" by (induction ys) (auto split: option.split)
  with Nil show ?case by simp
qed simp

text \<open>The four ways an endpoint arrives, each with the optional query part of the URI.\<close>

datatype mounting = Path_info string string | Uri_under_script | Uri_only | Script_is_endpoint | Script_only

fun mount :: "mounting \<Rightarrow> string \<Rightarrow> string \<Rightarrow> string \<Rightarrow> fcgi_request" where
  "mount (Path_info script uri) dir e query = new_request\<lparr>rq_path_info := e, rq_script_name := script, rq_request_uri := uri\<rparr>"
| "mount Uri_under_script dir e query = new_request\<lparr>rq_script_name := dir, rq_request_uri := dir @ e @ query\<rparr>"
| "mount Uri_only dir e query = new_request\<lparr>rq_request_uri := e @ query\<rparr>"
| "mount Script_is_endpoint dir e query = new_request\<lparr>rq_script_name := dir @ e, rq_request_uri := dir @ e @ query\<rparr>"
| "mount Script_only dir e query = new_request\<lparr>rq_script_name := dir @ e\<rparr>"

definition endpoint_ok :: "string \<Rightarrow> string \<Rightarrow> string \<Rightarrow> bool" where
  "endpoint_ok dir e query \<longleftrightarrow> CHR ''?'' \<notin> set dir \<and>
     (\<exists>n. e = CHR ''/'' # n \<and> n \<noteq> [] \<and> CHR ''/'' \<notin> set n \<and> CHR ''?'' \<notin> set n) \<and>
     (query = [] \<or> (\<exists>q. query = CHR ''?'' # q))"

lemma without_query_append:
  assumes "CHR ''?'' \<notin> set p" "query = [] \<or> (\<exists>q. query = CHR ''?'' # q)"
  shows "without_query (p @ query) = p"
proof -
  have "takeWhile (\<lambda>c. c \<noteq> CHR ''?'') (p @ query) = p @ takeWhile (\<lambda>c. c \<noteq> CHR ''?'') query"
    by (rule takeWhile_append2) (use assms(1) in blast)
  then show ?thesis using assms(2) unfolding without_query_takeWhile by auto
qed

lemma endpoint_uri_path:
  assumes "endpoint_ok dir e query"
  shows "without_query (dir @ e @ query) = dir @ e" "without_query (e @ query) = e"
proof -
  have "CHR ''?'' \<notin> set (dir @ e)" "CHR ''?'' \<notin> set e" "query = [] \<or> (\<exists>q. query = CHR ''?'' # q)"
    using assms by (auto simp: endpoint_ok_def)
  with without_query_append [of "dir @ e" query] without_query_append [of e query]
  show "without_query (dir @ e @ query) = dir @ e" "without_query (e @ query) = e" by simp_all
qed

lemma request_path_mount:
  assumes "endpoint_ok dir e query" "m = Uri_under_script \<Longrightarrow> dir \<noteq> []"
  shows "request_path (mount m dir e query) = e"
proof -
  obtain n where n: "e = CHR ''/'' # n" "n \<noteq> []" "CHR ''/'' \<notin> set n" using assms(1) by (auto simp: endpoint_ok_def)
  have e: "rfind_char (CHR ''/'') (dir @ e) = Some (length dir)" using rfind_char_last n by simp
  show ?thesis
    using n e endpoint_uri_path [OF assms(1)] assms(2)
    by (cases m) (auto simp: request_path_def new_request_def Let_def)
qed

section \<open>Properties of the path\<close>



end
