(* ===== verification/Worker_State.thy ===== *)
theory Worker_State
  imports Query_String Session_Store Worker_World Knxd_Interface "HOL-Library.Multiset"
begin

text \<open>
  What one worker process owns and shares: its view of the world with the shared cache and the
  clock, its own knxd client and its session store, and the configuration that is fixed when the
  process starts (\<^verbatim>\<open>src/main.cpp\<close>, \<^verbatim>\<open>src/version.cpp\<close>).  The handlers are functions on this state.
\<close>

section \<open>Configuration\<close>

text \<open>The macros the build defines; a macro that is not defined is \<open>None\<close>.\<close>

record build_info =
  bi_app_version :: "string option"
  bi_git_hash :: "string option"
  bi_knxd_build_version :: "string option"
  bi_knxd_build_git_hash :: "string option"

definition app_version :: "build_info \<Rightarrow> string" where
  "app_version bi = (case bi_app_version bi of Some v \<Rightarrow> v | None \<Rightarrow> ''unknown'')"

definition application_name :: string where
  "application_name = ''cometvisu-knxd-fcgi''"

definition git_hash :: "build_info \<Rightarrow> string" where
  "git_hash bi = (case bi_git_hash bi of Some v \<Rightarrow> v | None \<Rightarrow> ''unknown'')"

definition knxd_build_version :: "build_info \<Rightarrow> string" where
  "knxd_build_version bi = (case bi_knxd_build_version bi of Some v \<Rightarrow> v | None \<Rightarrow> [])"

definition knxd_build_git_hash :: "build_info \<Rightarrow> string" where
  "knxd_build_git_hash bi = (case bi_knxd_build_git_hash bi of Some v \<Rightarrow> v | None \<Rightarrow> [])"

text \<open>
  \<open>cf_hash_order\<close> is the order in which the standard library iterates over an \<^verbatim>\<open>unordered_map\<close>; it may
  be any permutation.
\<close>

record config =
  cf_default_namespace :: string
  cf_longpoll_timeout_sec :: int
  cf_base_url :: string
  cf_extra_config :: "string option"
  cf_build_info :: build_info
  cf_hash_order :: "(u16 \<times> bytes) list \<Rightarrow> (u16 \<times> bytes) list"

definition hash_order_law :: "config \<Rightarrow> bool" where
  "hash_order_law cfg \<longleftrightarrow> (\<forall>xs. mset (cf_hash_order cfg xs) = mset xs)"

section \<open>State\<close>

record 'k worker =
  wk_world :: world
  wk_knxd :: 'k
  wk_sessions :: session_store

definition worker_now :: "'k worker \<Rightarrow> int \<times> 'k worker" where
  "worker_now wk = (let (now, w) = steady_now (wk_world wk) in (now, wk\<lparr>wk_world := w\<rparr>))"

text \<open>The session check at the start of the read and the write handler.\<close>

definition check_session :: "params \<Rightarrow> 'k worker \<Rightarrow> bool \<times> 'k worker" where
  "check_session ps wk =
     (case qs_get ps ''s'' of
        None \<Rightarrow> (True, wk)
      | Some s \<Rightarrow>
          let (now, wk) = worker_now wk;
              (ok, st) = is_valid s now (wk_sessions wk)
          in (ok, wk\<lparr>wk_sessions := st\<rparr>))"

section \<open>Steps of a worker\<close>

text \<open>
  \<open>worker_evolves as wk wk'\<close>: the worker ran while the others performed \<open>as\<close>; only the clock, the
  region and the agenda changed, and those only by what the others did.
\<close>

definition worker_evolves :: "activity list \<Rightarrow> 'k worker \<Rightarrow> 'k worker \<Rightarrow> bool" where
  "worker_evolves as wk wk' \<longleftrightarrow> evolves as (wk_world wk) (wk_world wk')"

lemma steady_now_evolves:
  obtains as where "evolves as w (snd (steady_now w))" "fst (steady_now w) = w_steady (snd (steady_now w))"
proof -
  obtain as where "evolves as w (snd (world_step w))" by (rule world_step_evolves)
  then show thesis by (intro that [of as]) (simp_all add: steady_now_def case_prod_unfold Let_def)
qed

lemma worker_now_state:
  "wk_knxd (snd (worker_now wk)) = wk_knxd wk" "wk_sessions (snd (worker_now wk)) = wk_sessions wk"
  "wk_world (snd (worker_now wk)) = snd (steady_now (wk_world wk))"
  "fst (worker_now wk) = fst (steady_now (wk_world wk))"
  by (simp_all add: worker_now_def case_prod_unfold Let_def)

text \<open>
  The check accepts a request without a session and one whose session is active at the time of the
  check; it leaves the client alone and keeps the store's invariant.
\<close>

lemma check_session_spec:
  assumes "check_session ps wk = (ok, wk')"
  shows "wk_knxd wk' = wk_knxd wk \<and> (\<exists>as. worker_evolves as wk wk') \<and>
    (session_inv (wk_sessions wk) \<longrightarrow> session_inv (wk_sessions wk')) \<and>
    (ok \<longleftrightarrow> (case qs_get ps ''s'' of None \<Rightarrow> True
       | Some s \<Rightarrow> active (wk_sessions wk) s (w_steady (wk_world wk'))))"
proof (cases "qs_get ps ''s''")
  case None
  then show ?thesis using assms by (auto simp: check_session_def worker_evolves_def intro: evolves_refl)
next
  case (Some s)
  obtain as where as: "evolves as (wk_world wk) (snd (steady_now (wk_world wk)))"
    "fst (steady_now (wk_world wk)) = w_steady (snd (steady_now (wk_world wk)))"
    using steady_now_evolves by blast
  show ?thesis
    using assms Some as is_valid_inv [of "wk_sessions wk" s "fst (steady_now (wk_world wk))"]
    by (auto simp: check_session_def case_prod_unfold Let_def worker_now_state worker_evolves_def is_valid_iff)
qed

end
