(* ===== verification/Login_Handler.thy ===== *)
theory Login_Handler
  imports Worker_State Json_Builder
begin

text \<open>
  \<^verbatim>\<open>src/handlers/login_handler.cpp\<close>: the login endpoint.  It creates a session and answers with a JSON
  document; the random number of the session id is an argument.
\<close>

definition kProtocolVersion :: string where
  "kProtocolVersion = ''0.0.2''"

definition known_version :: "string \<Rightarrow> bool" where
  "known_version v \<longleftrightarrow> v \<noteq> [] \<and> v \<noteq> ''unknown''"

definition given :: "string option \<Rightarrow> bool" where
  "given v \<longleftrightarrow> v \<noteq> None \<and> v \<noteq> Some []"

text \<open>The session of the request: the clock is read only for a session that is not anonymous.\<close>

definition login_session :: "params \<Rightarrow> u64 \<Rightarrow> 'k worker \<Rightarrow> string \<times> 'k worker" where
  "login_session ps num wk =
     (let anonymous = (\<not> qs_has ps ''u'' \<and> \<not> qs_has ps ''p'') in
      if anonymous then
        let (id, st) = create_session True 0 0 num (wk_sessions wk) in (id, wk\<lparr>wk_sessions := st\<rparr>)
      else
        let (t1, wk) = worker_now wk;
            (t2, wk) = worker_now wk;
            (id, st) = create_session False t1 t2 num (wk_sessions wk)
        in (id, wk\<lparr>wk_sessions := st\<rparr>))"

definition need_config :: "config \<Rightarrow> bool" where
  "need_config cfg \<longleftrightarrow>
     (let bi = cf_build_info cfg;
          need_config = (cf_base_url cfg \<noteq> []);
          need_config = (if known_version (app_version bi) then True else need_config);
          need_config = (if known_version (git_hash bi) then True else need_config);
          need_config = (if knxd_build_version bi \<noteq> [] then True else need_config);
          need_config = (if knxd_build_git_hash bi \<noteq> [] then True else need_config);
          need_config = (if given (cf_extra_config cfg) then True else need_config)
      in need_config)"

definition add_config :: "config \<Rightarrow> json_builder \<Rightarrow> json_builder" where
  "add_config cfg json =
     (let bi = cf_build_info cfg;
          json = start_object (add_key ''c'' json);
          json = (if cf_base_url cfg \<noteq> [] then add_string ''baseURL'' (cf_base_url cfg) json else json);
          json = (if known_version (app_version bi) then add_string ''fcgiVersion'' (app_version bi) json else json);
          json = (if known_version (git_hash bi) then add_string ''fcgiGitHash'' (git_hash bi) json else json);
          json = (if knxd_build_version bi \<noteq> [] then add_string ''knxdBuildVersion'' (knxd_build_version bi) json else json);
          json = (if knxd_build_git_hash bi \<noteq> [] then add_string ''knxdBuildGitHash'' (knxd_build_git_hash bi) json else json);
          json = (case cf_extra_config cfg of Some x \<Rightarrow> if x \<noteq> [] then add_raw x json else json | None \<Rightarrow> json)
      in end_object json)"

definition login_handle :: "config \<Rightarrow> u64 \<Rightarrow> string \<Rightarrow> 'k worker \<Rightarrow> string \<times> 'k worker" where
  "login_handle cfg num qs wk =
     (let params = query_string qs;
          (session_id, wk) = login_session params num wk;
          json = start_object jb_new;
          json = add_string ''v'' kProtocolVersion json;
          json = add_string ''s'' session_id json;
          json = (if need_config cfg then add_config cfg json else json);
          json = end_object json
      in (jb_take json, wk))"

section \<open>The response\<close>

text \<open>The document a login answers with.\<close>

definition member_if :: "bool \<Rightarrow> string \<Rightarrow> string \<Rightarrow> member list" where
  "member_if c k v = (if c then [Member k (JString v)] else [])"

definition config_members :: "config \<Rightarrow> member list" where
  "config_members cfg =
     (let bi = cf_build_info cfg in
      member_if (cf_base_url cfg \<noteq> []) ''baseURL'' (cf_base_url cfg) @
      member_if (known_version (app_version bi)) ''fcgiVersion'' (app_version bi) @
      member_if (known_version (git_hash bi)) ''fcgiGitHash'' (git_hash bi) @
      member_if (knxd_build_version bi \<noteq> []) ''knxdBuildVersion'' (knxd_build_version bi) @
      member_if (knxd_build_git_hash bi \<noteq> []) ''knxdBuildGitHash'' (knxd_build_git_hash bi) @
      (case cf_extra_config cfg of Some x \<Rightarrow> if x \<noteq> [] then [JRaw x] else [] | None \<Rightarrow> []))"

definition login_members :: "config \<Rightarrow> string \<Rightarrow> member list" where
  "login_members cfg session_id =
     [Member ''v'' (JString kProtocolVersion), Member ''s'' (JString session_id)] @
     (if config_members cfg = [] then [] else [Member ''c'' (JObject (config_members cfg))])"

lemma emit_all_append [simp]: "emit_all (ms @ ns) jb = emit_all ns (emit_all ms jb)"
  by (induction ms arbitrary: jb) simp_all

lemma need_config_iff: "need_config cfg \<longleftrightarrow> config_members cfg \<noteq> []"
  by (auto simp: need_config_def config_members_def member_if_def given_def Let_def split: option.split)

lemma add_config_emit: "add_config cfg json = emit (Member ''c'' (JObject (config_members cfg))) json"
  by (auto simp: add_config_def config_members_def member_if_def Let_def split: option.split)

lemma login_body:
  "fst (login_handle cfg num qs wk) =
     render (JObject (login_members cfg (fst (login_session (query_string qs) num wk))))"
proof -
  have "fst (login_handle cfg num qs wk) =
      jb_take (emit_document (login_members cfg (fst (login_session (query_string qs) num wk))) jb_new)"
    by (simp add: login_handle_def login_members_def emit_document_def need_config_iff add_config_emit
        case_prod_unfold Let_def)
  then show ?thesis by (simp add: emit_document_render jb_take_def jb_new_def)
qed

text \<open>The strings of the configuration that are not raw JSON.\<close>

definition config_printable :: "config \<Rightarrow> bool" where
  "config_printable cfg \<longleftrightarrow> printable (cf_base_url cfg) \<and> printable (app_version (cf_build_info cfg)) \<and>
     printable (git_hash (cf_build_info cfg)) \<and> printable (knxd_build_version (cf_build_info cfg)) \<and>
     printable (knxd_build_git_hash (cf_build_info cfg))"

lemma members_ok_append [simp]: "members_ok (ms @ ns) \<longleftrightarrow> members_ok ms \<and> members_ok ns"
  by (induction ms) auto

lemma printable_hex: "printable (generate_id n)"
proof -
  have "\<forall>i < 16. 48 \<le> ord (session_kHex ! i)"
    by (simp add: session_kHex_def numeral_nat All_less_Suc)
  moreover have "unat (w AND 0xF :: u64) < 16" for w
    using word_and_le1 [of w "0xF"] by (simp add: word_le_nat_alt)
  ultimately have "48 \<le> ord (session_kHex ! unat (w AND 0xF :: u64))" for w by blast
  then have "32 \<le> ord (session_kHex ! unat (w AND 0xF :: u64))" for w by (rule order_trans [rotated]) simp
  then show ?thesis by (simp add: printable_def generate_id_def)
qed

lemma login_members_ok:
  assumes "config_printable cfg" "\<not> given (cf_extra_config cfg)" "printable session_id"
  shows "members_ok (login_members cfg session_id)"
  using assms by (auto simp: login_members_def config_members_def member_if_def config_printable_def given_def
      kProtocolVersion_def printable_def Let_def split: option.splits)

section \<open>The session\<close>

lemma login_session_spec:
  assumes "login_session ps num wk = (sid, wk')"
  shows "wk_knxd wk' = wk_knxd wk \<and> (\<exists>as. worker_evolves as wk wk') \<and>
    (session_inv (wk_sessions wk) \<longrightarrow> session_inv (wk_sessions wk')) \<and>
    (if qs_has ps ''u'' \<or> qs_has ps ''p'' then sid = generate_id num \<and>
       (session_inv (wk_sessions wk) \<longrightarrow>
         (\<forall>t. w_steady (wk_world wk') \<le> t \<longrightarrow> t < w_steady (wk_world wk') + lifetime (wk_sessions wk) \<longrightarrow>
            active (wk_sessions wk') sid t))
     else sid = ''0'' \<and> wk' = wk)"
proof (cases "qs_has ps ''u'' \<or> qs_has ps ''p''")
  case False
  then show ?thesis
    using assms by (auto simp: login_session_def create_session_def worker_evolves_def intro: evolves_refl)
next
  case True
  obtain t1 k1 where 1: "worker_now wk = (t1, k1)" by (cases "worker_now wk")
  obtain t2 k2 where 2: "worker_now k1 = (t2, k2)" by (cases "worker_now k1")
  obtain i st where 3: "create_session False t1 t2 num (wk_sessions k2) = (i, st)"
    by (cases "create_session False t1 t2 num (wk_sessions k2)")
  have wk': "sid = i" "wk' = k2\<lparr>wk_sessions := st\<rparr>" using assms True 1 2 3 by (auto simp: login_session_def Let_def)
  have k2: "wk_sessions k2 = wk_sessions wk" "wk_knxd k2 = wk_knxd wk"
    "wk_world k2 = snd (steady_now (wk_world k1))" "t2 = fst (steady_now (wk_world k1))"
    "wk_world k1 = snd (steady_now (wk_world wk))"
    using worker_now_state [of wk] worker_now_state [of k1] 1 2 by auto
  obtain as where as: "evolves as (wk_world wk) (wk_world k1)" using steady_now_evolves [of "wk_world wk"] k2(5) by metis
  obtain bs where bs: "evolves bs (wk_world k1) (wk_world k2)" "t2 = w_steady (wk_world k2)"
    using steady_now_evolves [of "wk_world k1"] k2(3,4) by metis
  have "session_inv (wk_sessions wk) \<Longrightarrow> session_inv st"
    using create_inv [of "wk_sessions wk" False t1 t2 num] 3 k2(1) by simp
  moreover have "session_inv (wk_sessions wk) \<Longrightarrow> t2 \<le> t \<Longrightarrow> t < t2 + lifetime (wk_sessions wk) \<Longrightarrow> active st i t" for t
    using store.create_active [of "wk_sessions wk" t1 t2 num i st t] 3 k2(1) by simp
  moreover have "i = generate_id num" using 3 by (auto simp: create_session_def Let_def)
  ultimately show ?thesis using True wk' k2 bs evolves_trans [OF as bs(1)] by (auto simp: worker_evolves_def)
qed

section \<open>Properties of the login handler\<close>


definition example_config :: config where
  "example_config = \<lparr>cf_default_namespace = [], cf_longpoll_timeout_sec = 300, cf_base_url = ''/visu'',
     cf_extra_config = None, cf_build_info = \<lparr>bi_app_version = Some ''1.2'', bi_git_hash = None,
       bi_knxd_build_version = None, bi_knxd_build_git_hash = None\<rparr>, cf_hash_order = (\<lambda>xs. xs)\<rparr>"

definition example_worker :: "activity list \<Rightarrow> 'k \<Rightarrow> 'k worker" where
  "example_worker as k = \<lparr>wk_world = example_world as, wk_knxd = k, wk_sessions = new_session_store 1800 100\<rparr>"


end
