(* ===== verification/Write_Handler.thy ===== *)
theory Write_Handler
  imports Worker_State Hex Knxd_Protocol Mock_Client Login_Handler "HOL-Library.Monad_Syntax"
begin

text \<open>
  \<^verbatim>\<open>src/handlers/write_handler.cpp\<close>: the write endpoint.  The result is \<open>None\<close> when a call of the knxd
  client has no defined result.
\<close>

record write_result =
  wr_http_status :: int
  wr_body :: string

definition new_write_result :: write_result where
  "new_write_result = \<lparr>wr_http_status = 200, wr_body = []\<rparr>"

definition invalid_session_body :: string where
  \<open>invalid_session_body = ''{"error":"invalid session"}''\<close>

definition invalid_format_body :: string where
  \<open>invalid_format_body = ''{"error":"invalid address format"}''\<close>

definition write_failed_body :: string where
  \<open>write_failed_body = ''{"error":"write failed"}''\<close>

fun write_loop ::
    "'k knxd_ops \<Rightarrow> string \<Rightarrow> bytes \<Rightarrow> string list \<Rightarrow> bool \<Rightarrow> bool \<Rightarrow> 'k \<Rightarrow> (bool \<times> bool \<times> 'k) option" where
  "write_loop ops ns apdu [] any_valid any_failed k = Some (any_valid, any_failed, k)"
| "write_loop ops ns apdu (addr_str # addresses) any_valid any_failed k =
     (case from_cometvisu ns addr_str of
        None \<Rightarrow> write_loop ops ns apdu addresses any_valid any_failed k
      | Some parsed \<Rightarrow> do {
          (sent, k) \<leftarrow> kc_send_group_packet ops (to_eibaddr (ka_group parsed)) apdu k;
          write_loop ops ns apdu addresses True (if \<not> sent then True else any_failed) k
        })"

definition write_handle ::
    "'k knxd_ops \<Rightarrow> config \<Rightarrow> string \<Rightarrow> 'k worker \<Rightarrow> (write_result \<times> 'k worker) option" where
  "write_handle ops cfg qs wk =
     (let params = query_string qs;
          result = new_write_result;
          addresses = qs_get_all params ''a'';
          value_opt = qs_get params ''v''
      in case value_opt of
        None \<Rightarrow> Some (result, wk)
      | Some value_str \<Rightarrow>
          if addresses = [] then Some (result, wk)
          else
            let (ok, wk) = check_session params wk in
            if \<not> ok then Some (result\<lparr>wr_http_status := 401, wr_body := invalid_session_body\<rparr>, wk)
            else
              let hex_data = hex_decode value_str in
              if hex_data = [] \<and> value_str \<noteq> [] then Some (result, wk)
              else if hex_data = [] \<or> hd hex_data AND 0x80 \<noteq> 0x80 then Some (result, wk)
              else do {
                (any_valid, any_failed, k) \<leftarrow>
                  write_loop ops (cf_default_namespace cfg) (0 # hex_data) addresses False False (wk_knxd wk);
                let result = (if \<not> any_valid \<and> addresses \<noteq> []
                  then result\<lparr>wr_http_status := 404, wr_body := invalid_format_body\<rparr> else result);
                let result = (if any_valid \<and> any_failed
                  then result\<lparr>wr_http_status := 503, wr_body := write_failed_body\<rparr> else result);
                Some (result, wk\<lparr>wk_knxd := k\<rparr>)
              })"

section \<open>What is sent\<close>

text \<open>The bus addresses of a list of address texts, and sending one packet to each of them.\<close>

definition targets :: "string \<Rightarrow> string list \<Rightarrow> u16 list" where
  "targets ns addresses = map (\<lambda>p. to_eibaddr (ka_group p)) (List.map_filter (from_cometvisu ns) addresses)"

fun send_each :: "'k knxd_ops \<Rightarrow> bytes \<Rightarrow> u16 list \<Rightarrow> 'k \<Rightarrow> (bool list \<times> 'k) option" where
  "send_each ops apdu [] k = Some ([], k)"
| "send_each ops apdu (a # as) k = do {
     (sent, k) \<leftarrow> kc_send_group_packet ops a apdu k;
     (sents, k) \<leftarrow> send_each ops apdu as k;
     Some (sent # sents, k)
   }"

lemma targets_simps [simp]:
  "targets ns [] = []"
  "targets ns (a # as) = (case from_cometvisu ns a of None \<Rightarrow> targets ns as
     | Some p \<Rightarrow> to_eibaddr (ka_group p) # targets ns as)"
  by (simp_all add: targets_def List.map_filter_simps split: option.split)

lemma write_loop_send_each:
  "write_loop ops ns apdu addresses v f k = do {
     (sents, k') \<leftarrow> send_each ops apdu (targets ns addresses) k;
     Some (v \<or> targets ns addresses \<noteq> [], f \<or> False \<in> set sents, k')
   }"
proof (induction addresses arbitrary: v f k)
  case (Cons a as)
  show ?case
  proof (cases "from_cometvisu ns a")
    case (Some p)
    show ?thesis
    proof (cases "kc_send_group_packet ops (to_eibaddr (ka_group p)) apdu k")
      case (Some r)
      then show ?thesis
        using \<open>from_cometvisu ns a = Some p\<close> Cons [of True _ "snd r"]
        by (cases r) (auto simp: bind_split split: option.splits prod.splits)
    qed (simp add: Some)
  qed (simp add: Cons)
qed simp

lemma send_each_length: "send_each ops apdu as k = Some (oks, k') \<Longrightarrow> length oks = length as"
  by (induction as arbitrary: k oks k') (auto simp: bind_eq_Some_conv)

definition write_apdu :: "string \<Rightarrow> bytes option" where
  "write_apdu v = (case hex_decode v of [] \<Rightarrow> None
     | b # bs \<Rightarrow> if b AND 0x80 = 0x80 then Some (0 # b # bs) else None)"

text \<open>A value whose first byte has the Write service is read on the bus as the rest of the value.\<close>

lemma write_apdu_parses:
  assumes "write_apdu v = Some (0 # b # bs)" "b AND 0x40 = 0"
  shows "parse_apdu (0 # b # bs) = Some (ApduWrite, if bs = [] then [b AND 0x3F] else bs)"
proof -
  have "b AND 0x80 = 0x80" using assms(1) by (auto simp: write_apdu_def split: list.splits if_splits)
  moreover have "b AND 0xC0 = (b AND 0x80) OR (b AND 0x40)" by (simp flip: bit.conj_disj_distrib)
  ultimately have "b AND 0xC0 = 0x80" using assms(2) by simp
  then show ?thesis by (simp add: parse_apdu_def apdu_type_of_def)
qed

text \<open>The test of the first byte also lets the service bits 11 through, which are not a write.\<close>

lemma write_apdu_accepts_other_service: "write_apdu ''c1'' = Some [0, 0xC1]"
  by code_simp

section \<open>Properties of the write handler\<close>


abbreviation open_mock :: mock where
  "open_mock \<equiv> new_mock\<lparr>mk_connected := True, mk_group_socket_open := True\<rparr>"




end
