(* ===== verification/Read_Handler.thy ===== *)
theory Read_Handler
  imports Write_Handler
begin

text \<open>
  \<^verbatim>\<open>src/handlers/read_handler.cpp\<close>: the read endpoint with its long poll.  The handler runs in a
  world that the cache reader changes at every access to the shared cache; the result is \<open>None\<close> when
  the code has no defined result (an uninitialised cache, an integer overflow, a client call without
  a result).
\<close>

record read_result =
  rr_http_status :: int
  rr_body :: string

definition missing_address_body :: string where
  \<open>missing_address_body = ''{"error":"missing address"}''\<close>

definition invalid_timeout_body :: string where
  \<open>invalid_timeout_body = ''{"error":"invalid timeout"}''\<close>

definition no_addresses_body :: string where
  \<open>no_addresses_body = ''{"error":"no valid addresses"}''\<close>

definition parse_timeout :: "string \<Rightarrow> int option" where
  "parse_timeout t_str =
     (if t_str = [] then None
      else case from_chars_int t_str of
        Parsed val rest \<Rightarrow> if rest \<noteq> [] then None else Some val
      | _ \<Rightarrow> None)"

section \<open>Parameters\<close>

record read_timing =
  rt_timeout_sec :: int
  rt_max_age_sec :: int
  rt_lastpos :: u32
  rt_bus_read :: bool

text \<open>The parameters \<open>t\<close> and \<open>i\<close>; \<open>None\<close> stands for a timeout that is not a number.\<close>

definition request_index :: "params \<Rightarrow> u32" where
  "request_index params =
     (case qs_get params ''i'' of
        None \<Rightarrow> 0
      | Some i \<Rightarrow> (case parse_timeout i of Some v \<Rightarrow> if v \<ge> 0 then of_int v else 0 | None \<Rightarrow> 0))"

definition read_timing_of :: "config \<Rightarrow> params \<Rightarrow> read_timing option" where
  "read_timing_of cfg params =
     (case qs_get params ''t'' of
        None \<Rightarrow> Some \<lparr>rt_timeout_sec = cf_longpoll_timeout_sec cfg, rt_max_age_sec = -1,
                  rt_lastpos = request_index params, rt_bus_read = False\<rparr>
      | Some t_str \<Rightarrow> map_option (\<lambda>t_original.
          let max_age_sec = (if t_original > 0 then t_original else -1) in
          if t_original = 0 then
            \<lparr>rt_timeout_sec = 1, rt_max_age_sec = max_age_sec, rt_lastpos = 0, rt_bus_read = True\<rparr>
          else if t_original < 0 then
            \<lparr>rt_timeout_sec = 0, rt_max_age_sec = max_age_sec, rt_lastpos = 0, rt_bus_read = False\<rparr>
          else
            \<lparr>rt_timeout_sec = t_original, rt_max_age_sec = max_age_sec, rt_lastpos = request_index params,
             rt_bus_read = False\<rparr>) (parse_timeout t_str))"

text \<open>The ordered set of bus addresses, as a sorted list.\<close>

fun eib_addrs :: "string \<Rightarrow> string list \<Rightarrow> u16 list \<Rightarrow> u16 list" where
  "eib_addrs ns [] eibs = eibs"
| "eib_addrs ns (addr_str # addresses) eibs =
     (case from_cometvisu ns addr_str of
        Some parsed \<Rightarrow> eib_addrs ns addresses (insort_insert (to_eibaddr (ka_group parsed)) eibs)
      | None \<Rightarrow> eib_addrs ns addresses eibs)"

definition addr_key :: "string \<Rightarrow> u16 \<Rightarrow> string" where
  "addr_key ns a = to_cometvisu \<lparr>ka_ns = ns, ka_group = from_eibaddr a\<rparr>"

definition add_value :: "string \<Rightarrow> u16 \<Rightarrow> bytes \<Rightarrow> json_builder \<Rightarrow> json_builder" where
  "add_value ns a v json = add_string (addr_key ns a) (hex_encode v) json"

section \<open>The steps of the handler\<close>

fun initial_reads ::
    "string \<Rightarrow> int \<Rightarrow> u16 list \<Rightarrow> json_builder \<Rightarrow> u16 set \<Rightarrow> world \<Rightarrow> json_builder \<times> u16 set \<times> world" where
  "initial_reads ns max_age_sec [] json already_written w = (json, already_written, w)"
| "initial_reads ns max_age_sec (addr # eibs) json already_written w =
     (let (cached_value, w) = cache_get addr max_age_sec w in
      case cached_value of
        Some v \<Rightarrow> initial_reads ns max_age_sec eibs (add_value ns addr v json) (insert addr already_written) w
      | None \<Rightarrow> initial_reads ns max_age_sec eibs json already_written w)"

fun send_reads :: "'k knxd_ops \<Rightarrow> u16 set \<Rightarrow> u16 list \<Rightarrow> 'k \<Rightarrow> 'k option" where
  "send_reads ops already_written [] k = Some k"
| "send_reads ops already_written (addr # eibs) k =
     (if addr \<notin> already_written then do {
        (_, k) \<leftarrow> kc_send_group_packet ops addr [0, 0] k;
        send_reads ops already_written eibs k
      }
      else send_reads ops already_written eibs k)"

fun add_delta ::
    "string \<Rightarrow> (u16 \<times> bytes) list \<Rightarrow> json_builder \<Rightarrow> u16 set \<Rightarrow> bool \<Rightarrow> json_builder \<times> u16 set \<times> bool" where
  "add_delta ns [] json already_written written = (json, already_written, written)"
| "add_delta ns ((addr, val) # values) json already_written written =
     (if addr \<notin> already_written
      then add_delta ns values (add_value ns addr val json) (insert addr already_written) True
      else add_delta ns values json already_written written)"

text \<open>The seconds that are left: the elapsed time is cast to \<^verbatim>\<open>int\<close>, and the subtraction may overflow.\<close>

definition remaining_sec :: "int \<Rightarrow> int \<Rightarrow> int \<Rightarrow> int option" where
  "remaining_sec timeout_sec tstart now =
     (let elapsed = (now - tstart) sdiv 1000000000;
          remaining = timeout_sec - sint (word_of_int elapsed :: u32)
      in if int32_min \<le> remaining \<and> remaining \<le> int32_max then Some remaining else None)"

lemma evolves_agenda: "evolves as w w' \<Longrightarrow> length (w_agenda w') \<le> length (w_agenda w)"
  by (auto simp: evolves_def)

lemma cache_get_delta_evolves: "\<exists>as. evolves as w (snd (cache_get_delta since subs age w))"
proof -
  obtain as where "evolves as w (snd (world_step w))" by (rule world_step_evolves)
  then show ?thesis by (auto simp: cache_get_delta_def case_prod_unfold Let_def)
qed

lemma cache_get_evolves: "\<exists>as. evolves as w (snd (cache_get a age w))"
proof -
  obtain as where "evolves as w (snd (world_step w))" by (rule world_step_evolves)
  then show ?thesis by (auto simp: cache_get_def case_prod_unfold Let_def)
qed

lemma cache_position_evolves: "\<exists>as. evolves as w (snd (cache_position w))"
proof -
  obtain as where "evolves as w (snd (world_step w))" by (rule world_step_evolves)
  then show ?thesis by (auto simp: cache_position_def case_prod_unfold Let_def)
qed

text \<open>A wait that reports data has seen at least one step of another process.\<close>

lemma wait_consumes:
  assumes "wait_for_new_data t w = (True, w')" "t > 0"
  shows "length (w_agenda w') < length (w_agenda w)"
proof -
  obtain a v where v: "world_step w = (a, v)" by (cases "world_step w")
  have d: "sgc_data (w_cache w) \<noteq> None" and l: "lock_acquired (act_lock a)"
    using assms v by (auto simp: wait_for_new_data_def split: if_splits)
  obtain as where as: "evolves as v w'" "(of_nat (length (all_pushes as)) :: u32) \<noteq> 0"
    using wait_for_new_data_blocking [OF d v l assms(2,1)] by auto
  then have "as \<noteq> []" by auto
  then have "length (w_agenda w') < length (w_agenda v)" using as(1) by (simp add: evolves_def)
  moreover have "length (w_agenda v) \<le> length (w_agenda w)" using world_step_agenda [of w] v by simp
  ultimately show ?thesis by simp
qed

lemma steady_now_agenda: "length (w_agenda (snd (steady_now w))) \<le> length (w_agenda w)"
  using steady_now_evolves [of w] evolves_agenda by metis

function poll_loop ::
    "config \<Rightarrow> int \<Rightarrow> int \<Rightarrow> u16 list \<Rightarrow> int \<Rightarrow> bool \<Rightarrow> json_builder \<Rightarrow> u16 set \<Rightarrow> u32 \<Rightarrow> world
       \<Rightarrow> (json_builder \<times> u32 \<times> world) option" where
  "poll_loop cfg timeout_sec max_age_sec eibs tstart written json already_written lastpos w =
     (if timeout_sec > 0 \<and> \<not> written then
        let (now, w) = steady_now w in
        case remaining_sec timeout_sec tstart now of
          None \<Rightarrow> None
        | Some remaining \<Rightarrow>
            if remaining \<le> 0 then Some (json, lastpos, w)
            else if remaining * 1000 > int32_max then None
            else
              let (new_data, w) = wait_for_new_data (remaining * 1000) w in
              if \<not> new_data then Some (json, lastpos, w)
              else
                let (delta, w) = cache_get_delta lastpos eibs max_age_sec w;
                    (json, already_written, written) =
                      add_delta (cf_default_namespace cfg) (cf_hash_order cfg (delta_values delta)) json
                        already_written written
                in poll_loop cfg timeout_sec max_age_sec eibs tstart written json already_written
                     (delta_position delta) w
      else Some (json, lastpos, w))"
  by pat_completeness auto
termination
proof (relation "measure (\<lambda>(_, _, _, _, _, _, _, _, _, w). length (w_agenda w))", goal_cases)
  case (2 cfg timeout_sec max_age_sec eibs tstart written json already_written lastpos w x now w1 remaining y new_data
      w2 z delta w3)
  have "length (w_agenda w1) \<le> length (w_agenda w)" using steady_now_agenda [of w] 2 by (metis snd_conv)
  moreover have "length (w_agenda w2) < length (w_agenda w1)"
    using wait_consumes [of "remaining * 1000" w1 w2] 2 by auto
  moreover have "length (w_agenda w3) \<le> length (w_agenda w2)"
    using cache_get_delta_evolves [of w2 lastpos eibs max_age_sec] evolves_agenda 2 by (metis snd_conv)
  ultimately show ?case by simp
qed simp

declare poll_loop.simps [simp del]

definition first_read ::
    "config \<Rightarrow> read_timing \<Rightarrow> u16 list \<Rightarrow> json_builder \<Rightarrow> world \<Rightarrow> (json_builder \<times> u16 set \<times> u32 \<times> world) option" where
  "first_read cfg rt eibs json w =
     (if rt_lastpos rt = 0 then
        let (json, already_written, w) = initial_reads (cf_default_namespace cfg) (rt_max_age_sec rt) eibs json {} w;
            (position, w) = cache_position w
        in case position of UB \<Rightarrow> None | Ret lastpos \<Rightarrow> Some (json, already_written, lastpos, w)
      else Some (json, {}, rt_lastpos rt, w))"

definition read_values ::
    "'k knxd_ops \<Rightarrow> config \<Rightarrow> read_timing \<Rightarrow> u16 list \<Rightarrow> 'k worker \<Rightarrow> (string \<times> 'k worker) option" where
  "read_values ops cfg rt eibs wk = do {
     let json = start_object (add_key ''d'' (start_object jb_new));
     (json, already_written, lastpos, w) \<leftarrow> first_read cfg rt eibs json (wk_world wk);
     k \<leftarrow> (if rt_bus_read rt then send_reads ops already_written eibs (wk_knxd wk) else Some (wk_knxd wk));
     let (tstart, w) = steady_now w;
     (json, lastpos, w) \<leftarrow> poll_loop cfg (rt_timeout_sec rt) (rt_max_age_sec rt) eibs tstart
       (already_written \<noteq> {}) json already_written lastpos w;
     let json = end_object (add_number ''i'' (uint lastpos) (end_object json));
     Some (jb_take json, wk\<lparr>wk_world := w, wk_knxd := k\<rparr>)
   }"

definition read_handle ::
    "'k knxd_ops \<Rightarrow> config \<Rightarrow> string \<Rightarrow> 'k worker \<Rightarrow> (read_result \<times> 'k worker) option" where
  "read_handle ops cfg qs wk =
     (let params = query_string qs;
          addresses = qs_get_all params ''a''
      in if addresses = [] then Some (\<lparr>rr_http_status = 400, rr_body = missing_address_body\<rparr>, wk)
         else
           let (ok, wk) = check_session params wk in
           if \<not> ok then Some (\<lparr>rr_http_status = 401, rr_body = invalid_session_body\<rparr>, wk)
           else case read_timing_of cfg params of
             None \<Rightarrow> Some (\<lparr>rr_http_status = 400, rr_body = invalid_timeout_body\<rparr>, wk)
           | Some rt \<Rightarrow>
               let eibs = eib_addrs (cf_default_namespace cfg) addresses [] in
               if eibs = [] then Some (\<lparr>rr_http_status = 404, rr_body = no_addresses_body\<rparr>, wk)
               else map_option (\<lambda>(body, wk). (\<lparr>rr_http_status = 200, rr_body = body\<rparr>, wk))
                      (read_values ops cfg rt eibs wk))"

section \<open>The response as a list of values\<close>

definition value_member :: "string \<Rightarrow> u16 \<times> bytes \<Rightarrow> member" where
  "value_member ns av = Member (addr_key ns (fst av)) (JString (hex_encode (snd av)))"

definition read_document :: "string \<Rightarrow> (u16 \<times> bytes) list \<Rightarrow> int \<Rightarrow> member list" where
  "read_document ns vs i = [Member ''d'' (JObject (map (value_member ns) vs)), Member ''i'' (JNumber i)]"

fun initial_values :: "int \<Rightarrow> u16 list \<Rightarrow> world \<Rightarrow> (u16 \<times> bytes) list \<times> world" where
  "initial_values age [] w = ([], w)"
| "initial_values age (a # eibs) w =
     (let (v, w) = cache_get a age w; (vs, w) = initial_values age eibs w
      in (case v of Some v \<Rightarrow> (a, v) # vs | None \<Rightarrow> vs, w))"

lemma emit_value: "emit (value_member ns (a, v)) json = add_value ns a v json"
  by (simp add: value_member_def add_value_def)

lemma initial_reads_values:
  assumes "initial_values age eibs w = (vs, w')"
  shows "initial_reads ns age eibs json aw w = (emit_all (map (value_member ns) vs) json, aw \<union> fst ` set vs, w')"
  using assms
proof (induction eibs arbitrary: json aw w vs w')
  case (Cons a eibs)
  obtain v w1 where g: "cache_get a age w = (v, w1)" by (cases "cache_get a age w")
  obtain vs1 w2 where r: "initial_values age eibs w1 = (vs1, w2)" by (cases "initial_values age eibs w1")
  show ?case using Cons.prems Cons.IH [OF r] by (auto simp: g r emit_value split: option.splits)
qed simp

lemma add_delta_values:
  assumes "distinct (map fst vs)"
  shows "add_delta ns vs json aw wr = (let new = filter (\<lambda>av. fst av \<notin> aw) vs in
    (emit_all (map (value_member ns) new) json, aw \<union> fst ` set vs, wr \<or> new \<noteq> []))"
  using assms
proof (induction vs arbitrary: json aw wr)
  case (Cons av vs)
  obtain a v where av: "av = (a, v)" by (cases av)
  have "filter (\<lambda>av. fst av \<notin> insert a aw) vs = filter (\<lambda>av. fst av \<notin> aw) vs"
    using Cons.prems av by (intro filter_cong) force+
  with Cons show ?case by (auto simp: av emit_value Let_def)
qed simp

lemma read_body_render:
  "jb_take (end_object (add_number ''i'' i (end_object (emit_all (map (value_member ns) vs)
     (start_object (add_key ''d'' (start_object jb_new))))))) = render (JObject (read_document ns vs i))"
proof -
  have "jb_take (end_object (add_number ''i'' i (end_object (emit_all (map (value_member ns) vs)
      (start_object (add_key ''d'' (start_object jb_new))))))) = jb_take (emit_document (read_document ns vs i) jb_new)"
    by (simp add: emit_document_def read_document_def)
  then show ?thesis by (simp add: emit_document_render jb_take_def jb_new_def)
qed

section \<open>Addresses\<close>

lemma eib_addrs_spec:
  assumes "sorted eibs" "distinct eibs"
  shows "sorted (eib_addrs ns as eibs) \<and> distinct (eib_addrs ns as eibs) \<and>
    set (eib_addrs ns as eibs) = set (targets ns as) \<union> set eibs"
  using assms
proof (induction as arbitrary: eibs)
  case (Cons a as)
  show ?case
  proof (cases "from_cometvisu ns a")
    case (Some p)
    let ?eibs = "insort_insert (to_eibaddr (ka_group p)) eibs"
    have "sorted ?eibs" "distinct ?eibs"
      using Cons.prems by (simp_all add: sorted_insort_insert distinct_insort_insert)
    from Cons.IH [OF this] Some show ?thesis by (auto simp: set_insort_insert)
  qed (use Cons in simp)
qed simp

lemma addr_key_inj: "addr_key ns a = addr_key ns b \<Longrightarrow> a = b"
proof -
  assume "addr_key ns a = addr_key ns b"
  then have "ga_to_string (from_eibaddr a) = ga_to_string (from_eibaddr b)"
    by (auto simp: addr_key_def to_cometvisu_def split: if_splits)
  then have "from_eibaddr a = from_eibaddr b" by (intro ga_text.encode_inj) simp_all
  then have "to_eibaddr (from_eibaddr a) = to_eibaddr (from_eibaddr b)" by (rule arg_cong)
  then show "a = b" by simp
qed

section \<open>Where the values come from\<close>

text \<open>A value was in the cache at some moment between two states of the world.\<close>

definition seen_during :: "world \<Rightarrow> world \<Rightarrow> u16 \<times> bytes \<Rightarrow> bool" where
  "seen_during w w' av \<longleftrightarrow> (\<exists>wm as bs. evolves as w wm \<and> evolves bs wm w' \<and> cached (w_cache wm) (fst av) (snd av))"

lemma seen_during_extend:
  assumes "seen_during w1 w2 av" "evolves as w w1" "evolves bs w2 w'"
  shows "seen_during w w' av"
proof -
  obtain wm cs ds where "evolves cs w1 wm" "evolves ds wm w2" "cached (w_cache wm) (fst av) (snd av)"
    using assms(1) by (auto simp: seen_during_def)
  with evolves_trans [OF assms(2)] evolves_trans [OF _ assms(3)] show ?thesis unfolding seen_during_def by metis
qed

lemma cache_get_spec:
  assumes "cache_get a age w = (r, w')"
  obtains as lock where "evolves as w w'" "r = sgc_get lock (w_epoch w') a age (w_cache w')"
    "locks_work w \<Longrightarrow> lock_acquired lock"
proof -
  obtain as where "evolves as w (snd (world_step w))" by (rule world_step_evolves)
  then show thesis
    using assms locks_work_step [of w] that [of as "act_lock (fst (world_step w))"]
    by (auto simp: cache_get_def case_prod_unfold Let_def)
qed

lemma initial_values_spec:
  assumes "initial_values age eibs w = (vs, w')"
  shows "(\<exists>as. evolves as w w') \<and> set (map fst vs) \<subseteq> set eibs \<and> (distinct eibs \<longrightarrow> distinct (map fst vs)) \<and>
    (\<forall>av \<in> set vs. seen_during w w' av)"
  using assms
proof (induction eibs arbitrary: w vs w')
  case Nil
  then show ?case by (auto intro: evolves_refl)
next
  case (Cons a eibs)
  obtain r w1 where g: "cache_get a age w = (r, w1)" by (cases "cache_get a age w")
  obtain vs1 w2 where i: "initial_values age eibs w1 = (vs1, w2)" by (cases "initial_values age eibs w1")
  have w': "w' = w2" and vs: "vs = (case r of Some v \<Rightarrow> (a, v) # vs1 | None \<Rightarrow> vs1)"
    using Cons.prems by (auto simp: g i)
  obtain as lock where as: "evolves as w w1" "r = sgc_get lock (w_epoch w1) a age (w_cache w1)"
    using cache_get_spec [OF g] by metis
  obtain bs where IH: "evolves bs w1 w2" "set (map fst vs1) \<subseteq> set eibs" "distinct eibs \<longrightarrow> distinct (map fst vs1)"
    "\<forall>av \<in> set vs1. seen_during w1 w2 av" using Cons.IH [OF i] by auto
  have later: "\<forall>av \<in> set vs1. seen_during w w2 av"
    using IH(4) seen_during_extend [OF _ as(1) evolves_refl] by blast
  moreover have "seen_during w w2 (a, v)" if "r = Some v" for v
    using as IH(1) sgc_get_cached that unfolding seen_during_def by (metis fst_conv snd_conv)
  ultimately show ?case
    using evolves_trans [OF as(1) IH(1)] IH(2,3) by (auto simp: w' vs split: option.splits)
qed

lemma evolves_cached:
  assumes "evolves as w w'" "cached (w_cache w) a v" "a \<noteq> 0" "\<exists>ps. history ps w"
  shows "\<exists>v'. cached (w_cache w') a v'"
proof -
  obtain ps where ps: "sgc_data (w_cache w) = Some (push_all push_locked ps zero_data)"
    using assms(4) by (auto simp: history_def)
  let ?d = "push_all push_locked ps zero_data"
  have "\<exists>v. get_locked 0 a (-1) ?d = Some v" using assms(2) ps by (auto simp: cached_def sgc_get_def)
  moreover have "length (sd_entries ?d) = kSharedCacheCapacity" by (simp add: push_all_length zero_data_def)
  ultimately have "\<exists>v. get_locked 0 a (-1) (push_all push_locked (all_pushes as) ?d) = Some v"
    by (rule push_all_keeps [OF _ assms(3)])
  moreover have "sgc_data (w_cache w') = Some (push_all push_locked (all_pushes as) ?d)"
    using assms(1) ps by (simp add: evolves_def push_all_data)
  ultimately show ?thesis by (simp add: cached_def sgc_get_def)
qed

lemma initial_values_complete:
  assumes "initial_values age eibs w = (vs, w')" "locks_work w" "age < 0" "history ps w"
    and "a \<in> set eibs" "a \<noteq> 0" "cached (w_cache w) a v"
  shows "a \<in> fst ` set vs"
  using assms
proof (induction eibs arbitrary: w vs w' v ps)
  case (Cons b eibs)
  obtain r w1 where g: "cache_get b age w = (r, w1)" by (cases "cache_get b age w")
  obtain vs1 w2 where i: "initial_values age eibs w1 = (vs1, w2)" by (cases "initial_values age eibs w1")
  have vs: "vs = (case r of Some v \<Rightarrow> (b, v) # vs1 | None \<Rightarrow> vs1)" using Cons.prems(1) by (auto simp: g i)
  obtain as lock where as: "evolves as w w1" "r = sgc_get lock (w_epoch w1) b age (w_cache w1)" "lock_acquired lock"
    using cache_get_spec [OF g] Cons.prems(2) by metis
  obtain v1 where v1: "cached (w_cache w1) a v1"
    using evolves_cached [OF as(1) Cons.prems(7,6)] Cons.prems(4) by blast
  show ?case
  proof (cases "a = b")
    case True
    then have "r = Some v1" using as v1 cached_sgc_get [OF _ as(3) Cons.prems(3)] by simp
    then show ?thesis using True by (simp add: vs)
  next
    case False
    then have "a \<in> fst ` set vs1"
      using Cons.IH [OF i locks_work_evolves [OF Cons.prems(2) as(1)] Cons.prems(3) history_evolves [OF Cons.prems(4) as(1)]
          _ Cons.prems(6) v1] Cons.prems(5) by simp
    then show ?thesis by (auto simp: vs split: option.split)
  qed
qed simp

section \<open>The poll loop\<close>

lemma cache_get_delta_spec:
  assumes "cache_get_delta pos eibs age w = (delta, w')"
  obtains as lock where "evolves as w w'" "delta = sgc_get_delta lock (w_epoch w') pos eibs age (w_cache w')"
    "locks_work w \<Longrightarrow> lock_acquired lock"
proof -
  obtain as where "evolves as w (snd (world_step w))" by (rule world_step_evolves)
  then show thesis
    using assms locks_work_step [of w] that [of as "act_lock (fst (world_step w))"]
    by (auto simp: cache_get_delta_def case_prod_unfold Let_def)
qed

text \<open>One round: the loop ends with what it has, or takes one delta and goes on.\<close>

lemma poll_loop_cases:
  assumes "poll_loop cfg T age eibs t0 wr json S pos w = Some (json', pos', w')"
  obtains (finished) as where "json' = json" "pos' = pos" "evolves as w w'"
  | (polled) as w2 lock delta json1 S1 wr1 where "\<not> wr" "evolves as w w2" "length (w_agenda w2) < length (w_agenda w)"
      "delta = sgc_get_delta lock (w_epoch w2) pos eibs age (w_cache w2)" "locks_work w \<Longrightarrow> lock_acquired lock"
      "add_delta (cf_default_namespace cfg) (cf_hash_order cfg (delta_values delta)) json S wr = (json1, S1, wr1)"
      "poll_loop cfg T age eibs t0 wr1 json1 S1 (delta_position delta) w2 = Some (json', pos', w')"
proof (cases "T > 0 \<and> \<not> wr")
  case False
  then have "poll_loop cfg T age eibs t0 wr json S pos w = Some (json, pos, w)" by (subst poll_loop.simps) auto
  then show thesis using finished [of "[]"] assms by simp
next
  case True
  obtain now w1 where n: "steady_now w = (now, w1)" by (cases "steady_now w")
  obtain as1 where as1: "evolves as1 w w1" using steady_now_evolves [of w] n by (metis snd_conv)
  obtain r where r: "remaining_sec T t0 now = Some r"
    using assms True by (subst (asm) poll_loop.simps) (auto simp: n split: option.splits)
  obtain b w2 where b: "wait_for_new_data (r * 1000) w1 = (b, w2)" by (cases "wait_for_new_data (r * 1000) w1")
  obtain as2 where as2: "evolves as2 w1 w2" using wait_for_new_data_evolves [of w1 "r * 1000"] b by auto
  obtain delta w3 where d: "cache_get_delta pos eibs age w2 = (delta, w3)" by (cases "cache_get_delta pos eibs age w2")
  obtain as3 lock where as3: "evolves as3 w2 w3" "delta = sgc_get_delta lock (w_epoch w3) pos eibs age (w_cache w3)"
    "locks_work w2 \<Longrightarrow> lock_acquired lock" using cache_get_delta_spec [OF d] by metis
  obtain json1 S1 wr1 where a: "add_delta (cf_default_namespace cfg) (cf_hash_order cfg (delta_values delta)) json S wr =
      (json1, S1, wr1)" by (cases "add_delta (cf_default_namespace cfg) (cf_hash_order cfg (delta_values delta)) json S wr")
  have wr: "wr = False" using True by simp
  have "poll_loop cfg T age eibs t0 wr json S pos w = (if r \<le> 0 then Some (json, pos, w1)
      else if r * 1000 > int32_max then None else if \<not> b then Some (json, pos, w2)
      else poll_loop cfg T age eibs t0 wr1 json1 S1 (delta_position delta) w3)"
    by (subst poll_loop.simps) (use True in \<open>simp add: n r b d a [unfolded wr]\<close>)
  note unf = this [symmetric, unfolded assms]
  show thesis
  proof (cases "r > 0 \<and> b")
    case True
    have "length (w_agenda w2) < length (w_agenda w1)" using wait_consumes b True by simp
    then have "length (w_agenda w3) < length (w_agenda w)"
      using evolves_agenda [OF as1] evolves_agenda [OF as3(1)] by simp
    moreover have "poll_loop cfg T age eibs t0 wr1 json1 S1 (delta_position delta) w3 = Some (json', pos', w')"
      using unf True by (simp split: if_splits)
    ultimately show thesis
      using polled [OF _ evolves_trans [OF evolves_trans [OF as1 as2] as3(1)] _ as3(2) _ a] \<open>T > 0 \<and> \<not> wr\<close>
        as3(3) locks_work_evolves as1 as2 by blast
  next
    case False
    then have "json' = json \<and> pos' = pos \<and> (w' = w1 \<or> w' = w2)" using unf by (auto split: if_splits)
    then show thesis using finished as1 evolves_trans [OF as1 as2] by blast
  qed
qed

lemma hash_order_perm:
  assumes "hash_order_law cfg"
  shows "set (cf_hash_order cfg xs) = set xs" "distinct (map fst (cf_hash_order cfg xs)) \<longleftrightarrow> distinct (map fst xs)"
proof -
  have m: "mset (cf_hash_order cfg xs) = mset xs" using assms by (simp add: hash_order_law_def)
  then show "set (cf_hash_order cfg xs) = set xs" by (rule mset_eq_setD)
  have "mset (map fst (cf_hash_order cfg xs)) = mset (map fst xs)" using m by simp
  then show "distinct (map fst (cf_hash_order cfg xs)) \<longleftrightarrow> distinct (map fst xs)" by (metis mset_eq_imp_distinct_iff)
qed

text \<open>The delta of a round in which nothing has been written yet goes into the document as it is.\<close>

lemma delta_written:
  assumes "hash_order_law cfg" "distinct eibs" "delta = sgc_get_delta lock now pos eibs age c"
    and "add_delta ns (cf_hash_order cfg (delta_values delta)) json {} False = (json1, S1, wr1)"
  obtains vals where "json1 = emit_all (map (value_member ns) vals) json" "S1 = fst ` set vals" "wr1 \<longleftrightarrow> vals \<noteq> []"
    "set vals = set (delta_values delta)" "distinct (map fst vals)"
proof
  let ?v = "cf_hash_order cfg (delta_values delta)"
  show d: "distinct (map fst ?v)"
    using hash_order_perm(2) [OF assms(1)] sgc_get_delta_distinct [OF assms(2)] assms(3) by blast
  show "json1 = emit_all (map (value_member ns) ?v) json" "S1 = fst ` set ?v" "wr1 \<longleftrightarrow> ?v \<noteq> []"
    using add_delta_values [OF d, of ns json "{}" False] assms(4) by (simp_all add: Let_def)
  show "set ?v = set (delta_values delta)" using hash_order_perm(1) [OF assms(1)] .
qed

lemma poll_loop_values:
  assumes "poll_loop cfg T age eibs t0 wr json S pos w = Some (json', pos', w')" "hash_order_law cfg" "distinct eibs"
    and "wr \<longleftrightarrow> S \<noteq> {}"
  shows "\<exists>vs as. json' = emit_all (map (value_member (cf_default_namespace cfg)) vs) json \<and> evolves as w w' \<and>
    distinct (map fst vs) \<and> set (map fst vs) \<subseteq> set eibs \<and> (\<forall>av \<in> set vs. seen_during w w' av) \<and> (wr \<longrightarrow> vs = [])"
  using assms(1,4)
proof (induction "length (w_agenda w)" arbitrary: wr json S pos w rule: less_induct)
  case less
  from less.prems(1) show ?case
  proof (cases rule: poll_loop_cases)
    case (finished as)
    then show ?thesis by (intro exI [of _ "[]"] exI [of _ as]) simp
  next
    case (polled as w2 lock delta json1 S1 wr1)
    let ?vm = "value_member (cf_default_namespace cfg)"
    have S: "S = {}" "wr = False" using polled(1) less.prems(2) by auto
    obtain vals where vals: "json1 = emit_all (map ?vm vals) json" "S1 = fst ` set vals" "wr1 \<longleftrightarrow> vals \<noteq> []"
      "set vals = set (delta_values delta)" "distinct (map fst vals)"
      by (rule delta_written [OF assms(2,3) polled(4) polled(6) [unfolded S]])
    have "wr1 \<longleftrightarrow> S1 \<noteq> {}" using vals(2,3) by simp
    then obtain vs bs where IH: "json' = emit_all (map ?vm vs) json1" "evolves bs w2 w'" "distinct (map fst vs)"
      "set (map fst vs) \<subseteq> set eibs" "\<forall>av \<in> set vs. seen_during w2 w' av" "wr1 \<longrightarrow> vs = []"
      using less.hyps [OF polled(3,7)] by blast
    have all: "vals = [] \<or> vs = []" using IH(6) vals(3) by blast
    have src: "fst av \<in> set eibs \<and> seen_during w w' av" if "av \<in> set vals" for av
    proof -
      have "(fst av, snd av) \<in> set (delta_values delta)" using that vals(4) by simp
      from sgc_get_delta_cached [OF this [unfolded polled(4)]] show ?thesis
        using polled(2) IH(2) unfolding seen_during_def by blast
    qed
    moreover have "\<forall>av \<in> set vs. seen_during w w' av"
      using IH(5) seen_during_extend [OF _ polled(2) evolves_refl] by blast
    ultimately show ?thesis
      using IH(1,3,4) vals(1,5) all evolves_trans [OF polled(2) IH(2)] S(2)
      by (intro exI [of _ "vals @ vs"] exI [of _ "as @ bs"]) auto
  qed
qed

text \<open>
  The index: whatever the loop returns, the position it reports covers a prefix of the pushes since
  the client's position, and the last value of every subscribed address in that prefix is delivered.
\<close>

lemma ordinary_history:
  assumes "ordinary (ps @ q0 @ all_pushes (w_agenda w))" "evolves as w w'"
  shows "ordinary ((ps @ q0 @ all_pushes as) @ [] @ all_pushes (w_agenda w'))"
  using assms by (simp add: evolves_def)

lemma poll_loop_index:
  assumes "poll_loop cfg T (-1) eibs t0 False json {} pos w = Some (json', pos', w')" "hash_order_law cfg" "distinct eibs"
    and "locks_work w" "history (ps @ q0) w" "ps \<noteq> []" "pos = of_nat (length ps)"
    and "ordinary (ps @ q0 @ all_pushes (w_agenda w))"
  shows "\<exists>vs qs rest as. json' = emit_all (map (value_member (cf_default_namespace cfg)) vs) json \<and> evolves as w w' \<and>
    q0 @ all_pushes as = qs @ rest \<and> pos' = of_nat (length (ps @ qs)) \<and>
    (\<forall>a \<in> set eibs. \<forall>v. last_push a qs = Some v \<longrightarrow> (a, take kMaxSharedValueBytes v) \<in> set vs)"
  using assms(1,4-8)
proof (induction "length (w_agenda w)" arbitrary: pos w ps q0 rule: less_induct)
  case less
  let ?vm = "value_member (cf_default_namespace cfg)"
  from less.prems(1) show ?case
  proof (cases rule: poll_loop_cases)
    case (finished as)
    then show ?thesis
      using less.prems(5) by (intro exI [of _ "[]"] exI [of _ "q0 @ all_pushes as"] exI [of _ as]) (simp add: last_push_def)
  next
    case (polled as w2 lock delta json1 S1 wr1)
    obtain vals where vals: "json1 = emit_all (map ?vm vals) json" "S1 = fst ` set vals" "wr1 \<longleftrightarrow> vals \<noteq> []"
      "set vals = set (delta_values delta)" "distinct (map fst vals)"
      by (rule delta_written [OF assms(2,3) polled(4,6)])
    let ?q = "q0 @ all_pushes as"
    have ord2: "ordinary ((ps @ ?q) @ [] @ all_pushes (w_agenda w2))"
      using ordinary_history [OF less.prems(6) polled(2)] by simp
    then have ord: "ordinary (ps @ ?q)" by (rule ordinary_append)
    have hist: "history (ps @ ?q) w2" using history_evolves [OF less.prems(3) polled(2)] by simp
    have lock: "lock_acquired lock" using polled(5) less.prems(2) .
    have pos2: "delta_position delta = of_nat (length (ps @ ?q))"
      using delta_position_ordinary [OF hist ord lock] polled(4) by blast
    have offered: "(a, take kMaxSharedValueBytes v) \<in> set vals" if "a \<in> set eibs" "last_push a ?q = Some v" for a v
      using delta_offers_last [OF hist ord less.prems(4) that lock] polled(4) less.prems(5) vals(4) by simp
    show ?thesis
    proof (cases "vals = []")
      case False
      then have "json' = json1" "pos' = delta_position delta" "w' = w2"
        using polled(7) vals(3) by (simp_all add: poll_loop.simps)
      then show ?thesis
        using polled(2) vals(1) pos2 offered by (intro exI [of _ vals] exI [of _ ?q] exI [of _ "[]"] exI [of _ as]) simp
    next
      case True
      then have again: "poll_loop cfg T (-1) eibs t0 False json {} (delta_position delta) w2 = Some (json', pos', w')"
        using polled(7) vals(1-3) by simp
      have none: "last_push a ?q = None" if "a \<in> set eibs" for a
        using offered [OF that] True by (cases "last_push a ?q") auto
      have hist': "history ((ps @ ?q) @ []) w2" using hist by simp
      obtain vs qs rest bs where IH: "json' = emit_all (map ?vm vs) json" "evolves bs w2 w'" "all_pushes bs = qs @ rest"
        "pos' = of_nat (length ((ps @ ?q) @ qs))"
        "\<forall>a \<in> set eibs. \<forall>v. last_push a qs = Some v \<longrightarrow> (a, take kMaxSharedValueBytes v) \<in> set vs"
        using less.hyps [OF polled(3) again locks_work_evolves [OF less.prems(2) polled(2)] hist' _ pos2 ord2] less.prems(4)
        by auto
      have "last_push a (?q @ qs) = last_push a qs" if "a \<in> set eibs" for a
        unfolding last_push_append [of a ?q qs] none [OF that] by (simp split: option.split)
      then show ?thesis
        using IH evolves_trans [OF polled(2) IH(2)]
        by (intro exI [of _ vs] exI [of _ "?q @ qs"] exI [of _ rest] exI [of _ "as @ bs"]) simp
    qed
  qed
qed

section \<open>The whole request\<close>

lemma read_values_cases:
  assumes "read_values ops cfg rt eibs wk = Some (body, wk')"
  obtains json S pos w1 k w2 tstart json' pos' w3 where
    "first_read cfg rt eibs (start_object (add_key ''d'' (start_object jb_new))) (wk_world wk) = Some (json, S, pos, w1)"
    "(if rt_bus_read rt then send_reads ops S eibs (wk_knxd wk) else Some (wk_knxd wk)) = Some k"
    "steady_now w1 = (tstart, w2)"
    "poll_loop cfg (rt_timeout_sec rt) (rt_max_age_sec rt) eibs tstart (S \<noteq> {}) json S pos w2 = Some (json', pos', w3)"
    "body = jb_take (end_object (add_number ''i'' (uint pos') (end_object json')))"
    "wk' = wk\<lparr>wk_world := w3, wk_knxd := k\<rparr>"
proof -
  obtain json S pos w1 where 1: "first_read cfg rt eibs (start_object (add_key ''d'' (start_object jb_new))) (wk_world wk)
      = Some (json, S, pos, w1)"
    using assms by (auto simp: read_values_def Let_def bind_eq_Some_conv)
  obtain k where 2: "(if rt_bus_read rt then send_reads ops S eibs (wk_knxd wk) else Some (wk_knxd wk)) = Some k"
    using assms 1 by (auto simp: read_values_def Let_def bind_eq_Some_conv)
  obtain tstart w2 where 3: "steady_now w1 = (tstart, w2)" by (cases "steady_now w1")
  obtain json' pos' w3 where 4: "poll_loop cfg (rt_timeout_sec rt) (rt_max_age_sec rt) eibs tstart (S \<noteq> {}) json S pos w2
      = Some (json', pos', w3)"
    using assms 1 2 3 by (auto simp: read_values_def Let_def bind_eq_Some_conv)
  show thesis
    using that [OF 1 2 3 4] assms 1 2 3 4 by (simp add: read_values_def Let_def)
qed

lemma first_read_cases:
  assumes "first_read cfg rt eibs json w = Some (json1, S, pos, w')"
  obtains (initial) vs wm where "rt_lastpos rt = 0" "initial_values (rt_max_age_sec rt) eibs w = (vs, wm)"
      "json1 = emit_all (map (value_member (cf_default_namespace cfg)) vs) json" "S = fst ` set vs"
      "cache_position wm = (Ret pos, w')"
  | (delta) "rt_lastpos rt \<noteq> 0" "json1 = json" "S = {}" "pos = rt_lastpos rt" "w' = w"
proof (cases "rt_lastpos rt = 0")
  case True
  obtain vs wm where v: "initial_values (rt_max_age_sec rt) eibs w = (vs, wm)" by (cases "initial_values (rt_max_age_sec rt) eibs w")
  obtain p w1 where p: "cache_position wm = (p, w1)" by (cases "cache_position wm")
  have r: "p = Ret pos" "w1 = w'" "S = fst ` set vs" "json1 = emit_all (map (value_member (cf_default_namespace cfg)) vs) json"
    using assms True by (auto simp: first_read_def Let_def initial_reads_values [OF v] p split: outcome.splits)
  show thesis by (rule initial [OF True v r(4,3) p [unfolded r(1,2)]])
next
  case False
  then have "json1 = json" "S = {}" "pos = rt_lastpos rt" "w' = w" using assms by (auto simp: first_read_def)
  then show thesis by (rule delta [OF False])
qed

lemma read_handle_200:
  assumes "read_handle ops cfg qs wk = Some (r, wk')" "rr_http_status r = 200"
  obtains wk1 rt where "check_session (query_string qs) wk = (True, wk1)" "read_timing_of cfg (query_string qs) = Some rt"
    "read_values ops cfg rt (eib_addrs (cf_default_namespace cfg) (qs_get_all (query_string qs) ''a'') []) wk1
       = Some (rr_body r, wk')"
proof -
  obtain ok wk1 where c: "check_session (query_string qs) wk = (ok, wk1)" by (cases "check_session (query_string qs) wk")
  let ?eibs = "eib_addrs (cf_default_namespace cfg) (qs_get_all (query_string qs) ''a'') []"
  have ok: "ok" and "\<exists>rt. read_timing_of cfg (query_string qs) = Some rt \<and>
      map_option (\<lambda>(body, wk). (\<lparr>rr_http_status = 200, rr_body = body\<rparr>, wk)) (read_values ops cfg rt ?eibs wk1) = Some (r, wk')"
    using assms c by (auto simp: read_handle_def Let_def split: if_splits option.splits)
  then obtain rt where "read_timing_of cfg (query_string qs) = Some rt" "read_values ops cfg rt ?eibs wk1 = Some (rr_body r, wk')"
    by auto
  moreover have "check_session (query_string qs) wk = (True, wk1)" using c ok by simp
  ultimately show thesis using that by blast
qed

lemma printable_append [simp]: "printable (xs @ ys) \<longleftrightarrow> printable xs \<and> printable ys"
  by (auto simp: printable_def)

lemma printable_digits:
  assumes "\<forall>c \<in> set s. is_digit c"
  shows "printable s"
  unfolding printable_def
proof
  fix c assume "c \<in> set s"
  then have "is_digit c" using assms by blast
  then show "32 \<le> ord c \<or> c = CHR 0x0A \<or> c = CHR 0x0D \<or> c = CHR 0x09"
    unfolding is_digit_def by linarith
qed

lemma printable_slash: "printable (CHR ''/'' # s) \<longleftrightarrow> printable s" "printable (CHR '':'' # s) \<longleftrightarrow> printable s"
  by (simp_all add: printable_def)

lemma printable_addr_key: "printable ns \<Longrightarrow> printable (addr_key ns a)"
  by (simp add: addr_key_def to_cometvisu_def ga_to_string_def printable_digits to_string_digits printable_slash)

lemma printable_hex_encode: "printable (hex_encode v)"
  unfolding printable_def
proof
  fix c assume "c \<in> set (hex_encode v)"
  then have "lower_hex c" by (rule hex_encode_lower)
  then show "32 \<le> ord c \<or> c = CHR 0x0A \<or> c = CHR 0x0D \<or> c = CHR 0x09"
    unfolding lower_hex_def is_digit_def by linarith
qed

lemma read_document_ok: "printable ns \<Longrightarrow> members_ok (read_document ns vs i)"
proof -
  assume "printable ns"
  then have "members_ok (map (value_member ns) vs)"
    by (induction vs) (simp_all add: value_member_def printable_addr_key printable_hex_encode)
  then show ?thesis by (simp add: read_document_def) (simp add: printable_def)
qed

lemma cache_position_spec:
  assumes "cache_position w = (p, w')"
  obtains as where "evolves as w w'" "p = sgc_position (w_cache w')"
proof -
  obtain as where "evolves as w (snd (world_step w))" by (rule world_step_evolves)
  then show thesis using assms that [of as] by (auto simp: cache_position_def case_prod_unfold Let_def)
qed

text \<open>What the document of a successful request is made of.\<close>

lemma read_values_spec:
  assumes "read_values ops cfg rt eibs wk = Some (body, wk')" "hash_order_law cfg" "distinct eibs"
  shows "\<exists>vs pos as. body = render (JObject (read_document (cf_default_namespace cfg) vs (uint (pos :: u32)))) \<and>
    distinct (map fst vs) \<and> set (map fst vs) \<subseteq> set eibs \<and> evolves as (wk_world wk) (wk_world wk') \<and>
    (\<forall>av \<in> set vs. seen_during (wk_world wk) (wk_world wk') av)"
  using assms(1)
proof (cases rule: read_values_cases)
  case (1 json S pos w1 k w2 tstart json' pos' w3)
  let ?vm = "value_member (cf_default_namespace cfg)"
  obtain bs where bs: "evolves bs w1 w2" using steady_now_evolves [of w1] 1(3) by (metis snd_conv)
  obtain vs as where P: "json' = emit_all (map ?vm vs) json" "evolves as w2 w3" "distinct (map fst vs)"
    "set (map fst vs) \<subseteq> set eibs" "\<forall>av \<in> set vs. seen_during w2 w3 av" "S \<noteq> {} \<longrightarrow> vs = []"
    using poll_loop_values [OF 1(4) assms(2,3) refl] by blast
  from 1(1) show ?thesis
  proof (cases rule: first_read_cases)
    case (initial us wm)
    obtain cs where cs: "evolves cs (wk_world wk) wm" "set (map fst us) \<subseteq> set eibs" "distinct (map fst us)"
      "\<forall>av \<in> set us. seen_during (wk_world wk) wm av" using initial_values_spec [OF initial(2)] assms(3) by auto
    obtain ds where ds: "evolves ds wm w1" using cache_position_spec [OF initial(5)] by blast
    have e: "evolves ((ds @ bs) @ as) wm w3" using evolves_trans [OF evolves_trans [OF ds bs] P(2)] .
    have "us = [] \<or> vs = []" using P(6) initial(4) by auto
    moreover have "\<forall>av \<in> set us. seen_during (wk_world wk) w3 av"
      using cs(4) seen_during_extend [OF _ evolves_refl e] by blast
    moreover have "\<forall>av \<in> set vs. seen_during (wk_world wk) w3 av"
      using P(5) seen_during_extend [OF _ evolves_trans [OF evolves_trans [OF cs(1) ds] bs] evolves_refl] by blast
    moreover have "body = render (JObject (read_document (cf_default_namespace cfg) (us @ vs) (uint pos')))"
      unfolding 1(5) P(1) initial(3) using read_body_render [of "uint pos'" _ "us @ vs"] by simp
    ultimately show ?thesis
      using cs(2,3) P(3,4) 1(6) evolves_trans [OF cs(1) e]
      by (intro exI [of _ "us @ vs"] exI [of _ pos'] exI [of _ "cs @ (ds @ bs) @ as"]) auto
  next
    case delta
    have "body = render (JObject (read_document (cf_default_namespace cfg) vs (uint pos')))"
      unfolding 1(5) P(1) delta(2) by (rule read_body_render)
    moreover have "\<forall>av \<in> set vs. seen_during (wk_world wk) w3 av"
      using P(5) seen_during_extend [OF _ bs evolves_refl] delta(5) by blast
    ultimately show ?thesis
      using P(3,4) 1(6) evolves_trans [OF bs P(2)] delta(5) by auto
  qed
qed

lemma request_eibs:
  "distinct (eib_addrs ns as []) \<and> set (eib_addrs ns as []) = set (targets ns as)"
  using eib_addrs_spec [of "[]" ns as] by simp

section \<open>Every request is answered\<close>

text \<open>
  The clocks: the other processes' readings stay below \<open>B\<close>.  Then no wait moves the clock beyond its
  deadline, the loop stops when the timeout has passed, and all conversions stay in range for
  timeouts of at most 2147483 seconds, the largest for which the milliseconds fit into an \<^verbatim>\<open>int\<close>.
\<close>

definition agenda_clock :: "int \<Rightarrow> world \<Rightarrow> bool" where
  "agenda_clock B w \<longleftrightarrow> (\<forall>a \<in> set (w_agenda w). act_steady a \<le> B)"

lemma agenda_clock_evolves: "agenda_clock B w \<Longrightarrow> evolves as w w' \<Longrightarrow> agenda_clock B w'"
  by (auto simp: agenda_clock_def evolves_def)

lemma world_step_clock:
  "agenda_clock B w \<Longrightarrow> w_steady (snd (world_step w)) \<le> max (w_steady w) B"
  by (auto simp: world_step_def perform_def agenda_clock_def split: list.split)

lemma wait_loop_clock:
  assumes "agenda_clock B w"
  shows "w_steady (wait_loop gen ts timed_out w) \<le> max (max (w_steady w) B) (ns_of ts)"
  using assms
proof (induction gen ts timed_out w rule: wait_loop.induct)
  case (1 gen ts timed_out w)
  show ?case
  proof (cases "sgc_generation (w_cache w) = gen \<and> \<not> timed_out")
    case True
    obtain rc v where v: "cond_timedwait ts w = (rc, v)" by (cases "cond_timedwait ts w")
    have unf: "wait_loop gen ts timed_out w = (case rc of Rc_ok \<Rightarrow> wait_loop gen ts timed_out v
        | Rc_timedout \<Rightarrow> wait_loop gen ts True v | Rc_error \<Rightarrow> v)"
      by (subst wait_loop.simps) (use True v in simp)
    have clk: "w_steady v \<le> max (max (w_steady w) B) (ns_of ts)"
      using v world_step_clock [OF "1.prems"] by (auto simp: cond_timedwait_def case_prod_unfold Let_def split: wait_rc.splits)
    have ag: "agenda_clock B v" using cond_timedwait_evolves [OF v] agenda_clock_evolves [OF "1.prems"] by blast
    show ?thesis
      using "1.IH" [OF True v [symmetric]] clk ag unfolding unf by (cases rc) auto
  next
    case False
    then show ?thesis by (subst wait_loop.simps) auto
  qed
qed

lemma wait_for_new_data_clock:
  assumes "agenda_clock B w" "0 \<le> t"
  shows "w_steady (snd (wait_for_new_data t w)) \<le> max (w_steady w) B + t * 1000000"
proof -
  obtain a v where v: "world_step w = (a, v)" by (cases "world_step w")
  have ag: "agenda_clock B v" using world_step_evolves [of w] v agenda_clock_evolves [OF assms(1)] by (metis snd_conv)
  have clk: "w_steady v \<le> max (w_steady w) B" using world_step_clock [OF assms(1)] v by simp
  show ?thesis
    using wait_loop_clock [OF ag, of "sgc_generation (w_cache v)" "wait_deadline t (timespec_of (w_steady v))" False] clk assms(2)
    by (auto simp: wait_for_new_data_def v Let_def wait_deadline_ns)
qed

lemma remaining_sec_Some:
  assumes "0 \<le> T" "T \<le> int32_max" "t0 \<le> now" "now - t0 < 2147483648 * 1000000000"
  shows "remaining_sec T t0 now = Some (T - (now - t0) div 1000000000)"
proof -
  let ?e = "(now - t0) div 1000000000"
  have e: "(now - t0) sdiv 1000000000 = ?e" using assms by (simp add: sdiv_pos_nonneg)
  have "0 \<le> ?e" using assms by (simp add: pos_imp_zdiv_nonneg_iff)
  moreover have "?e * 1000000000 \<le> now - t0"
    using div_mult_mod_eq [of "now - t0" 1000000000] pos_mod_sign [of 1000000000 "now - t0"] by linarith
  then have "?e < 2147483648" using assms(4) by linarith
  ultimately have e2: "0 \<le> ?e" "?e < 2147483648" by blast+
  then have "sint (word_of_int ?e :: u32) = ?e" by (simp add: sint_sbintrunc' signed_take_bit_int_eq_self)
  then show ?thesis using assms e e2 by (simp add: remaining_sec_def Let_def)
qed

lemma remaining_bounds:
  fixes t0 now :: int
  assumes "t0 \<le> now" "r = T - (now - t0) div 1000000000"
  shows "r \<le> T \<and> now + r * 1000000000 \<le> t0 + (T + 1) * 1000000000"
proof -
  have "(now - t0) - 1000000000 < (now - t0) div 1000000000 * 1000000000"
    using div_mult_mod_eq [of "now - t0" 1000000000] pos_mod_bound [of 1000000000 "now - t0"] by linarith
  then show ?thesis using assms by (simp add: pos_imp_zdiv_nonneg_iff algebra_simps)
qed

text \<open>One wait that reported data and the query after it: the agenda shrinks and the clock stays bounded.\<close>

lemma wait_and_query:
  assumes "agenda_clock B w1" "wait_for_new_data (r * 1000) w1 = (True, w2)" "r > 0"
    and "cache_get_delta pos eibs age w2 = (delta, w3)"
  shows "agenda_clock B w3 \<and> length (w_agenda w3) < length (w_agenda w1) \<and> w_steady w1 \<le> w_steady w3 \<and>
    w_steady w3 \<le> max (w_steady w1) B + r * 1000000000"
proof -
  obtain as2 where as2: "evolves as2 w1 w2" using wait_for_new_data_evolves [of w1 "r * 1000"] assms(2) by auto
  obtain as3 where as3: "evolves as3 w2 w3" using cache_get_delta_spec [OF assms(4)] by metis
  have ag2: "agenda_clock B w2" using agenda_clock_evolves [OF assms(1) as2] .
  have "length (w_agenda w2) < length (w_agenda w1)" using wait_consumes assms(2,3) by simp
  then have "length (w_agenda w3) < length (w_agenda w1)" using evolves_agenda [OF as3] by simp
  moreover have "w_steady w2 \<le> max (w_steady w1) B + r * 1000 * 1000000"
    using wait_for_new_data_clock [OF assms(1), of "r * 1000"] assms(2,3) by simp
  moreover have "w_steady w3 \<le> max (w_steady w2) B"
    using world_step_clock [OF ag2] assms(4) by (auto simp: cache_get_delta_def case_prod_unfold Let_def)
  moreover have "w_steady w1 \<le> w_steady w3" using as2 as3 by (simp add: evolves_def)
  ultimately show ?thesis using agenda_clock_evolves [OF ag2 as3] assms(3) by auto
qed

lemma poll_loop_returns:
  assumes "T \<le> 2147483" "agenda_clock B w" "t0 \<le> B" "t0 \<le> w_steady w" "w_steady w \<le> B + (T + 1) * 1000000000"
    and "B + (T + 1) * 1000000000 - t0 < 2147483648 * 1000000000"
  shows "poll_loop cfg T age eibs t0 wr json S pos w \<noteq> None"
  using assms(2,4,5)
proof (induction "length (w_agenda w)" arbitrary: wr json S pos w rule: less_induct)
  case less
  show ?case
  proof (cases "T > 0 \<and> \<not> wr")
    case False
    then show ?thesis by (subst poll_loop.simps) auto
  next
    case go: True
    obtain now w1 where n: "steady_now w = (now, w1)" by (cases "steady_now w")
    obtain as1 where as1: "evolves as1 w w1" "now = w_steady w1"
      using steady_now_evolves [of w] n by (metis fst_conv snd_conv)
    have "w_steady w1 \<le> max (w_steady w) B"
      using world_step_clock [OF less.prems(1)] n by (auto simp: steady_now_def case_prod_unfold Let_def)
    then have now: "t0 \<le> now" "now \<le> B + (T + 1) * 1000000000"
      using as1 less.prems(2,3) go by (auto simp: evolves_def)
    define r where "r = T - (now - t0) div 1000000000"
    have r: "remaining_sec T t0 now = Some r"
      unfolding r_def using go now assms(1,6) by (intro remaining_sec_Some) auto
    note bounds = remaining_bounds [OF now(1) r_def]
    obtain b w2 where b: "wait_for_new_data (r * 1000) w1 = (b, w2)" by (cases "wait_for_new_data (r * 1000) w1")
    obtain delta w3 where d: "cache_get_delta pos eibs age w2 = (delta, w3)" by (cases "cache_get_delta pos eibs age w2")
    obtain json1 S1 wr1 where a: "add_delta (cf_default_namespace cfg) (cf_hash_order cfg (delta_values delta)) json S wr =
        (json1, S1, wr1)" by (cases "add_delta (cf_default_namespace cfg) (cf_hash_order cfg (delta_values delta)) json S wr")
    have wr: "wr = False" using go by simp
    have unf: "poll_loop cfg T age eibs t0 wr json S pos w = (if r \<le> 0 then Some (json, pos, w1)
        else if r * 1000 > int32_max then None else if \<not> b then Some (json, pos, w2)
        else poll_loop cfg T age eibs t0 wr1 json1 S1 (delta_position delta) w3)"
      by (subst poll_loop.simps) (use go in \<open>simp add: n r b d a [unfolded wr]\<close>)
    show ?thesis
    proof (cases "r > 0 \<and> b")
      case False
      then show ?thesis using bounds assms(1) unfolding unf by auto
    next
      case True
      have ag1: "agenda_clock B w1" using agenda_clock_evolves [OF less.prems(1) as1(1)] .
      have w3: "agenda_clock B w3" "length (w_agenda w3) < length (w_agenda w1)" "w_steady w1 \<le> w_steady w3"
        "w_steady w3 \<le> max (w_steady w1) B + r * 1000000000"
        using wait_and_query [OF ag1 _ _ d] b True by auto
      have "B + r * 1000000000 \<le> B + (T + 1) * 1000000000" using bounds by simp
      then have "w_steady w3 \<le> B + (T + 1) * 1000000000" using w3(4) bounds assms(3) as1(2) by (simp add: max_def split: if_splits)
      then have "poll_loop cfg T age eibs t0 wr1 json1 S1 (delta_position delta) w3 \<noteq> None"
        using less.hyps [of w3 wr1 json1 S1 "delta_position delta"] w3 evolves_agenda [OF as1(1)] now(1) as1(2) by simp
      then show ?thesis using True bounds assms(1) unfolding unf by auto
    qed
  qed
qed

lemma send_reads_returns:
  "(\<forall>a d k. kc_send_group_packet ops a d k \<noteq> None) \<Longrightarrow> send_reads ops S eibs k \<noteq> None"
proof (induction eibs arbitrary: k)
  case (Cons a eibs)
  have "kc_send_group_packet ops a [0, 0] k \<noteq> None" using Cons.prems by blast
  then obtain r k' where "kc_send_group_packet ops a [0, 0] k = Some (r, k')" by auto
  with Cons show ?case by auto
qed simp

definition clock_ok :: "int \<Rightarrow> int \<Rightarrow> world \<Rightarrow> bool" where
  "clock_ok A B w \<longleftrightarrow> agenda_clock B w \<and> A \<le> w_steady w \<and> w_steady w \<le> B"

lemma clock_ok_step: "clock_ok A B w \<Longrightarrow> clock_ok A B (snd (world_step w))"
  using world_step_clock [of B w] by (auto simp: clock_ok_def agenda_clock_def world_step_def perform_def split: list.splits)

lemma clock_ok_ops:
  assumes "clock_ok A B w"
  shows "clock_ok A B (snd (cache_get a age w))" "clock_ok A B (snd (cache_position w))" "clock_ok A B (snd (steady_now w))"
  using clock_ok_step [OF assms]
  by (simp_all add: cache_get_def cache_position_def steady_now_def case_prod_unfold Let_def)

lemma clock_ok_initial: "clock_ok A B w \<Longrightarrow> clock_ok A B (snd (initial_values age eibs w))"
proof (induction eibs arbitrary: w)
  case (Cons a eibs)
  then show ?case using clock_ok_ops(1) by (simp add: case_prod_unfold Let_def)
qed simp

lemma first_read_returns:
  assumes "sgc_data (w_cache w) \<noteq> None" "clock_ok A B w"
  shows "\<exists>json1 S pos w'. first_read cfg rt eibs json w = Some (json1, S, pos, w') \<and> clock_ok A B w'"
proof (cases "rt_lastpos rt = 0")
  case True
  obtain vs wm where v: "initial_values (rt_max_age_sec rt) eibs w = (vs, wm)" by (cases "initial_values (rt_max_age_sec rt) eibs w")
  obtain as where as: "evolves as w wm" using initial_values_spec [OF v] by blast
  obtain p w1 where p: "cache_position wm = (p, w1)" by (cases "cache_position wm")
  obtain bs where bs: "evolves bs wm w1" "p = sgc_position (w_cache w1)" using cache_position_spec [OF p] .
  have "sgc_data (w_cache w1) \<noteq> None" using evolves_initialized [OF as] evolves_initialized [OF bs(1)] assms by simp
  then obtain q where "p = Ret q" using bs(2) by (auto simp: sgc_position_def)
  moreover have "clock_ok A B w1"
    using clock_ok_initial [OF assms(2), of "rt_max_age_sec rt" eibs] clock_ok_ops(2) [of A B wm] v p by simp
  ultimately show ?thesis using True p by (simp add: first_read_def Let_def initial_reads_values [OF v])
next
  case False
  then show ?thesis using assms(2) by (simp add: first_read_def)
qed

lemma read_values_returns:
  assumes "sgc_data (w_cache (wk_world wk)) \<noteq> None" "clock_ok A B (wk_world wk)" "B - A \<le> 2000000000 * 1000000000"
    and "\<forall>a d k. kc_send_group_packet ops a d k \<noteq> None" "rt_timeout_sec rt \<le> 2147483"
  shows "read_values ops cfg rt eibs wk \<noteq> None"
proof -
  let ?json = "start_object (add_key ''d'' (start_object jb_new))" and ?T = "rt_timeout_sec rt"
  obtain json S pos w1 where 1: "first_read cfg rt eibs ?json (wk_world wk) = Some (json, S, pos, w1)" "clock_ok A B w1"
    using first_read_returns [OF assms(1,2)] by blast
  obtain k where 2: "(if rt_bus_read rt then send_reads ops S eibs (wk_knxd wk) else Some (wk_knxd wk)) = Some k"
    using send_reads_returns [OF assms(4)] by fastforce
  obtain t0 w2 where 3: "steady_now w1 = (t0, w2)" by (cases "steady_now w1")
  have t0: "t0 = w_steady w2" "clock_ok A B w2"
    using 3 clock_ok_ops(3) [OF 1(2)] steady_now_evolves [of w1] by (metis fst_conv snd_conv)+
  have "poll_loop cfg ?T (rt_max_age_sec rt) eibs t0 (S \<noteq> {}) json S pos w2 \<noteq> None"
  proof (cases "?T > 0")
    case True
    have "?T * 1000000000 \<le> 2147483 * 1000000000" using assms(5) by simp
    then show ?thesis
      using t0 assms(3,5) True unfolding clock_ok_def
      by (intro poll_loop_returns [where B = B]) (simp_all add: algebra_simps)
  next
    case False
    then show ?thesis by (subst poll_loop.simps) auto
  qed
  then show ?thesis using 1 2 3 by (auto simp: read_values_def Let_def)
qed

lemma check_session_clock:
  "clock_ok A B (wk_world wk) \<Longrightarrow> clock_ok A B (wk_world (snd (check_session ps wk)))"
  using clock_ok_ops(3) [of A B "wk_world wk"] worker_now_state(3) [of wk]
  by (auto simp: check_session_def case_prod_unfold Let_def split: option.split)

section \<open>Properties of the read handler\<close>

lemma uint_small: "n < 100000 \<Longrightarrow> uint (of_nat n :: u32) = int n"
  by (simp add: unsigned_of_nat take_bit_eq_mod)

text \<open>An example: one value is cached, another one arrives while the request waits.\<close>

definition example_reading :: "mock worker" where
  "example_reading = \<lparr>wk_world = \<lparr>w_cache = \<lparr>sgc_data = Some (push_locked 100 0x0A03 [7] zero_data), sgc_owns_mmap = False\<rparr>,
     w_epoch = 100, w_steady = 0, w_agenda = [quiet 5 Rc_ok [], quiet 6 Rc_ok [], quiet 7 Rc_ok [(101, 0x0A03, [8])]]\<rparr>,
     wk_knxd = open_mock, wk_sessions = new_session_store 1800 100\<rparr>"

lemma read_handle_ok:
  assumes "qs_get_all (query_string qs) ''a'' = as" "qs_get (query_string qs) ''s'' = None"
    and "read_timing_of cfg (query_string qs) = Some rt" "rt_timeout_sec rt \<le> 2147483" "eib_addrs (cf_default_namespace cfg) as [] \<noteq> []"
    and "sgc_data (w_cache (wk_world wk)) \<noteq> None" "\<forall>a d k. kc_send_group_packet ops a d k \<noteq> None"
    and "clock_ok A B (wk_world wk)" "B - A \<le> 2000000000 * 1000000000"
  shows "\<exists>r wk'. read_handle ops cfg qs wk = Some (r, wk') \<and> rr_http_status r = 200"
proof -
  have "as \<noteq> []" using assms(5) by auto
  moreover obtain body wk' where "read_values ops cfg rt (eib_addrs (cf_default_namespace cfg) as []) wk = Some (body, wk')"
    using read_values_returns [OF assms(6,8,9,7,4)] by fast
  moreover have "check_session (query_string qs) wk = (True, wk)" using assms(2) by (simp add: check_session_def)
  ultimately show ?thesis using assms(1,3,5) by (simp add: read_handle_def Let_def)
qed

lemma example_reading_ok:
  assumes "query_string qs = [(''a'', [''1/2/3'']), (''i'', [i])] \<or> query_string qs = [(''a'', [''1/2/3''])]"
  shows "\<exists>r wk'. read_handle mock_ops example_config qs example_reading = Some (r, wk') \<and> rr_http_status r = 200"
proof -
  have t: "\<exists>p. read_timing_of example_config (query_string qs) = Some \<lparr>rt_timeout_sec = 300, rt_max_age_sec = -1, rt_lastpos = p,
      rt_bus_read = False\<rparr>"
    using assms by (auto simp: read_timing_of_def qs_get_def example_config_def)
  have e: "eib_addrs (cf_default_namespace example_config) [''1/2/3''] [] \<noteq> []" by code_simp
  have c: "clock_ok 0 10 (wk_world example_reading)" by (simp add: clock_ok_def agenda_clock_def example_reading_def)
  have "qs_get_all (query_string qs) ''a'' = [''1/2/3'']" "qs_get (query_string qs) ''s'' = None"
    using assms by (auto simp: qs_get_all_def qs_get_def)
  with t show ?thesis
    using read_handle_ok [OF _ _ _ _ e _ _ c] by (fastforce simp: example_reading_def mock_ops_def)
qed

lemma example_queries:
  "query_string ''a=1/2/3&i=1'' = [(''a'', [''1/2/3'']), (''i'', [''1''])]"
  "query_string ''a=1/2/3'' = [(''a'', [''1/2/3''])]"
  "targets (cf_default_namespace example_config) [''1/2/3''] = [0x0A03]"
  "request_index [(''a'', [''1/2/3'']), (''i'', [''1''])] = 1"
  by code_simp+

lemma example_reading_state:
  "history [(100, 0x0A03, [7])] (wk_world example_reading)" "locks_work (wk_world example_reading)"
  "hash_order_law example_config" "cf_default_namespace example_config = []"
  by (simp_all add: history_def example_reading_def locks_work_def hash_order_law_def example_config_def)

text \<open>The values of a successful answer, and those of a first read.\<close>

lemma read_answer:
  assumes "read_handle ops cfg qs wk = Some (r, wk')" "rr_http_status r = 200" "hash_order_law cfg"
  shows "\<exists>vs i. rr_body r = render (JObject (read_document (cf_default_namespace cfg) vs i)) \<and>
    distinct (map fst vs) \<and>
    set (map fst vs) \<subseteq> set (targets (cf_default_namespace cfg) (qs_get_all (query_string qs) ''a'')) \<and>
    (\<forall>av \<in> set vs. seen_during (wk_world wk) (wk_world wk') av)"
  using assms(1,2)
proof (cases rule: read_handle_200)
  case (1 wk1 rt)
  let ?ns = "cf_default_namespace cfg" and ?as = "qs_get_all (query_string qs) ''a''"
  obtain as where as: "evolves as (wk_world wk) (wk_world wk1)"
    using check_session_spec [OF 1(1)] by (auto simp: worker_evolves_def)
  obtain vs pos bs where v: "rr_body r = render (JObject (read_document ?ns vs (uint (pos :: u32))))"
    "distinct (map fst vs)" "set (map fst vs) \<subseteq> set (eib_addrs ?ns ?as [])" "evolves bs (wk_world wk1) (wk_world wk')"
    "\<forall>av \<in> set vs. seen_during (wk_world wk1) (wk_world wk') av"
    using read_values_spec [OF 1(3) assms(3)] request_eibs [of ?ns ?as] by metis
  have "\<forall>av \<in> set vs. seen_during (wk_world wk) (wk_world wk') av"
    using v(5) seen_during_extend [OF _ as evolves_refl] by blast
  then show ?thesis using v(1-3) request_eibs [of ?ns ?as] by auto
qed

lemma first_read_answer:
  assumes "read_handle ops cfg qs wk = Some (r, wk')" "rr_http_status r = 200" "hash_order_law cfg"
    and "qs_get (query_string qs) ''t'' = None" "request_index (query_string qs) = 0"
    and "history ps (wk_world wk)" "locks_work (wk_world wk)"
    and "a \<in> set (targets (cf_default_namespace cfg) (qs_get_all (query_string qs) ''a''))" "a \<noteq> 0"
    and "cached (w_cache (wk_world wk)) a v"
  shows "\<exists>vs i w'. rr_body r = render (JObject (read_document (cf_default_namespace cfg) vs i)) \<and> a \<in> fst ` set vs \<and>
    (\<forall>av \<in> set vs. seen_during (wk_world wk) w' av)"
  using assms(1,2)
proof (cases rule: read_handle_200)
  case (1 wk1 rt)
  let ?ns = "cf_default_namespace cfg" and ?as = "qs_get_all (query_string qs) ''a''"
  have rt: "rt_max_age_sec rt = -1" "rt_lastpos rt = 0" using 1(2) assms(4,5) by (auto simp: read_timing_of_def)
  obtain as where as: "evolves as (wk_world wk) (wk_world wk1)"
    using check_session_spec [OF 1(1)] by (auto simp: worker_evolves_def)
  obtain v1 where v1: "cached (w_cache (wk_world wk1)) a v1"
    using evolves_cached [OF as assms(10,9)] assms(6) by blast
  from 1(3) show ?thesis
  proof (cases rule: read_values_cases)
    case (1 json S p w1 k w2 tstart json' pos' w3)
    from 1(1) show ?thesis
    proof (cases rule: first_read_cases)
      case (initial vs wm)
      have "a \<in> fst ` set vs"
        using initial_values_complete [OF initial(2) locks_work_evolves [OF assms(7) as] _ history_evolves [OF assms(6) as] _ assms(9) v1]
          rt(1) assms(8) request_eibs [of ?ns ?as] by simp
      moreover from this have "S \<noteq> {}" using initial(4) by auto
      then have "json' = json" using 1(4) by (subst (asm) poll_loop.simps) simp
      then have "rr_body r = render (JObject (read_document ?ns vs (uint pos')))"
        unfolding 1(5) using initial(3) read_body_render by simp
      moreover have "\<forall>av \<in> set vs. seen_during (wk_world wk) wm av"
        using initial_values_spec [OF initial(2)] seen_during_extend [OF _ as evolves_refl] by blast
      ultimately show ?thesis by blast
    next
      case delta
      then show ?thesis using rt(2) by simp
    qed
  qed
qed

text \<open>
  (C16) A successful read answers with a JSON document of two members: the values and the index.  Every
  key occurs once, every key is the text of a requested address, and every value was the cached value
  of that address at some moment of the request, whatever the other processes do meanwhile.
\<close>

theorem read_answers_json:
  assumes "read_handle ops cfg qs wk = Some (r, wk')" "rr_http_status r = 200" "hash_order_law cfg"
    and "printable (cf_default_namespace cfg)"
  shows "\<exists>vs i. parse_document (rr_body r) = Some (JObject (read_document (cf_default_namespace cfg) vs i)) \<and>
    distinct (map (\<lambda>av. addr_key (cf_default_namespace cfg) (fst av)) vs) \<and>
    set (map fst vs) \<subseteq> set (targets (cf_default_namespace cfg) (qs_get_all (query_string qs) ''a'')) \<and>
    (\<forall>av \<in> set vs. seen_during (wk_world wk) (wk_world wk') av)"
proof -
  let ?ns = "cf_default_namespace cfg" and ?as = "qs_get_all (query_string qs) ''a''"
  obtain vs i where v: "rr_body r = render (JObject (read_document ?ns vs i))" "distinct (map fst vs)"
    "set (map fst vs) \<subseteq> set (targets ?ns ?as)" "\<forall>av \<in> set vs. seen_during (wk_world wk) (wk_world wk') av"
    using read_answer [OF assms(1-3)] by blast
  moreover have "distinct (map (\<lambda>av. addr_key ?ns (fst av)) vs)"
    using v(2) addr_key_inj [of ?ns] by (auto simp: distinct_map inj_on_def)
  moreover have "parse_document (rr_body r) = Some (JObject (read_document ?ns vs i))"
    unfolding v(1) by (rule parse_document_render) (simp add: read_document_ok assms(4))
  ultimately show ?thesis by blast
qed

theorem read_answers_json_witness:
  "\<exists>r wk' vs i. read_handle mock_ops example_config ''a=1/2/3&i=1'' example_reading = Some (r, wk') \<and>
     parse_document (rr_body r) = Some (JObject (read_document [] vs i)) \<and> set (map fst vs) \<subseteq> {0x0A03}"
proof -
  obtain r wk' where r: "read_handle mock_ops example_config ''a=1/2/3&i=1'' example_reading = Some (r, wk')"
    "rr_http_status r = 200" using example_reading_ok example_queries(1) by blast
  have "printable (cf_default_namespace example_config)" by (simp add: example_reading_state printable_def)
  from read_answers_json [OF r example_reading_state(3) this]
  obtain vs i where v: "parse_document (rr_body r) = Some (JObject (read_document [] vs i))"
    "set (map fst vs) \<subseteq> set (targets (cf_default_namespace example_config) (qs_get_all (query_string ''a=1/2/3&i=1'') ''a''))"
    unfolding example_reading_state(4) by blast
  have "qs_get_all (query_string ''a=1/2/3&i=1'') ''a'' = [''1/2/3'']" by (simp add: example_queries qs_get_all_def)
  with v r(1) example_queries(3) show ?thesis by (intro exI [of _ r] exI [of _ wk'] exI [of _ vs] exI [of _ i]) simp
qed






section \<open>Limits of the read handler\<close>

text \<open>
  The requests that are refused, in the order of the checks.  None of them touches the bus.
\<close>

lemma read_refused:
  assumes "check_session (query_string qs) wk = (ok, wk1)" "qs_get_all (query_string qs) ''a'' = as"
    and "as = [] \<or> \<not> ok \<or> read_timing_of cfg (query_string qs) = None \<or> targets (cf_default_namespace cfg) as = []"
  shows "\<exists>r wk'. read_handle ops cfg qs wk = Some (r, wk') \<and> wk_knxd wk' = wk_knxd wk \<and>
    rr_http_status r = (if as = [] then 400 else if \<not> ok then 401
      else if read_timing_of cfg (query_string qs) = None then 400 else 404)"
proof -
  have "eib_addrs (cf_default_namespace cfg) as [] = [] \<longleftrightarrow> targets (cf_default_namespace cfg) as = []"
    using request_eibs [of "cf_default_namespace cfg" as] by (metis set_empty)
  then show ?thesis
    using assms check_session_spec [OF assms(1)] by (auto simp: read_handle_def Let_def split: option.split)
qed

text \<open>
  A client that is behind is not served at once.  When nothing new arrives, the handler waits for the
  whole timeout and answers with no values and the client's own index, whatever the cache holds: the
  delta is asked for only after a push that happens during the wait.
\<close>

lemma quiet_wait:
  assumes "w_agenda w = []" "sgc_data (w_cache w) \<noteq> None" "0 < t"
  shows "wait_for_new_data t w = (False, w\<lparr>w_steady := w_steady w + t * 1000000\<rparr>)"
proof -
  let ?ts = "wait_deadline t (timespec_of (w_steady w))"
  have c: "cond_timedwait ?ts w = (Rc_timedout, w\<lparr>w_steady := w_steady w + t * 1000000\<rparr>)"
    using assms by (simp add: cond_timedwait_def world_step_def idle_def wait_deadline_ns max_absorb2)
  have "wait_loop (sgc_generation (w_cache w)) ?ts False w = w\<lparr>w_steady := w_steady w + t * 1000000\<rparr>"
    by (subst wait_loop.simps, simp add: c, subst wait_loop.simps, simp)
  then show ?thesis using assms by (auto simp: wait_for_new_data_def world_step_def idle_def Let_def)
qed

lemma pending_update_waits:
  assumes "w_agenda (wk_world wk) = []" "sgc_data (w_cache (wk_world wk)) \<noteq> None" "rt_lastpos rt \<noteq> 0"
    and "\<not> rt_bus_read rt" "0 < rt_timeout_sec rt" "rt_timeout_sec rt \<le> 2147483"
  shows "\<exists>wk'. read_values ops cfg rt eibs wk =
      Some (render (JObject (read_document (cf_default_namespace cfg) [] (uint (rt_lastpos rt)))), wk') \<and>
    w_steady (wk_world wk') = w_steady (wk_world wk) + rt_timeout_sec rt * 1000000000"
proof -
  let ?w = "wk_world wk" and ?T = "rt_timeout_sec rt" and ?json = "start_object (add_key ''d'' (start_object jb_new))"
  have n: "steady_now ?w = (w_steady ?w, ?w)" using assms(1) by (simp add: steady_now_def world_step_def)
  have r: "remaining_sec ?T (w_steady ?w) (w_steady ?w) = Some ?T" using remaining_sec_Some [of ?T] assms(5,6) by simp
  have q: "wait_for_new_data (?T * 1000) ?w = (False, ?w\<lparr>w_steady := w_steady ?w + ?T * 1000 * 1000000\<rparr>)"
    using quiet_wait [OF assms(1,2)] assms(5) by simp
  have "poll_loop cfg ?T (rt_max_age_sec rt) eibs (w_steady ?w) False ?json {} (rt_lastpos rt) ?w
      = Some (?json, rt_lastpos rt, ?w\<lparr>w_steady := w_steady ?w + ?T * 1000 * 1000000\<rparr>)"
    by (subst poll_loop.simps) (use assms(5,6) in \<open>simp add: n r q\<close>)
  then show ?thesis
    using assms(3,4) n read_body_render [of _ _ "[]"] by (simp add: read_values_def first_read_def Let_def)
qed

text \<open>
  A telegram that arrives between the reading of the values and the reading of the position is lost to
  the client: the answer does not hold it, and its index says that the client has it.
\<close>

lemma get_locked_zero: "a \<noteq> 0 \<Longrightarrow> get_locked now a age zero_data = None"
proof -
  assume "a \<noteq> 0"
  have z: "addr_at (sd_entries zero_data) s = 0" if "s < kSharedCacheCapacity" for s
    using that by (simp add: zero_data_def zero_entry_def)
  then have "find_slot a zero_data = slot_at a 0" by (intro find_slot_hit) simp_all
  then show ?thesis using \<open>a \<noteq> 0\<close> z by (simp add: get_locked_def Let_def)
qed

lemma update_between_get_and_position_lost:
  assumes "wk_world wk = example_world [quiet 5 Rc_ok [], quiet 6 Rc_ok [(100, 0x0A03, [7])]]"
    and "rt = \<lparr>rt_timeout_sec = 0, rt_max_age_sec = -1, rt_lastpos = 0, rt_bus_read = False\<rparr>"
  shows "\<exists>wk'. read_values ops cfg rt [0x0A03] wk =
      Some (render (JObject (read_document (cf_default_namespace cfg) [] 1)), wk') \<and>
    history [(100, 0x0A03, [7])] (wk_world wk')"
proof -
  have p: "sd_position (push_locked 100 0x0A03 [7] zero_data) mod kPositionModulus = 1"
    by (simp add: push_locked_def insert_locked_def Let_def zero_data_def kPositionModulus_def)
  show ?thesis
    using assms p read_body_render [of _ _ "[]"]
    by (simp add: read_values_def first_read_def cache_get_def cache_position_def world_step_def perform_def idle_def
        sgc_get_def get_locked_zero sgc_push_def sgc_position_def steady_now_def poll_loop.simps history_def Let_def)
qed

text \<open>A timeout whose milliseconds do not fit into an \<^verbatim>\<open>int\<close> leaves the long poll without a defined result.\<close>

lemma long_timeout_overflows:
  assumes "2147483 < T" "T \<le> int32_max" "w_agenda w = []"
  shows "poll_loop cfg T age eibs (w_steady w) False json {} pos w = None"
proof -
  have n: "steady_now w = (w_steady w, w)" using assms(3) by (simp add: steady_now_def world_step_def)
  have r: "remaining_sec T (w_steady w) (w_steady w) = Some T" using remaining_sec_Some [of T] assms(1,2) by simp
  show ?thesis by (subst poll_loop.simps) (use assms(1) in \<open>simp add: n r\<close>)
qed

end
