(* ===== verification/Router.thy ===== *)
theory Router
  imports Fcgi_Request Read_Handler
begin

text \<open>
  \<^verbatim>\<open>src/router/router.cpp\<close>: the dispatch of a request to its handler.  The number is the random number
  that a login uses.
\<close>

definition unknown_endpoint_body :: string where
  \<open>unknown_endpoint_body = ''{"error":"unknown endpoint"}''\<close>

definition route ::
    "'k knxd_ops \<Rightarrow> config \<Rightarrow> u64 \<Rightarrow> fcgi_request \<Rightarrow> 'k worker \<Rightarrow> (fcgi_response \<times> 'k worker) option" where
  "route ops cfg num request wk =
     (let response = new_response; path = request_path request in
      if path = ''/l'' then
        let (body, wk) = login_handle cfg num (rq_query_string request) wk
        in Some (response\<lparr>rs_body := body\<rparr>, wk)
      else if path = ''/r'' then do {
        (result, wk) \<leftarrow> read_handle ops cfg (rq_query_string request) wk;
        Some (response\<lparr>rs_status_code := rr_http_status result, rs_body := rr_body result\<rparr>, wk)
      }
      else if path = ''/w'' then do {
        (result, wk) \<leftarrow> write_handle ops cfg (rq_query_string request) wk;
        Some (response\<lparr>rs_status_code := wr_http_status result\<rparr>, wk)
      }
      else Some (response\<lparr>rs_status_code := 404, rs_body := unknown_endpoint_body\<rparr>, wk))"

section \<open>Sessions across requests\<close>

text \<open>Every request keeps the invariant of the session store and moves the clock forward only.\<close>

lemma login_handle_state:
  assumes "login_handle cfg num qs wk = (body, wk')"
  shows "wk' = snd (login_session (query_string qs) num wk)"
  using assms by (simp add: login_handle_def case_prod_unfold Let_def)

lemma write_handle_session:
  assumes "write_handle ops cfg qs wk = Some (r, wk')" "wr_http_status r = 401"
  shows "\<exists>wk1. check_session (query_string qs) wk = (False, wk1)"
proof (rule ccontr)
  assume n: "\<nexists>wk1. check_session (query_string qs) wk = (False, wk1)"
  obtain ok wk1 where c: "check_session (query_string qs) wk = (ok, wk1)" by (cases "check_session (query_string qs) wk")
  with n have ok: "ok" by auto
  show False
    using assms c ok
    by (auto simp: write_handle_def new_write_result_def Let_def bind_eq_Some_conv split: option.splits if_splits)
qed

lemma check_session_fresh:
  assumes "login_session ps num wk = (sid, wk1)" "qs_has ps ''u'' \<or> qs_has ps ''p''" "session_inv (wk_sessions wk)"
    and "qs_get ps2 ''s'' = Some sid" "check_session ps2 wk1 = (ok, wk2)"
    and "w_steady (wk_world wk2) < w_steady (wk_world wk1) + lifetime (wk_sessions wk)"
  shows ok
proof -
  obtain as where as: "worker_evolves as wk1 wk2" using check_session_spec [OF assms(5)] by blast
  then have "w_steady (wk_world wk1) \<le> w_steady (wk_world wk2)" by (simp add: worker_evolves_def evolves_def)
  then have "active (wk_sessions wk1) sid (w_steady (wk_world wk2))"
    using login_session_spec [OF assms(1)] assms(2,3,6) by auto
  then show ok using check_session_spec [OF assms(5)] assms(4) by simp
qed

lemma send_each_returns:
  assumes "\<forall>a d k. kc_send_group_packet ops a d k \<noteq> None"
  shows "\<exists>oks k'. send_each ops apdu as k = Some (oks, k')"
proof (induction as arbitrary: k)
  case (Cons a as)
  have "kc_send_group_packet ops a apdu k \<noteq> None" using assms by blast
  then obtain b k1 where "kc_send_group_packet ops a apdu k = Some (b, k1)" by auto
  with Cons [of k1] show ?case by auto
qed simp

lemma write_handle_returns:
  assumes "\<forall>a d k. kc_send_group_packet ops a d k \<noteq> None"
  shows "write_handle ops cfg qs wk \<noteq> None"
proof -
  obtain ok wk1 where c: "check_session (query_string qs) wk = (ok, wk1)" by (cases "check_session (query_string qs) wk")
  show ?thesis
  proof (cases "qs_get (query_string qs) ''v''")
    case None
    then show ?thesis by (simp add: write_handle_def)
  next
    case (Some v)
    obtain x y k where "write_loop ops (cf_default_namespace cfg) (0 # hex_decode v) (qs_get_all (query_string qs) ''a'')
        False False (wk_knxd wk1) = Some (x, y, k)"
      using send_each_returns [OF assms, of "0 # hex_decode v"
          "targets (cf_default_namespace cfg) (qs_get_all (query_string qs) ''a'')" "wk_knxd wk1"]
      by (auto simp: write_loop_send_each)
    then show ?thesis by (simp add: write_handle_def c Some Let_def)
  qed
qed

section \<open>Properties of the router\<close>


definition example_login :: fcgi_request where
  "example_login = new_request\<lparr>rq_path_info := ''/l'', rq_query_string := ''u=me''\<rparr>"

definition example_write :: fcgi_request where
  "example_write = new_request\<lparr>rq_path_info := ''/w'', rq_query_string := ''s=0000000000000005&a=1/2/3&v=8042''\<rparr>"


text \<open>
  The endpoints: a login is always answered with 200, a path other than the three endpoints with 404
  and without touching any state, and the answer to a write never has a body, also not the error text that
  the handler made.
\<close>

lemma route_endpoints:
  "(request_path rq = ''/l'' \<longrightarrow> (\<exists>resp wk'. route ops cfg num rq wk = Some (resp, wk') \<and> rs_status_code resp = 200 \<and>
      rs_body resp = fst (login_handle cfg num (rq_query_string rq) wk) \<and> wk_knxd wk' = wk_knxd wk)) \<and>
   (request_path rq \<notin> {''/l'', ''/r'', ''/w''} \<longrightarrow> route ops cfg num rq wk =
      Some (\<lparr>rs_status_code = 404, rs_content_type = ''application/json'', rs_body = unknown_endpoint_body\<rparr>, wk)) \<and>
   (request_path rq = ''/w'' \<longrightarrow> route ops cfg num rq wk = map_option
      (\<lambda>(r, wk'). (\<lparr>rs_status_code = wr_http_status r, rs_content_type = ''application/json'', rs_body = []\<rparr>, wk'))
      (write_handle ops cfg (rq_query_string rq) wk))"
proof -
  let ?q = "rq_query_string rq"
  have "wk_knxd (snd (login_handle cfg num ?q wk)) = wk_knxd wk"
    using login_session_spec [of "query_string ?q" num wk "fst (login_session (query_string ?q) num wk)"
        "snd (login_session (query_string ?q) num wk)"] by (simp add: login_handle_def case_prod_unfold Let_def)
  then show ?thesis
    by (cases "write_handle ops cfg ?q wk") (auto simp: route_def new_response_def case_prod_unfold Let_def)
qed

lemma route_endpoints_witness:
  "route mock_ops example_config 5 (mount (Path_info [] []) [] ''/x'' []) (example_worker [] open_mock) =
     Some (\<lparr>rs_status_code = 404, rs_content_type = ''application/json'', rs_body = unknown_endpoint_body\<rparr>,
       example_worker [] open_mock)"
proof -
  have "request_path (mount (Path_info [] []) [] ''/x'' []) \<notin> {''/l'', ''/r'', ''/w''}"
    by (simp add: request_path_def new_request_def)
  with route_endpoints [of "mount (Path_info [] []) [] ''/x'' []"] show ?thesis by blast
qed

end
