(* ===== verification/Debug_Log.thy ===== *)
theory Debug_Log
  imports Cpp_Std
begin

text \<open>
  \<^verbatim>\<open>src/util/debug_log.cpp\<close>: the optional log on the error stream.  Each operation gives the text it
  writes; the formatted local time is an argument.
\<close>

record debug_log =
  dl_enabled :: bool
  dl_max_uri_length :: nat
  dl_max_body_length :: nat

definition default_debug_log :: debug_log where
  "default_debug_log = \<lparr>dl_enabled = False, dl_max_uri_length = 500, dl_max_body_length = 1000\<rparr>"

definition init_from_env :: "string option \<Rightarrow> debug_log \<Rightarrow> debug_log" where
  "init_from_env val dl =
     (if val = None \<or> val = Some [] then dl\<lparr>dl_enabled := False\<rparr>
      else dl\<lparr>dl_enabled := (val = Some ''1'' \<or> val = Some ''true'' \<or> val = Some ''yes'' \<or> val = Some ''on'')\<rparr>)"

definition set_enabled :: "bool \<Rightarrow> debug_log \<Rightarrow> debug_log" where
  "set_enabled enabled dl = dl\<lparr>dl_enabled := enabled\<rparr>"

definition set_max_uri_length :: "nat \<Rightarrow> debug_log \<Rightarrow> debug_log" where
  "set_max_uri_length max_len dl = dl\<lparr>dl_max_uri_length := max_len\<rparr>"

definition set_max_body_length :: "nat \<Rightarrow> debug_log \<Rightarrow> debug_log" where
  "set_max_body_length max_len dl = dl\<lparr>dl_max_body_length := max_len\<rparr>"

text \<open>
  The time stamp of a line: the local time that \<^verbatim>\<open>localtime_r\<close> gives, and the milliseconds of the clock since the
  epoch, here in nanoseconds. \<^verbatim>\<open>struct tm\<close> counts the years from 1900 and the months from 0.
\<close>

record tm =
  tm_year :: nat
  tm_mon :: nat
  tm_mday :: nat
  tm_hour :: nat
  tm_min :: nat
  tm_sec :: nat

definition zero_padded :: "nat \<Rightarrow> nat \<Rightarrow> string" where
  "zero_padded width n = replicate (width - length (to_string n)) (CHR ''0'') @ to_string n"

definition write_timestamp :: "tm \<Rightarrow> nat \<Rightarrow> string" where
  "write_timestamp t now =
     ''['' @ to_string (tm_year t + 1900) @ ''-'' @ zero_padded 2 (tm_mon t + 1) @ ''-'' @ zero_padded 2 (tm_mday t) @ '' '' @
     zero_padded 2 (tm_hour t) @ '':'' @ zero_padded 2 (tm_min t) @ '':'' @ zero_padded 2 (tm_sec t) @ ''.'' @
     zero_padded 3 (now div 1000000 mod 1000) @ ''] ''"

text \<open>The written text, and whether it was cut.\<close>

definition write_truncated :: "string \<Rightarrow> nat \<Rightarrow> string \<times> bool" where
  "write_truncated text max_len =
     (if max_len = 0 \<or> length text \<le> max_len then (text, False)
      else (take max_len text @ ''... (truncated, '' @ to_string (length text) @ '' chars total)'', True))"

definition arrow_right :: string where
  "arrow_right = [CHR 0xE2, CHR 0x86, CHR 0x92]"

definition arrow_left :: string where
  "arrow_left = [CHR 0xE2, CHR 0x86, CHR 0x90]"

definition log_http_request :: "debug_log \<Rightarrow> string \<Rightarrow> string \<Rightarrow> string \<Rightarrow> string" where
  "log_http_request dl timestamp method uri =
     (if \<not> dl_enabled dl then []
      else timestamp @ arrow_right @ '' HTTP REQUEST: '' @ method @ '' '' @
        fst (write_truncated uri (dl_max_uri_length dl)) @ [CHR 0x0A])"

definition log_http_response :: "debug_log \<Rightarrow> string \<Rightarrow> int \<Rightarrow> string \<Rightarrow> string" where
  "log_http_response dl timestamp status_code body =
     (if \<not> dl_enabled dl then []
      else timestamp @ arrow_left @ '' HTTP RESPONSE: '' @ to_string_int status_code @
        (if body \<noteq> [] then '' body='' @ fst (write_truncated body (dl_max_body_length dl)) else []) @ [CHR 0x0A])"

definition log_knxd_send :: "debug_log \<Rightarrow> string \<Rightarrow> string \<Rightarrow> string \<Rightarrow> string \<Rightarrow> string" where
  "log_knxd_send dl timestamp operation address details =
     (if \<not> dl_enabled dl then []
      else timestamp @ ''  '' @ arrow_right @ '' KNXD SEND: '' @ operation @ '' addr='' @ address @
        (if details \<noteq> [] then '' '' @ details else []) @ [CHR 0x0A])"

definition log_knxd_recv :: "debug_log \<Rightarrow> string \<Rightarrow> string \<Rightarrow> string \<Rightarrow> string \<Rightarrow> string" where
  "log_knxd_recv dl timestamp operation address data =
     (if \<not> dl_enabled dl then []
      else timestamp @ ''  '' @ arrow_left @ '' KNXD RECV: '' @ operation @ '' addr='' @ address @
        (if data \<noteq> [] then '' data='' @ data else []) @ [CHR 0x0A])"

section \<open>Behaviour\<close>

text \<open>A text \<open>All stamps up to the year 9999 have the same width.\<close>

lemma length_to_string: "length (to_string n) = (if n < 10 then 1 else Suc (length (to_string (n div 10))))"
  by (subst to_string.simps) simp

lemma length_zero_padded: "length (to_string n) \<le> width \<Longrightarrow> length (zero_padded width n) = width"
  by (simp add: zero_padded_def)

lemma write_timestamp_width:
  assumes "tm_year t < 8100" "tm_mon t < 12" "tm_mday t \<le> 31" "tm_hour t < 24" "tm_min t < 60" "tm_sec t \<le> 60"
  shows "length (write_timestamp t now) = 26"
proof -
  have two: "length (to_string n) \<le> 2" if "n < 100" for n using that by (simp add: length_to_string [of n] length_to_string [of "n div 10"])
  have three: "length (to_string (now div 1000000 mod 1000)) \<le> 3"
    using two [of "now div 1000000 mod 1000 div 10"] by (subst length_to_string) auto
  have "length (to_string y) = 4" if "1000 \<le> y" "y < 10000" for y
    using that
    by (simp add: length_to_string [of y] length_to_string [of "y div 10"] length_to_string [of "y div 100"]
        length_to_string [of "y div 1000"] div_mult2_eq [symmetric])
  then show ?thesis using assms two three by (simp add: write_timestamp_def length_zero_padded)
qed

text is cut exactly when it is longer than a limit other than 0, and never loses its beginning.\<close>

lemma write_truncated_cut:
  "snd (write_truncated text max_len) \<longleftrightarrow> 0 < max_len \<and> max_len < length text"
  "take max_len (fst (write_truncated text max_len)) = take max_len text"
  by (auto simp: write_truncated_def)

text \<open>
  The comment in the source says that the variable is matched without regard to case and as a prefix; the
  comparison is exact.
\<close>

lemma debug_variable_exact:
  "\<not> dl_enabled (init_from_env (Some ''TRUE'') dl)" "\<not> dl_enabled (init_from_env (Some ''yes!'') dl)"
  "dl_enabled (init_from_env (Some ''yes'') dl)"
  by (simp_all add: init_from_env_def)

end
