(* ===== verification/Fcgi_Server.thy ===== *)
theory Fcgi_Server
  imports Router Debug_Log
begin

text \<open>
  \<^verbatim>\<open>src/fcgi/fcgi_server.cpp\<close>: reading a request, writing a response, and the accept loop with the two
  semaphores that limit long polls.  What libfcgi does is a parameter: the environment of each accepted
  request, the reads of its body, and the results of the initialisation calls.
\<close>

definition kMaxContentLength :: int where
  "kMaxContentLength = 64 * 1024"

section \<open>Reading a request\<close>

text \<open>\<^verbatim>\<open>FCGI_fread\<close>: at most so many characters, and the rest of the stream.\<close>

type_synonym 's fread = "nat \<Rightarrow> 's \<Rightarrow> string \<times> 's"

definition fread_law :: "'s fread \<Rightarrow> bool" where
  "fread_law fread \<longleftrightarrow> (\<forall>n s. length (fst (fread n s)) \<le> n)"

function read_body :: "'s fread \<Rightarrow> nat \<Rightarrow> string \<Rightarrow> 's \<Rightarrow> string \<times> 's" where
  "read_body fread max_len content s =
     (if length content < max_len then
        let remaining = max_len - length content; (chunk, s) = fread remaining s in
        if chunk = [] then (content, s) else read_body fread max_len (content @ chunk) s
      else (content, s))"
  by pat_completeness auto
termination
  by (relation "measure (\<lambda>(_, max_len, content, _). max_len - length content)") (auto simp flip: length_greater_0_conv)

declare read_body.simps [simp del]

definition body_length :: "string \<Rightarrow> nat option" where
  "body_length content_length_str =
     (case from_chars_int content_length_str of
        Parsed content_length _ \<Rightarrow>
          if content_length \<le> 0 then None
          else Some (nat (if content_length > kMaxContentLength then kMaxContentLength else content_length))
      | _ \<Rightarrow> None)"

definition read_content :: "'s fread \<Rightarrow> string \<Rightarrow> fcgi_request \<Rightarrow> 's \<Rightarrow> fcgi_request \<times> 's" where
  "read_content fread content_length_str req s =
     (case body_length content_length_str of
        None \<Rightarrow> (req, s)
      | Some max_len \<Rightarrow> let (content, s) = read_body fread max_len [] s in (req\<lparr>rq_content := content\<rparr>, s))"

definition request_of :: "(string \<Rightarrow> string) \<Rightarrow> fcgi_request" where
  "request_of get_env = new_request\<lparr>
     rq_request_method := get_env ''REQUEST_METHOD'',
     rq_request_uri := get_env ''REQUEST_URI'',
     rq_query_string := get_env ''QUERY_STRING'',
     rq_content_type := get_env ''CONTENT_TYPE'',
     rq_script_name := get_env ''SCRIPT_NAME'',
     rq_path_info := get_env ''PATH_INFO'',
     rq_server_protocol := get_env ''SERVER_PROTOCOL''\<rparr>"

definition env_or_empty :: "string option \<Rightarrow> string" where
  "env_or_empty val = (case val of Some v \<Rightarrow> v | None \<Rightarrow> [])"

definition has_body :: "fcgi_request \<Rightarrow> bool" where
  "has_body req \<longleftrightarrow> rq_request_method req = ''POST'' \<or> rq_request_method req = ''PUT''"

text \<open>
  The variant that asks the process environment.  A POST without \<^verbatim>\<open>CONTENT_LENGTH\<close> reads through a null
  pointer.
\<close>

definition read_request_getenv :: "'s fread \<Rightarrow> (string \<Rightarrow> string option) \<Rightarrow> 's \<Rightarrow> (fcgi_request \<times> 's) outcome" where
  "read_request_getenv fread getenv s =
     (let req = request_of (\<lambda>name. env_or_empty (getenv name)) in
      if has_body req then
        (case getenv ''CONTENT_LENGTH'' of
           None \<Rightarrow> UB
         | Some content_length_str \<Rightarrow>
             if content_length_str \<noteq> [] then Ret (read_content fread content_length_str req s) else Ret (req, s))
      else Ret (req, s))"

text \<open>The variant that searches the array of the request; \<open>None\<close> is a null array.\<close>

fun envp_lookup :: "string list \<Rightarrow> string \<Rightarrow> string option" where
  "envp_lookup [] name = None"
| "envp_lookup (e # es) name =
     (if take (length name) e = name \<and> length name < length e \<and> e ! length name = CHR ''=''
      then Some (drop (length name + 1) e) else envp_lookup es name)"

definition read_request_envp :: "'s fread \<Rightarrow> string list option \<Rightarrow> 's \<Rightarrow> fcgi_request \<times> 's" where
  "read_request_envp fread envp s =
     (case envp of
        None \<Rightarrow> (new_request, s)
      | Some env \<Rightarrow>
          let req = request_of (\<lambda>name. env_or_empty (envp_lookup env name)) in
          if has_body req then
            (case envp_lookup env ''CONTENT_LENGTH'' of
               None \<Rightarrow> (req, s)
             | Some content_length_str \<Rightarrow>
                 if content_length_str \<noteq> [] then read_content fread content_length_str req s else (req, s))
          else (req, s))"

section \<open>Writing a response\<close>

definition crlf :: string where
  "crlf = [CHR 0x0D, CHR 0x0A]"

definition write_response :: "fcgi_response \<Rightarrow> string" where
  "write_response response =
     ''Status: '' @ to_string_int (rs_status_code response) @ crlf @
     ''Content-Type: '' @ rs_content_type response @ ''; charset=utf-8'' @ crlf @
     ''Content-Length: '' @ to_string (length (rs_body response)) @ crlf @
     crlf @ rs_body response"

section \<open>Serving\<close>

text \<open>
  The handler may throw; then the answer is 500.  The two semaphores may be missing; what \<^verbatim>\<open>sem_trywait\<close>
  returns depends on the other workers and is an argument.  The result lists the operations on the
  semaphores in their order, the releases by the destructors of the tokens included.
\<close>

datatype semaphore = Concurrency | Load_shed
datatype sem_op = Trywait semaphore bool | Sem_post semaphore

definition internal_error_body :: string where
  \<open>internal_error_body = ''{"error":"internal error"}''\<close>

definition workers_busy_body :: string where
  \<open>workers_busy_body = ''{"error":"all workers busy"}''\<close>

definition too_many_body :: string where
  \<open>too_many_body = ''{"error":"too many long-poll requests"}''\<close>

definition invoke_handler ::
    "(fcgi_request \<Rightarrow> 's \<Rightarrow> ('x + fcgi_response) \<times> 's) \<Rightarrow> fcgi_request \<Rightarrow> 's \<Rightarrow> fcgi_response \<times> 's" where
  "invoke_handler handler request s =
     (case handler request s of
        (Inr response, s) \<Rightarrow> (response, s)
      | (Inl _, s) \<Rightarrow> (new_response\<lparr>rs_status_code := 500, rs_body := internal_error_body\<rparr>, s))"

record sem_setup =
  ss_concurrency :: bool
  ss_load_shed :: bool

text \<open>
  \<^verbatim>\<open>SemToken\<close>: the semaphore to release, or none.  Moving a token empties the other one; the two tokens of a request
  are destroyed in the reverse order of their declaration.
\<close>

type_synonym sem_token = "semaphore option"

definition token_release :: "sem_token \<Rightarrow> sem_op list \<times> sem_token" where
  "token_release token = (case token of Some sem \<Rightarrow> ([Sem_post sem], None) | None \<Rightarrow> ([], None))"

definition token_assign :: "sem_token \<Rightarrow> sem_token \<Rightarrow> sem_op list \<times> sem_token \<times> sem_token" where
  "token_assign token other = (fst (token_release token), other, None)"

definition take_token :: "bool \<Rightarrow> semaphore \<Rightarrow> sem_op list \<times> sem_token" where
  "take_token present sem =
     (if present then
        let (posted, token, temporary) = token_assign None (Some sem)
        in ([Trywait sem True] @ posted @ fst (token_release temporary), token)
      else ([], None))"

definition destroy_tokens :: "sem_token \<Rightarrow> sem_token \<Rightarrow> sem_op list" where
  "destroy_tokens concurrency_token load_shed_token =
     fst (token_release load_shed_token) @ fst (token_release concurrency_token)"

definition serve_request ::
    "sem_setup \<Rightarrow> (semaphore \<Rightarrow> bool) \<Rightarrow> (fcgi_request \<Rightarrow> 's \<Rightarrow> ('x + fcgi_response) \<times> 's) \<Rightarrow> fcgi_request \<Rightarrow> 's
       \<Rightarrow> fcgi_response \<times> sem_op list \<times> 's" where
  "serve_request sems available handler req s =
     (if request_path req = ''/r'' then
        if ss_concurrency sems \<and> \<not> available Concurrency then
          (new_response\<lparr>rs_status_code := 503, rs_body := workers_busy_body\<rparr>,
           [Trywait Concurrency False] @ destroy_tokens None None, s)
        else
          let (ops, concurrency_token) = take_token (ss_concurrency sems) Concurrency
          in if ss_load_shed sems \<and> \<not> available Load_shed then
               (new_response\<lparr>rs_status_code := 503, rs_body := too_many_body\<rparr>,
                ops @ [Trywait Load_shed False] @ destroy_tokens concurrency_token None, s)
             else
               let (ops', load_shed_token) = take_token (ss_load_shed sems) Load_shed;
                   (response, s) = invoke_handler handler req s
               in (response, ops @ ops' @ destroy_tokens concurrency_token load_shed_token, s)
      else
        let (response, s) = invoke_handler handler req s in (response, destroy_tokens None None, s))"

lemma token_simps [simp]:
  "take_token present sem = (if present then ([Trywait sem True], Some sem) else ([], None))"
  "destroy_tokens None None = []" "destroy_tokens (Some a) None = [Sem_post a]"
  "destroy_tokens None (Some b) = [Sem_post b]" "destroy_tokens (Some a) (Some b) = [Sem_post b, Sem_post a]"
  by (simp_all add: take_token_def token_assign_def token_release_def destroy_tokens_def)

text \<open>The accept loop in direct mode: one round per accepted request, with its log and its output.\<close>

record 's accepted =
  ac_envp :: "string list option"
  ac_fread :: "'s fread"
  ac_available :: "semaphore \<Rightarrow> bool"
  ac_timestamps :: "string \<times> string"

fun accept_loop ::
    "debug_log \<Rightarrow> sem_setup \<Rightarrow> (fcgi_request \<Rightarrow> 's \<Rightarrow> ('x + fcgi_response) \<times> 's) \<Rightarrow> 's accepted list \<Rightarrow> 's
       \<Rightarrow> (string \<times> string \<times> sem_op list) list \<times> 's" where
  "accept_loop dl sems handler [] s = ([], s)"
| "accept_loop dl sems handler (ac # acs) s =
     (let (req, s) = read_request_envp (ac_fread ac) (ac_envp ac) s;
          (response, sem_ops, s) = serve_request sems (ac_available ac) handler req s;
          shed = (\<exists>sm. Trywait sm False \<in> set sem_ops);
          log = (if shed then [] else
            log_http_request dl (fst (ac_timestamps ac)) (rq_request_method req) (rq_request_uri req) @
            log_http_response dl (snd (ac_timestamps ac)) (rs_status_code response) (rs_body response));
          (rest, s) = accept_loop dl sems handler acs s
      in ((write_response response, log, sem_ops) # rest, s))"

section \<open>The server object\<close>

record server =
  sv_has_handler :: bool
  sv_listen_fd :: int
  sv_shutdown_requested :: bool
  sv_sems :: sem_setup

definition new_server :: server where
  "new_server = \<lparr>sv_has_handler = False, sv_listen_fd = -1, sv_shutdown_requested = False,
     sv_sems = \<lparr>ss_concurrency = False, ss_load_shed = False\<rparr>\<rparr>"

definition set_handler :: "bool \<Rightarrow> server \<Rightarrow> server" where
  "set_handler present sv = sv\<lparr>sv_has_handler := present\<rparr>"

definition set_load_shed_semaphore :: "bool \<Rightarrow> server \<Rightarrow> server" where
  "set_load_shed_semaphore present sv = sv\<lparr>sv_sems := (sv_sems sv)\<lparr>ss_load_shed := present\<rparr>\<rparr>"

definition set_concurrency_semaphore :: "bool \<Rightarrow> server \<Rightarrow> server" where
  "set_concurrency_semaphore present sv = sv\<lparr>sv_sems := (sv_sems sv)\<lparr>ss_concurrency := present\<rparr>\<rparr>"

definition listen_backlog :: "int \<Rightarrow> int" where
  "listen_backlog backlog = (if backlog < 1 then 128 else backlog)"

text \<open>\<open>open_socket\<close> is what \<^verbatim>\<open>FCGX_OpenSocket\<close> returns for a path and a backlog.\<close>

definition server_listen :: "(string \<Rightarrow> int \<Rightarrow> int) \<Rightarrow> string \<Rightarrow> int \<Rightarrow> server \<Rightarrow> bool \<times> server" where
  "server_listen open_socket socket_path backlog sv =
     (if socket_path = [] then (False, sv)
      else
        let fd = open_socket socket_path (listen_backlog backlog)
        in if fd < 0 then (False, sv) else (True, sv\<lparr>sv_listen_fd := fd\<rparr>))"

definition is_listening :: "server \<Rightarrow> bool" where
  "is_listening sv \<longleftrightarrow> sv_listen_fd sv \<ge> 0"

definition close_listen_socket :: "server \<Rightarrow> server" where
  "close_listen_socket sv = (if sv_listen_fd sv \<ge> 0 then sv\<lparr>sv_listen_fd := -1\<rparr> else sv)"

text \<open>
  The calls of \<^verbatim>\<open>shutdown\<close>: the socket is shut down, up to 64 connections to it wake the workers, and it
  is closed.  \<open>wake\<close> gives, for each round, the result of \<^verbatim>\<open>socket\<close> and whether the connection was queued.
\<close>

datatype shutdown_call = Shut_down int | Wake int | Close_fd int

fun wakeups :: "nat \<Rightarrow> (int \<times> bool) list \<Rightarrow> shutdown_call list" where
  "wakeups 0 wake = []"
| "wakeups (Suc n) [] = []"
| "wakeups (Suc n) ((fd, queued) # wake) =
     (if fd < 0 then [] else if queued then [Wake fd, Close_fd fd] @ wakeups n wake else [Close_fd fd])"

definition server_shutdown :: "bool \<Rightarrow> (int \<times> bool) list \<Rightarrow> server \<Rightarrow> shutdown_call list \<times> server" where
  "server_shutdown getsockname_ok wake sv =
     (let sv = sv\<lparr>sv_shutdown_requested := True\<rparr>; fd = sv_listen_fd sv in
      if fd \<ge> 0 then
        ([Shut_down fd] @ (if getsockname_ok then wakeups 64 wake else []) @ [Close_fd fd], sv\<lparr>sv_listen_fd := -1\<rparr>)
      else ([], sv))"

text \<open>
  \<^verbatim>\<open>run\<close>: the exit code, and in direct mode what the loop wrote.  In spawn-fcgi mode the requests come
  from the process environment and no semaphore is used.
\<close>

fun stdio_loop ::
    "debug_log \<Rightarrow> (fcgi_request \<Rightarrow> 's \<Rightarrow> ('x + fcgi_response) \<times> 's) \<Rightarrow> ((string \<Rightarrow> string option) \<times> 's fread \<times> string \<times> string) list
       \<Rightarrow> 's \<Rightarrow> ((string \<times> string) list \<times> 's) outcome" where
  "stdio_loop dl handler [] s = Ret ([], s)"
| "stdio_loop dl handler ((getenv, fread, t1, t2) # reqs) s =
     (case read_request_getenv fread getenv s of
        UB \<Rightarrow> UB
      | Ret (req, s) \<Rightarrow>
          let (response, s) = invoke_handler handler req s;
              log = log_http_request dl t1 (rq_request_method req) (rq_request_uri req) @
                log_http_response dl t2 (rs_status_code response) (rs_body response)
          in (case stdio_loop dl handler reqs s of
                UB \<Rightarrow> UB
              | Ret (rest, s) \<Rightarrow> Ret ((write_response response, log) # rest, s)))"

definition run_direct ::
    "int \<Rightarrow> int \<Rightarrow> debug_log \<Rightarrow> server \<Rightarrow> (fcgi_request \<Rightarrow> 's \<Rightarrow> ('x + fcgi_response) \<times> 's) \<Rightarrow> 's accepted list \<Rightarrow> 's
       \<Rightarrow> int \<times> (string \<times> string \<times> sem_op list) list \<times> 's" where
  "run_direct fcgx_init fcgx_init_request dl sv handler acs s =
     (if \<not> sv_has_handler sv then (1, [], s)
      else if fcgx_init \<noteq> 0 then (1, [], s)
      else if fcgx_init_request \<noteq> 0 then (1, [], s)
      else let (out, s) = accept_loop dl (sv_sems sv) handler acs s in (0, out, s))"


section \<open>Behaviour\<close>

lemma read_body_length:
  assumes "fread_law fread" "length content \<le> max_len"
  shows "length (fst (read_body fread max_len content s)) \<le> max_len"
  using assms(2)
proof (induction "max_len - length content" arbitrary: content s rule: less_induct)
  case less
  obtain chunk s1 where c: "fread (max_len - length content) s = (chunk, s1)" by (cases "fread (max_len - length content) s")
  have len: "length chunk \<le> max_len - length content" using assms(1) c unfolding fread_law_def by (metis fst_conv)
  show ?case
  proof (cases "length content < max_len \<and> chunk \<noteq> []")
    case True
    then have "length (fst (read_body fread max_len (content @ chunk) s1)) \<le> max_len"
      using len less.prems by (intro less.hyps) (auto simp flip: length_greater_0_conv)
    then show ?thesis using True c by (subst read_body.simps) simp
  next
    case False
    then show ?thesis using less.prems c by (subst read_body.simps) auto
  qed
qed

lemma read_content_length:
  assumes "fread_law fread" "length (rq_content req) \<le> 65536"
  shows "length (rq_content (fst (read_content fread cl req s))) \<le> 65536"
proof (cases "body_length cl")
  case None
  then show ?thesis using assms by (simp add: read_content_def)
next
  case (Some n)
  then have "n \<le> 65536"
    by (auto simp: body_length_def kMaxContentLength_def split: from_chars_result.splits if_splits)
  moreover have "length (fst (read_body fread n [] s)) \<le> n" using read_body_length [OF assms(1)] by simp
  ultimately show ?thesis using Some by (simp add: read_content_def case_prod_unfold Let_def)
qed

text \<open>\<^verbatim>\<open>run\<close> in both modes: the exit code and the responses that were written.\<close>

definition server_run ::
    "int \<Rightarrow> int \<Rightarrow> debug_log \<Rightarrow> server \<Rightarrow> (fcgi_request \<Rightarrow> 's \<Rightarrow> ('x + fcgi_response) \<times> 's) \<Rightarrow> 's accepted list
       \<Rightarrow> ((string \<Rightarrow> string option) \<times> 's fread \<times> string \<times> string) list \<Rightarrow> 's \<Rightarrow> (int \<times> string list \<times> 's) outcome" where
  "server_run fcgx_init fcgx_init_request dl sv handler acs reqs s =
     (if \<not> sv_has_handler sv then Ret (1, [], s)
      else if sv_listen_fd sv \<ge> 0 then
        let (code, out, s) = run_direct fcgx_init fcgx_init_request dl sv handler acs s in Ret (code, map fst out, s)
      else
        (case stdio_loop dl handler reqs s of
           UB \<Rightarrow> UB
         | Ret (out, s) \<Rightarrow> Ret (0, map fst out, s)))"

text \<open>Splitting a response at its first blank line, as its receiver does.\<close>

fun http_split :: "string \<Rightarrow> (string \<times> string) option" where
  "http_split [] = None"
| "http_split (c # cs) =
     (if take 4 (c # cs) = crlf @ crlf then Some ([], drop 4 (c # cs))
      else map_option (\<lambda>(h, b). (c # h, b)) (http_split cs))"

lemma http_split_skip:
  assumes "CHR 0x0D \<notin> set l"
  shows "http_split (l @ rest) = map_option (\<lambda>(h, b). (l @ h, b)) (http_split rest)"
  using assms by (induction l) (auto simp: crlf_def option.map_comp comp_def case_prod_unfold option.map_ident)

lemma http_split_line:
  assumes "c \<noteq> CHR 0x0D"
  shows "http_split (crlf @ c # rest) = map_option (\<lambda>(h, b). (crlf @ h, b)) (http_split (c # rest))"
  using assms by (auto simp: crlf_def option.map_comp comp_def case_prod_unfold eval_nat_numeral simp del: http_split.simps(2))
    (auto simp: crlf_def option.map_comp comp_def case_prod_unfold eval_nat_numeral)

lemma http_split_end: "http_split (crlf @ crlf @ body) = Some ([], body)"
  by (simp add: crlf_def)

lemma to_string_no_cr: "CHR 0x0D \<notin> set (to_string n)" "CHR 0x0D \<notin> set (to_string_int i)"
proof -
  have *: "CHR 0x0D \<notin> set (to_string n)" for n
    using to_string_digits [of n] by (fastforce simp: is_digit_def)
  show "CHR 0x0D \<notin> set (to_string n)" "CHR 0x0D \<notin> set (to_string_int i)" by (simp_all add: * to_string_int_def)
qed

section \<open>Properties of the server\<close>

text \<open>
  (C26) Capacity is not lost and not invented by a request: on every path through it, an exception of the
  handler included, each semaphore is released exactly as often as it was acquired, and requests other than
  reads use none.  A read that finds a semaphore exhausted is answered with 503 and does not reach the handler.
\<close>

theorem tokens_returned:
  assumes "serve_request sems available handler req s = (response, ops, s')"
  shows "count_list ops (Trywait sm True) = count_list ops (Sem_post sm) \<and>
    (request_path req \<noteq> ''/r'' \<longrightarrow> ops = []) \<and>
    (Trywait sm False \<in> set ops \<longrightarrow> rs_status_code response = 503 \<and> s' = s)"
  using assms by (cases sm) (auto simp: serve_request_def new_response_def case_prod_unfold Let_def split: if_splits)

definition example_read_request :: fcgi_request where
  "example_read_request = new_request\<lparr>rq_path_info := ''/r''\<rparr>"

theorem tokens_returned_witness:
  "count_list (fst (snd (serve_request \<lparr>ss_concurrency = True, ss_load_shed = True\<rparr> (\<lambda>_. True)
     (\<lambda>req s. (Inl (), s)) example_read_request ()))) (Trywait Load_shed True) =
   count_list (fst (snd (serve_request \<lparr>ss_concurrency = True, ss_load_shed = True\<rparr> (\<lambda>_. True)
     (\<lambda>req s. (Inl () :: unit + fcgi_response, s)) example_read_request ()))) (Sem_post Load_shed)"
  using tokens_returned [of "\<lparr>ss_concurrency = True, ss_load_shed = True\<rparr>" "\<lambda>_. True"
      "\<lambda>req s. (Inl () :: unit + fcgi_response, s)" example_read_request "()"] by (metis prod.collapse)

text \<open>
  A request body never takes more than 64 KiB, whatever \<^verbatim>\<open>CONTENT_LENGTH\<close> says.
\<close>

lemma content_bounded:
  assumes "fread_law fread"
  shows "length (rq_content (fst (read_request_envp fread envp s))) \<le> 65536"
  using read_content_length [OF assms]
  by (auto simp: read_request_envp_def request_of_def new_request_def Let_def split: option.split)

lemma content_bounded_witness:
  "length (rq_content (fst (read_request_envp (\<lambda>n s. (take n s, drop n s))
     (Some [''REQUEST_METHOD=POST'', ''CONTENT_LENGTH=99999999'']) ''xyz''))) \<le> 65536"
  by (rule content_bounded) (simp add: fread_law_def)

text \<open>
  A response is framed so that its receiver finds the body: the first blank line is the one behind the
  headers, what follows it is the body, and the length in the headers is the length of the body, as long as
  the content type holds no carriage return.
\<close>

lemma response_framed:
  assumes "CHR 0x0D \<notin> set (rs_content_type r)"
  shows "http_split (write_response r) = Some (''Status: '' @ to_string_int (rs_status_code r) @ crlf @
    ''Content-Type: '' @ rs_content_type r @ ''; charset=utf-8'' @ crlf @
    ''Content-Length: '' @ to_string (length (rs_body r)), rs_body r)"
proof -
  have 3: "http_split ((''Content-Length: '' @ to_string n) @ crlf @ crlf @ b) = Some (''Content-Length: '' @ to_string n, b)" for n b
    by (subst http_split_skip) (simp_all add: http_split_end to_string_no_cr)
  have 2: "http_split ((''Content-Type: '' @ rs_content_type r @ ''; charset=utf-8'') @ crlf @ CHR ''C'' # rest) =
      map_option (\<lambda>(h, b). ((''Content-Type: '' @ rs_content_type r @ ''; charset=utf-8'') @ crlf @ h, b)) (http_split (CHR ''C'' # rest))" for rest
    by (subst http_split_skip, use assms in simp, subst http_split_line, simp, simp add: option.map_comp comp_def case_prod_unfold)
  have 1: "http_split ((''Status: '' @ to_string_int n) @ crlf @ CHR ''C'' # rest) =
      map_option (\<lambda>(h, b). ((''Status: '' @ to_string_int n) @ crlf @ h, b)) (http_split (CHR ''C'' # rest))" for n rest
    by (subst http_split_skip, simp add: to_string_no_cr, subst http_split_line, simp, simp add: option.map_comp comp_def case_prod_unfold)
  show ?thesis
    using 1 [of "rs_status_code r"] 2 3 [of "length (rs_body r)" "rs_body r"] by (simp add: write_response_def del: http_split.simps)
qed

lemma response_framed_witness:
  "map_option snd (http_split (write_response (new_response\<lparr>rs_body := ''{}''\<rparr>))) = Some ''{}''"
  using response_framed [of "new_response\<lparr>rs_body := ''{}''\<rparr>"] by (simp add: new_response_def)

text \<open>A POST without a length has no defined result in spawn-fcgi mode.\<close>

lemma missing_content_length_undefined:
  "read_request_getenv fread [''REQUEST_METHOD'' \<mapsto> ''POST''] s = UB"
  by (simp add: read_request_getenv_def request_of_def has_body_def env_or_empty_def new_request_def)

end
