(* ===== verification/Supervisor.thy ===== *)
theory Supervisor
  imports Fcgi_Server Router Cache_Reader Knxd_Connector
begin

text \<open>
  \<^verbatim>\<open>src/main.cpp\<close>: the configuration, the start of the processes, and the supervisor that replaces dead
  children.  What the system calls return (process ids, exits, clocks, the environment) are arguments.
\<close>

section \<open>Configuration\<close>

type_synonym environment = "string \<Rightarrow> string option"

definition kMaxLongpollTimeoutSec :: int where
  "kMaxLongpollTimeoutSec = 3600"

definition kMaxFileDescriptors :: int where
  "kMaxFileDescriptors = 256"

definition kMaxWorkerMemoryBytes :: int where
  "kMaxWorkerMemoryBytes = 64 * 1024 * 1024"

datatype resource = Rlimit_nofile | Rlimit_as

text \<open>The calls of \<^verbatim>\<open>setrlimit\<close>: the soft and the hard limit, \<open>None\<close> standing for infinity.\<close>

definition set_resource_limits :: "(resource \<times> int \<times> int option) list" where
  "set_resource_limits =
     [(Rlimit_nofile, kMaxFileDescriptors, Some kMaxFileDescriptors), (Rlimit_as, kMaxWorkerMemoryBytes, None)]"

definition get_env_default :: "environment \<Rightarrow> string \<Rightarrow> string \<Rightarrow> string" where
  "get_env_default getenv name default_value =
     (case getenv name of Some val \<Rightarrow> if val \<noteq> [] then val else default_value | None \<Rightarrow> default_value)"

text \<open>The cast to \<^verbatim>\<open>int\<close> keeps the low 32 bits.\<close>

definition parse_env_int :: "environment \<Rightarrow> string \<Rightarrow> int \<Rightarrow> int \<Rightarrow> int \<Rightarrow> int" where
  "parse_env_int getenv name default_val min_val max_val =
     (case getenv name of
        None \<Rightarrow> default_val
      | Some val \<Rightarrow>
          if val = [] then default_val
          else case strtol10 val of
            None \<Rightarrow> default_val
          | Some (raw, rest) \<Rightarrow>
              if rest \<noteq> [] \<or> raw < min_val then default_val
              else
                let result = sint (word_of_int raw :: u32)
                in if result > max_val then max_val else result)"

record settings =
  se_knxd_socket :: string
  se_longpoll_timeout :: int
  se_num_workers :: int
  se_address_prefix :: string
  se_base_url :: "string option"
  se_fcgi_socket :: string

definition read_settings :: "environment \<Rightarrow> settings" where
  "read_settings getenv = \<lparr>
     se_knxd_socket = get_env_default getenv ''KNXD_SOCKET'' ''/run/knx'',
     se_longpoll_timeout = parse_env_int getenv ''LONGPOLL_TIMEOUT_SEC'' 300 1 kMaxLongpollTimeoutSec,
     se_num_workers = parse_env_int getenv ''FCGI_WORKERS'' 20 1 256,
     se_address_prefix = get_env_default getenv ''ADDRESS_PREFIX'' [],
     se_base_url = getenv ''BASE_URL'',
     se_fcgi_socket = get_env_default getenv ''FCGI_SOCKET'' []\<rparr>"

text \<open>The configuration the router of every worker gets.\<close>

definition router_config ::
    "environment \<Rightarrow> build_info \<Rightarrow> ((u16 \<times> bytes) list \<Rightarrow> (u16 \<times> bytes) list) \<Rightarrow> config" where
  "router_config getenv bi hash_order =
     (let se = read_settings getenv in
      \<lparr>cf_default_namespace = se_address_prefix se, cf_longpoll_timeout_sec = se_longpoll_timeout se,
       cf_base_url = (case se_base_url se of Some u \<Rightarrow> u | None \<Rightarrow> []),
       cf_extra_config = getenv ''LOGIN_EXTRA_CONFIG'', cf_build_info = bi, cf_hash_order = hash_order\<rparr>)"

text \<open>
  The handler every worker gives to its server.  A call without a defined result is passed on as if it had
  thrown; the facts about it are stated for requests whose handling has a result.
\<close>

definition worker_handler ::
    "'k knxd_ops \<Rightarrow> config \<Rightarrow> u64 \<Rightarrow> fcgi_request \<Rightarrow> 'k worker \<Rightarrow> (unit + fcgi_response) \<times> 'k worker" where
  "worker_handler ops cfg num req wk =
     (case route ops cfg num req wk of Some (response, wk) \<Rightarrow> (Inr response, wk) | None \<Rightarrow> (Inl (), wk))"

section \<open>Connections at the start\<close>

text \<open>The check of the knxd connection before anything is forked; its result is only logged.\<close>

definition verify_knxd :: "'k knxd_ops \<Rightarrow> string \<Rightarrow> 'k \<Rightarrow> 'k option" where
  "verify_knxd ops knxd_socket k = do {
     (connected, _, k) \<leftarrow> connect_knxd_with_retry ops knxd_socket False None k;
     if connected then do {
       (opened, k) \<leftarrow> kc_open_group_socket ops False k;
       Some (kc_disconnect ops (if opened then kc_set_nonblocking ops True k else k))
     }
     else Some k
   }"

text \<open>What a worker does before it accepts requests: one attempt, and no connection is left half open.\<close>

definition worker_connect :: "'k knxd_ops \<Rightarrow> string \<Rightarrow> 'k \<Rightarrow> 'k option" where
  "worker_connect ops knxd_socket k = do {
     (connected, k) \<leftarrow> kc_connect ops knxd_socket k;
     if \<not> connected then Some k
     else do {
       (opened, k) \<leftarrow> kc_open_group_socket ops True k;
       Some (if \<not> opened then kc_disconnect ops k else k)
     }
   }"

definition reader_options :: "string \<Rightarrow> cache_reader_options" where
  "reader_options knxd_socket = default_reader_options\<lparr>cro_socket_path := knxd_socket\<rparr>"

definition cache_reader_child ::
    "'k knxd_ops \<Rightarrow> 's reader_env \<Rightarrow> string \<Rightarrow> 'k \<Rightarrow> shared_group_cache \<Rightarrow> 's \<Rightarrow> ('k, 's) reader option" where
  "cache_reader_child ops env knxd_socket k cache s =
     map_option (\<lambda>r. r\<lparr>rd_knxd := kc_disconnect ops (rd_knxd r)\<rparr>)
       (run_cache_reader ops env (reader_options knxd_socket) k cache s)"

section \<open>Restart delays\<close>

record restart_backoff =
  rb_delay_ms :: int
  rb_started_at :: int

definition new_restart_backoff :: "int \<Rightarrow> restart_backoff" where
  "new_restart_backoff now = \<lparr>rb_delay_ms = 100, rb_started_at = now\<rparr>"

definition on_spawn :: "int \<Rightarrow> restart_backoff \<Rightarrow> restart_backoff" where
  "on_spawn now b = b\<lparr>rb_started_at := now\<rparr>"

definition on_death :: "int \<Rightarrow> restart_backoff \<Rightarrow> int \<times> restart_backoff" where
  "on_death now b =
     (let lived = (now - rb_started_at b) sdiv 1000000000;
          delay_ms = (if lived > 60 then 100 else rb_delay_ms b)
      in (delay_ms, b\<lparr>rb_delay_ms := min (delay_ms * 2) 30000\<rparr>))"

text \<open>A child that dies at once.\<close>

definition quick_death :: "restart_backoff \<Rightarrow> restart_backoff" where
  "quick_death b = snd (on_death (rb_started_at b) b)"

interpretation restart: doubling_backoff rb_delay_ms quick_death 30000
  by unfold_locales (simp add: quick_death_def on_death_def Let_def)

definition restart_ok :: "restart_backoff \<Rightarrow> bool" where
  "restart_ok b \<longleftrightarrow> 100 \<le> rb_delay_ms b \<and> rb_delay_ms b \<le> 30000"

lemma on_death_spec:
  assumes "restart_ok b" "on_death now b = (wait_ms, b')"
  shows "100 \<le> wait_ms \<and> wait_ms \<le> 30000 \<and> restart_ok b' \<and> wait_ms \<le> rb_delay_ms b'"
  using assms by (auto simp: restart_ok_def on_death_def Let_def min_def)

lemma on_spawn_ok [simp]: "restart_ok (on_spawn now b) = restart_ok b"
  by (simp add: restart_ok_def on_spawn_def)

section \<open>The supervisor\<close>

record supervisor =
  sp_cache_reader_pid :: int
  sp_worker_pids :: "int list"
  sp_reader_backoff :: restart_backoff
  sp_worker_backoff :: "restart_backoff list"
  sp_concurrency :: "nat option"
  sp_load_shed :: "nat option"

text \<open>A semaphore: missing when its memory or its initialisation failed.\<close>

definition create_semaphore :: "bool \<Rightarrow> bool \<Rightarrow> nat \<Rightarrow> nat option" where
  "create_semaphore mmap_ok init_ok num_workers = (if mmap_ok \<and> init_ok then Some num_workers else None)"

text \<open>Starting the children: \<open>forks\<close> are the results of the forks in their order.\<close>

fun start_workers :: "nat \<Rightarrow> int list \<Rightarrow> int list \<times> bool" where
  "start_workers 0 forks = ([], False)"
| "start_workers (Suc n) [] = (replicate (Suc n) (-1), True)"
| "start_workers (Suc n) (pid # forks) =
     (if pid < 0 then (replicate (Suc n) (-1), True)
      else let (pids, failed) = start_workers n forks in (pid # pids, failed))"

definition stop_children :: "int \<Rightarrow> int list \<Rightarrow> int list" where
  "stop_children cache_reader_pid worker_pids =
     (if cache_reader_pid > 0 then [cache_reader_pid] else []) @ filter (\<lambda>pid. pid > 0) worker_pids"

definition start_supervisor ::
    "nat \<Rightarrow> int \<Rightarrow> int list \<Rightarrow> int \<Rightarrow> int list \<Rightarrow> nat option \<Rightarrow> nat option \<Rightarrow> supervisor" where
  "start_supervisor num_workers reader_pid pids now_reader now_workers concurrency load_shed =
     \<lparr>sp_cache_reader_pid = reader_pid, sp_worker_pids = pids, sp_reader_backoff = new_restart_backoff now_reader,
      sp_worker_backoff = map new_restart_backoff now_workers, sp_concurrency = concurrency, sp_load_shed = load_shed\<rparr>"

definition restore_semaphore :: "nat \<Rightarrow> nat option \<Rightarrow> nat option" where
  "restore_semaphore num_workers sem = map_option (\<lambda>v. if v < num_workers then v + 1 else v) sem"

fun index_of :: "int \<Rightarrow> int list \<Rightarrow> nat option" where
  "index_of p [] = None"
| "index_of p (q # qs) = (if q = p then Some 0 else map_option Suc (index_of p qs))"

text \<open>
  A dead child is replaced: the time of death, the result of the fork and the time of the new start are
  given; the result starts with the delay that was slept.
\<close>

definition replace_child ::
    "nat \<Rightarrow> int \<Rightarrow> int \<Rightarrow> int \<Rightarrow> int \<Rightarrow> supervisor \<Rightarrow> int option \<times> supervisor" where
  "replace_child num_workers waited t_death fork_pid t_spawn sp =
     (if waited = sp_cache_reader_pid sp then
        let (wait_ms, b) = on_death t_death (sp_reader_backoff sp);
            sp = sp\<lparr>sp_cache_reader_pid := fork_pid, sp_reader_backoff := b\<rparr>
        in (Some wait_ms, if fork_pid < 0 then sp else sp\<lparr>sp_reader_backoff := on_spawn t_spawn b\<rparr>)
      else
        case index_of waited (sp_worker_pids sp) of
          None \<Rightarrow> (None, sp)
        | Some i \<Rightarrow>
            let (wait_ms, b) = on_death t_death (sp_worker_backoff sp ! i);
                b = (if fork_pid < 0 then b else on_spawn t_spawn b)
            in (Some wait_ms,
                sp\<lparr>sp_concurrency := restore_semaphore num_workers (sp_concurrency sp),
                   sp_load_shed := restore_semaphore num_workers (sp_load_shed sp),
                   sp_worker_pids := (sp_worker_pids sp)[i := fork_pid],
                   sp_worker_backoff := (sp_worker_backoff sp)[i := b]\<rparr>))"

datatype reaped = Child int | Interrupted | No_children

text \<open>
  One round of the loop: the shutdown flag before the wait, what the wait returns, the flag after it,
  the times of the death and of the new start, and the result of the fork.
\<close>

record wait_event =
  we_shutdown_before :: bool
  we_reaped :: reaped
  we_shutdown :: bool
  we_times :: "int \<times> int"
  we_fork_pid :: int

text \<open>The loop ends with a shutdown, with the last child, or where the given events end.\<close>

fun supervise :: "nat \<Rightarrow> wait_event list \<Rightarrow> supervisor \<Rightarrow> int list \<times> supervisor" where
  "supervise num_workers [] sp = ([], sp)"
| "supervise num_workers (ev # evs) sp =
     (if we_shutdown_before ev then ([], sp)
      else case we_reaped ev of
        No_children \<Rightarrow> ([], sp)
      | Interrupted \<Rightarrow> supervise num_workers evs sp
      | Child waited \<Rightarrow>
          if we_shutdown ev then ([], sp)
          else
            let (slept, sp) = replace_child num_workers waited (fst (we_times ev)) (we_fork_pid ev) (snd (we_times ev)) sp;
                (rest, sp) = supervise num_workers evs sp
            in (case slept of Some ms \<Rightarrow> ms # rest | None \<Rightarrow> rest, sp))"

section \<open>The start of the program\<close>

definition version_line :: "build_info \<Rightarrow> string" where
  "version_line bi = application_name @ '' '' @ app_version bi @ [CHR 0x0A]"

text \<open>The first argument; the help starts with the version line and goes on with a fixed text.\<close>

datatype flag = Print_version | Print_help | Start

definition parse_flag :: "string list \<Rightarrow> flag" where
  "parse_flag args = (case args of
      arg # _ \<Rightarrow>
        if arg = ''--version'' \<or> arg = ''-v'' then Print_version
        else if arg = ''--help'' \<or> arg = ''-h'' then Print_help
        else Start
    | [] \<Rightarrow> Start)"

datatype start_mode = Exits int | Stdio server | Pool server shared_group_cache

text \<open>
  Up to the start of the children: an unusable socket or a cache that cannot be created ends the
  program with code 1; without \<^verbatim>\<open>FCGI_SOCKET\<close> the process serves its standard input itself.
\<close>

definition startup ::
    "string list \<Rightarrow> environment \<Rightarrow> (string \<Rightarrow> int \<Rightarrow> int) \<Rightarrow> bool \<times> bool \<times> bool \<Rightarrow> shared_group_cache \<Rightarrow> bool \<times> bool \<Rightarrow> start_mode" where
  "startup args getenv open_socket region cache sems =
     (if parse_flag args \<noteq> Start then Exits 0
      else
        let fcgi_socket = se_fcgi_socket (read_settings getenv);
            (listening, sv) = (if fcgi_socket \<noteq> [] then server_listen open_socket fcgi_socket 128 new_server
                               else (True, new_server))
        in if \<not> listening then Exits 1
           else
             let (created, cache) = sgc_create (fst region) (fst (snd region)) (snd (snd region)) cache
             in if \<not> created then Exits 1
                else
                  let sv = set_handler True sv
                  in if fcgi_socket \<noteq> [] then
                       Pool (set_concurrency_semaphore (snd sems) (set_load_shed_semaphore (fst sems) sv)) cache
                     else Stdio sv)"

text \<open>The start of the children; a failed fork ends the program after all children were told to stop.\<close>

definition start_pool ::
    "nat \<Rightarrow> int \<Rightarrow> int list \<Rightarrow> int \<Rightarrow> int list \<Rightarrow> nat option \<Rightarrow> nat option \<Rightarrow> (int \<times> int list) + supervisor" where
  "start_pool num_workers reader_fork forks now_reader now_workers concurrency load_shed =
     (if reader_fork < 0 then Inl (1, [])
      else
        let (pids, fork_failed) = start_workers num_workers forks
        in if fork_failed then Inl (1, stop_children reader_fork pids)
           else Inr (start_supervisor num_workers reader_fork pids now_reader now_workers concurrency load_shed))"

text \<open>
  The pool from its start to its end: the exit code, the delays slept and the processes that are told to stop.
  The last argument is the shutdown flag after the loop.
\<close>

definition run_pool ::
    "nat \<Rightarrow> int \<Rightarrow> int list \<Rightarrow> int \<Rightarrow> int list \<Rightarrow> nat option \<Rightarrow> nat option \<Rightarrow> wait_event list \<Rightarrow> bool
       \<Rightarrow> int \<times> int list \<times> int list" where
  "run_pool num_workers reader_fork forks now_reader now_workers concurrency load_shed evs shutdown =
     (case start_pool num_workers reader_fork forks now_reader now_workers concurrency load_shed of
        Inl (code, stopped) \<Rightarrow> (code, [], stopped)
      | Inr sp \<Rightarrow>
          let (slept, sp) = supervise num_workers evs sp
          in (0, slept, if shutdown then stop_children (sp_cache_reader_pid sp) (sp_worker_pids sp) else []))"

text \<open>
  The client with which requests are served: a worker of the pool connects it first, the process that
  serves its standard input does not.
\<close>

definition serving_client :: "'k knxd_ops \<Rightarrow> string \<Rightarrow> start_mode \<Rightarrow> 'k \<Rightarrow> 'k option" where
  "serving_client ops knxd_socket st k =
     (case st of
        Exits _ \<Rightarrow> None
      | Stdio _ \<Rightarrow> Some k
      | Pool _ _ \<Rightarrow> worker_connect ops knxd_socket k)"

section \<open>Settings\<close>

text \<open>A setting that fits an \<^verbatim>\<open>int\<close> is within its limits.\<close>

lemma parse_env_int_range:
  assumes "min_val \<le> default_val" "default_val \<le> max_val" "- (2 ^ 31) \<le> min_val"
    and "\<forall>val raw rest. getenv name = Some val \<and> strtol10 val = Some (raw, rest) \<longrightarrow> raw < 2 ^ 31"
  shows "min_val \<le> parse_env_int getenv name default_val min_val max_val \<and>
    parse_env_int getenv name default_val min_val max_val \<le> max_val"
proof -
  have mm: "min_val \<le> max_val" using assms(1,2) by simp
  have cast: "sint (word_of_int raw :: u32) = raw" if "min_val \<le> raw" "raw < 2 ^ 31" for raw
    using that assms(3) by (simp add: sint_sbintrunc' signed_take_bit_int_eq_self)
  show ?thesis
  proof (cases "\<exists>val raw. getenv name = Some val \<and> val \<noteq> [] \<and> strtol10 val = Some (raw, []) \<and> min_val \<le> raw")
    case True
    then obtain val raw where v: "getenv name = Some val" "val \<noteq> []" "strtol10 val = Some (raw, [])" "min_val \<le> raw"
      by blast
    then have "raw < 2 ^ 31" using assms(4) by blast
    then show ?thesis using v cast [of raw] mm by (simp add: parse_env_int_def Let_def)
  next
    case False
    then have "parse_env_int getenv name default_val min_val max_val = default_val"
      by (cases "getenv name"; cases "strtol10 (the (getenv name))") (auto simp: parse_env_int_def)
    then show ?thesis using assms(1,2) by simp
  qed
qed

text \<open>A larger number is cut to 32 bits, also below the minimum.\<close>

lemmas strtol10_eval = strtol10_def is_space_def is_digit_def dec_value_def digit_val_def

lemma parse_env_int_wraps:
  "parse_env_int (\<lambda>_. Some ''2147483648'') ''FCGI_WORKERS'' 20 1 256 = -2147483648"
proof -
  have "strtol10 ''2147483648'' = Some (2147483648, [])" by (simp add: strtol10_eval)
  then show ?thesis by (simp add: parse_env_int_def)
qed

lemma parse_env_int_below_minimum: "parse_env_int (\<lambda>_. Some ''0'') ''FCGI_WORKERS'' 20 1 256 = 20"
proof -
  have "strtol10 ''0'' = Some (0, [])" by (simp add: strtol10_eval)
  then show ?thesis by (simp add: parse_env_int_def)
qed

section \<open>What the supervisor keeps\<close>

definition sup_inv :: "nat \<Rightarrow> supervisor \<Rightarrow> bool" where
  "sup_inv n sp \<longleftrightarrow> length (sp_worker_pids sp) = n \<and> length (sp_worker_backoff sp) = n \<and>
     restart_ok (sp_reader_backoff sp) \<and> list_all restart_ok (sp_worker_backoff sp)"

lemma index_of_Some: "index_of p ps = Some i \<Longrightarrow> i < length ps \<and> ps ! i = p"
  by (induction ps arbitrary: i) (auto split: if_splits)

lemma index_of_None: "index_of p ps = None \<longleftrightarrow> p \<notin> set ps"
  by (induction ps) auto

lemma replace_child_inv:
  assumes "replace_child n waited td f ts sp = (slept, sp')" "sup_inv n sp"
  shows "sup_inv n sp' \<and> (\<forall>ms. slept = Some ms \<longrightarrow> 100 \<le> ms \<and> ms \<le> 30000)"
proof (cases "waited = sp_cache_reader_pid sp")
  case True
  obtain wait_ms b where d: "on_death td (sp_reader_backoff sp) = (wait_ms, b)" by (cases "on_death td (sp_reader_backoff sp)")
  have "restart_ok (sp_reader_backoff sp)" using assms(2) by (simp add: sup_inv_def)
  from on_death_spec [OF this d] show ?thesis
    using assms d True by (auto simp: replace_child_def sup_inv_def Let_def split: if_splits)
next
  case reader: False
  show ?thesis
  proof (cases "index_of waited (sp_worker_pids sp)")
    case None
    then show ?thesis using assms reader by (simp add: replace_child_def)
  next
    case (Some i)
    obtain wait_ms b where d: "on_death td (sp_worker_backoff sp ! i) = (wait_ms, b)" by (cases "on_death td (sp_worker_backoff sp ! i)")
    have i: "i < length (sp_worker_backoff sp)" using index_of_Some [OF Some] assms(2) by (simp add: sup_inv_def)
    then have "restart_ok (sp_worker_backoff sp ! i)" using assms(2) by (simp add: sup_inv_def list_all_length)
    from on_death_spec [OF this d] show ?thesis
      using assms d reader Some i
      by (auto simp: replace_child_def sup_inv_def Let_def list_all_length nth_list_update)
  qed
qed

lemma supervise_inv:
  "supervise n evs sp = (slept, sp') \<Longrightarrow> sup_inv n sp \<Longrightarrow>
     sup_inv n sp' \<and> (\<forall>ms \<in> set slept. 100 \<le> ms \<and> ms \<le> 30000)"
proof (induction evs arbitrary: sp slept sp')
  case (Cons ev evs)
  show ?case
  proof (cases "\<not> we_shutdown_before ev \<and> \<not> we_shutdown ev \<and> (\<exists>p. we_reaped ev = Child p)")
    case True
    then obtain p where p: "we_reaped ev = Child p" by blast
    obtain sl sp1 where r: "replace_child n p (fst (we_times ev)) (we_fork_pid ev) (snd (we_times ev)) sp = (sl, sp1)"
      by (cases "replace_child n p (fst (we_times ev)) (we_fork_pid ev) (snd (we_times ev)) sp")
    obtain rest sp2 where s: "supervise n evs sp1 = (rest, sp2)" by (cases "supervise n evs sp1")
    have one: "sup_inv n sp1 \<and> (\<forall>ms. sl = Some ms \<longrightarrow> 100 \<le> ms \<and> ms \<le> 30000)"
      using r Cons.prems(2) by (rule replace_child_inv)
    have "sup_inv n sp2 \<and> (\<forall>ms \<in> set rest. 100 \<le> ms \<and> ms \<le> 30000)"
      using Cons.IH [OF s] one by blast
    then show ?thesis using Cons.prems(1) True p r s one by (auto split: option.splits)
  next
    case False
    then show ?thesis using Cons.prems Cons.IH [of sp] by (auto split: if_splits reaped.splits)
  qed
qed simp

section \<open>The children\<close>

text \<open>
  The processes that run, as the operating system has them: a death takes one away, a successful fork
  adds one.  A sequence of events is possible when only running children die and a fork fails or returns a
  number that no running child has; it may be the number of the child that was just reaped.
\<close>

fun os_children :: "wait_event list \<Rightarrow> int set \<Rightarrow> int set" where
  "os_children [] ps = ps"
| "os_children (ev # evs) ps =
     (if we_shutdown_before ev then ps
      else case we_reaped ev of
        No_children \<Rightarrow> ps
      | Interrupted \<Rightarrow> os_children evs ps
      | Child p \<Rightarrow>
          if we_shutdown ev then ps - {p}
          else os_children evs (ps - {p} \<union> (if we_fork_pid ev > 0 then {we_fork_pid ev} else {})))"

fun possible_events :: "wait_event list \<Rightarrow> int set \<Rightarrow> bool" where
  "possible_events [] ps \<longleftrightarrow> True"
| "possible_events (ev # evs) ps \<longleftrightarrow>
     (case we_reaped ev of
        No_children \<Rightarrow> ps = {}
      | Interrupted \<Rightarrow> possible_events evs ps
      | Child p \<Rightarrow> p \<in> ps \<and> we_fork_pid ev \<noteq> 0 \<and> we_fork_pid ev \<notin> ps - {p} \<and>
          possible_events evs (ps - {p} \<union> (if we_fork_pid ev > 0 then {we_fork_pid ev} else {})))"

abbreviation known_children :: "supervisor \<Rightarrow> int list" where
  "known_children sp \<equiv> stop_children (sp_cache_reader_pid sp) (sp_worker_pids sp)"

lemma stop_children_pos: "p \<in> set (stop_children r ws) \<Longrightarrow> 0 < p"
  by (auto simp: stop_children_def split: if_splits)

lemma filter_update:
  assumes "i < length ws" "ws ! i = p" "0 < (p::int)" "distinct (filter (\<lambda>q. q > 0) ws)"
  shows "set (filter (\<lambda>q. q > 0) (ws[i := f])) =
      set (filter (\<lambda>q. q > 0) ws) - {p} \<union> (if f > 0 then {f} else {})"
    and "f \<notin> set (filter (\<lambda>q. q > 0) ws) - {p} \<Longrightarrow> distinct (filter (\<lambda>q. q > 0) (ws[i := f]))"
proof -
  have ws: "ws = take i ws @ p # drop (Suc i) ws" using assms(1,2) id_take_nth_drop by blast
  have up: "ws[i := f] = take i ws @ f # drop (Suc i) ws" using assms(1) by (rule upd_conv_take_nth_drop)
  obtain xs ys where xy: "ws = xs @ p # ys" "ws[i := f] = xs @ f # ys" using ws up by metis
  show "set (filter (\<lambda>q. q > 0) (ws[i := f])) =
      set (filter (\<lambda>q. q > 0) ws) - {p} \<union> (if f > 0 then {f} else {})"
    using assms(3,4) unfolding xy(2) unfolding xy(1) by auto
  show "f \<notin> set (filter (\<lambda>q. q > 0) ws) - {p} \<Longrightarrow> distinct (filter (\<lambda>q. q > 0) (ws[i := f]))"
    using assms(3,4) unfolding xy(2) unfolding xy(1) by auto
qed

lemma replace_child_known:
  assumes "replace_child n p td f ts sp = (slept, sp')" "distinct (known_children sp)"
    and "p \<in> set (known_children sp)" "f \<noteq> 0" "f \<notin> set (known_children sp) - {p}"
  shows "set (known_children sp') = set (known_children sp) - {p} \<union> (if f > 0 then {f} else {})"
    and "distinct (known_children sp')" and "slept \<noteq> None"
proof -
  have p: "0 < p" using assms(3) by (rule stop_children_pos)
  let ?r = "sp_cache_reader_pid sp" and ?ws = "sp_worker_pids sp"
  have "set (known_children sp') = set (known_children sp) - {p} \<union> (if f > 0 then {f} else {}) \<and>
      distinct (known_children sp') \<and> slept \<noteq> None"
  proof (cases "p = ?r")
    case True
    then have "sp_cache_reader_pid sp' = f \<and> sp_worker_pids sp' = ?ws \<and> slept \<noteq> None"
      using assms(1) by (auto simp: replace_child_def case_prod_unfold Let_def split: if_splits)
    then show ?thesis using assms(2,4,5) p True by (auto simp: stop_children_def)
  next
    case False
    then have "p \<in> set ?ws" using assms(3) by (auto simp: stop_children_def split: if_splits)
    then obtain i where i: "index_of p ?ws = Some i" using index_of_None by fastforce
    have sp': "sp_cache_reader_pid sp' = ?r \<and> sp_worker_pids sp' = ?ws[i := f] \<and> slept \<noteq> None"
      using assms(1) False i by (auto simp: replace_child_def case_prod_unfold Let_def)
    note up = filter_update [of i ?ws p f]
    have d: "distinct (filter (\<lambda>q. q > 0) ?ws)" and nf: "f \<notin> set (filter (\<lambda>q. q > 0) ?ws) - {p}"
      using assms(2,5) by (auto simp: stop_children_def split: if_splits)
    have st: "set (filter (\<lambda>q. q > 0) (?ws[i := f])) =
        set (filter (\<lambda>q. q > 0) ?ws) - {p} \<union> (if f > 0 then {f} else {})"
      and di: "distinct (filter (\<lambda>q. q > 0) (?ws[i := f]))"
      using up index_of_Some [OF i] p d nf by blast+
    have "set (known_children sp') = set (known_children sp) - {p} \<union> (if f > 0 then {f} else {})"
      using sp' False st by (auto simp: stop_children_def)
    moreover have "distinct (known_children sp')"
      using sp' False st di assms(2,5) by (auto simp: stop_children_def split: if_splits)
    ultimately show ?thesis using sp' by blast
  qed
  then show "set (known_children sp') = set (known_children sp) - {p} \<union> (if f > 0 then {f} else {})"
    and "distinct (known_children sp')" and "slept \<noteq> None" by blast+
qed

lemma supervise_known:
  "supervise n evs sp = (slept, sp') \<Longrightarrow> distinct (known_children sp) \<Longrightarrow>
     possible_events evs (set (known_children sp)) \<Longrightarrow>
     distinct (known_children sp') \<and> os_children evs (set (known_children sp)) \<subseteq> set (known_children sp') \<and>
     (\<not> list_ex (\<lambda>ev. we_shutdown ev) evs \<longrightarrow> os_children evs (set (known_children sp)) = set (known_children sp'))"
proof (induction evs arbitrary: sp slept sp')
  case (Cons ev evs)
  show ?case
  proof (cases "\<not> we_shutdown_before ev \<and> \<not> we_shutdown ev \<and> (\<exists>p. we_reaped ev = Child p)")
    case True
    then obtain p where p: "we_reaped ev = Child p" by blast
    obtain sl sp1 where r: "replace_child n p (fst (we_times ev)) (we_fork_pid ev) (snd (we_times ev)) sp = (sl, sp1)"
      by (cases "replace_child n p (fst (we_times ev)) (we_fork_pid ev) (snd (we_times ev)) sp")
    obtain rest sp2 where s: "supervise n evs sp1 = (rest, sp2)" by (cases "supervise n evs sp1")
    have ev: "p \<in> set (known_children sp)" "we_fork_pid ev \<noteq> 0" "we_fork_pid ev \<notin> set (known_children sp) - {p}"
      "possible_events evs (set (known_children sp) - {p} \<union> (if we_fork_pid ev > 0 then {we_fork_pid ev} else {}))"
      using Cons.prems(3) p by simp_all
    note known = replace_child_known [OF r Cons.prems(2) ev(1-3)]
    have os: "os_children (ev # evs) (set (known_children sp)) = os_children evs (set (known_children sp1))"
      unfolding known(1) using True p by simp
    have pos: "possible_events evs (set (known_children sp1))" unfolding known(1) by (rule ev(4))
    have "sp' = sp2" using Cons.prems(1) True p r s by simp
    then show ?thesis
      using Cons.IH [OF s known(2) pos] unfolding os by auto
  next
    case False
    then show ?thesis using Cons.prems Cons.IH [of sp] by (auto split: if_splits reaped.splits)
  qed
qed simp

lemma replace_child_failed:
  assumes "replace_child n p td f ts sp = (slept, sp')" "0 < p"
  shows "length (sp_worker_pids sp') = length (sp_worker_pids sp) \<and>
    (sp_cache_reader_pid sp < 0 \<longrightarrow> sp_cache_reader_pid sp' = sp_cache_reader_pid sp) \<and>
    (\<forall>i < length (sp_worker_pids sp). sp_worker_pids sp ! i < 0 \<longrightarrow> sp_worker_pids sp' ! i = sp_worker_pids sp ! i)"
proof (cases "p = sp_cache_reader_pid sp")
  case True
  then show ?thesis using assms by (auto simp: replace_child_def case_prod_unfold Let_def split: if_splits)
next
  case False
  show ?thesis
  proof (cases "index_of p (sp_worker_pids sp)")
    case None
    then show ?thesis using assms False by (simp add: replace_child_def)
  next
    case (Some i)
    have "sp_cache_reader_pid sp' = sp_cache_reader_pid sp \<and> sp_worker_pids sp' = (sp_worker_pids sp)[i := f]"
      using assms(1) False Some by (auto simp: replace_child_def case_prod_unfold Let_def)
    then show ?thesis using index_of_Some [OF Some] assms(2) by (auto simp: nth_list_update)
  qed
qed

text \<open>
  A worker or reader whose fork failed is never started again: the loop only looks for the process
  that died, and no process has the number that a failed fork leaves behind.
\<close>

lemma failed_fork_final:
  assumes "supervise n evs sp = (slept, sp')" "\<forall>ev \<in> set evs. \<forall>p. we_reaped ev = Child p \<longrightarrow> 0 < p"
  shows "(sp_cache_reader_pid sp < 0 \<longrightarrow> sp_cache_reader_pid sp' = sp_cache_reader_pid sp) \<and>
    (\<forall>i < length (sp_worker_pids sp). sp_worker_pids sp ! i < 0 \<longrightarrow> sp_worker_pids sp' ! i = sp_worker_pids sp ! i)"
  using assms
proof (induction evs arbitrary: sp slept sp')
  case (Cons ev evs)
  show ?case
  proof (cases "\<not> we_shutdown_before ev \<and> \<not> we_shutdown ev \<and> (\<exists>p. we_reaped ev = Child p)")
    case True
    then obtain p where p: "we_reaped ev = Child p" "0 < p" using Cons.prems(2) by auto
    obtain sl sp1 where r: "replace_child n p (fst (we_times ev)) (we_fork_pid ev) (snd (we_times ev)) sp = (sl, sp1)"
      by (cases "replace_child n p (fst (we_times ev)) (we_fork_pid ev) (snd (we_times ev)) sp")
    obtain rest sp2 where s: "supervise n evs sp1 = (rest, sp2)" by (cases "supervise n evs sp1")
    have one: "length (sp_worker_pids sp1) = length (sp_worker_pids sp) \<and>
        (sp_cache_reader_pid sp < 0 \<longrightarrow> sp_cache_reader_pid sp1 = sp_cache_reader_pid sp) \<and>
        (\<forall>i < length (sp_worker_pids sp). sp_worker_pids sp ! i < 0 \<longrightarrow> sp_worker_pids sp1 ! i = sp_worker_pids sp ! i)"
      using r p(2) by (rule replace_child_failed)
    have "sp' = sp2" using Cons.prems(1) True p r s by simp
    then show ?thesis using Cons.IH [OF s] Cons.prems(2) one by auto
  next
    case False
    then show ?thesis using Cons.prems Cons.IH [of sp] by (auto split: if_splits reaped.splits)
  qed
qed simp

text \<open>\<open>worker_connect\<close> leaves either an open group socket or no connection, for every client.\<close>

context knxd_client
begin

lemma worker_connect_closed:
  assumes "worker_connect ops path k = Some k'"
  shows "kc_connect ops path k = Some (False, k') \<or>
    (\<exists>k1 k2. kc_connect ops path k = Some (True, k1) \<and>
       (kc_open_group_socket ops True k1 = Some (True, k') \<and> kc_is_connected ops k' \<or>
        kc_open_group_socket ops True k1 = Some (False, k2) \<and> \<not> kc_is_connected ops k'))"
proof -
  obtain c k1 where c: "kc_connect ops path k = Some (c, k1)"
    using assms by (cases "kc_connect ops path k") (auto simp: worker_connect_def)
  show ?thesis
  proof (cases c)
    case True
    obtain b k2 where o: "kc_open_group_socket ops True k1 = Some (b, k2)"
      using assms c True by (cases "kc_open_group_socket ops True k1") (auto simp: worker_connect_def)
    have k': "k' = (if b then k2 else kc_disconnect ops k2)"
      using assms c o True by (simp add: worker_connect_def split: if_splits)
    have "kc_is_connected ops k1" using connect_opens c True by simp
    then have "kc_is_connected ops k2" using open_keeps [OF o] by simp
    then show ?thesis using c o k' True disconnect_closes by (cases b) auto
  next
    case False
    then show ?thesis using assms c by (simp add: worker_connect_def)
  qed
qed

end

section \<open>Properties of the supervisor\<close>

lemma start_workers_forks:
  assumes "start_workers n forks = (pids, False)"
  shows "pids = take n forks \<and> length pids = n \<and> (\<forall>p \<in> set pids. 0 \<le> p)"
  using assms by (induction n forks arbitrary: pids rule: start_workers.induct) (auto split: if_splits prod.splits)

lemma start_pool_Inr:
  assumes "start_pool n reader_fork forks now_reader now_workers con shed = Inr sp"
  shows "sp_cache_reader_pid sp = reader_fork \<and> 0 \<le> reader_fork \<and> sp_worker_pids sp = take n forks \<and>
    length (sp_worker_pids sp) = n \<and> (\<forall>p \<in> set (sp_worker_pids sp). 0 \<le> p) \<and>
    sp_reader_backoff sp = new_restart_backoff now_reader \<and> sp_worker_backoff sp = map new_restart_backoff now_workers"
  using assms start_workers_forks [of n forks]
  by (auto simp: start_pool_def start_supervisor_def split: if_splits prod.splits)

lemma start_workers_failed:
  assumes "start_workers n forks = (pids, True)"
  shows "\<exists>k < n. pids = take k forks @ replicate (n - k) (-1) \<and> (k < length forks \<longrightarrow> forks ! k < 0) \<and>
    (\<forall>p \<in> set (take k forks). 0 \<le> p)"
  using assms
proof (induction n forks arbitrary: pids rule: start_workers.induct)
  case (3 n pid forks)
  show ?case
  proof (cases "pid < 0")
    case True
    then show ?thesis using "3.prems" by (intro exI [of _ 0]) auto
  next
    case False
    then obtain rest where r: "start_workers n forks = (rest, True)" "pids = pid # rest"
      using "3.prems" by (auto split: prod.splits)
    from "3.IH" [OF False r(1)] obtain k where "k < n" "rest = take k forks @ replicate (n - k) (-1)"
      "k < length forks \<longrightarrow> forks ! k < 0" "\<forall>p \<in> set (take k forks). 0 \<le> p" by blast
    then show ?thesis using r(2) False by (intro exI [of _ "Suc k"]) auto
  qed
qed auto

text \<open>
  A start that fails ends with code 1, and every child that was started before is told to stop, in the
  order of its start.
\<close>

lemma failed_start_stops_children:
  assumes "run_pool n reader_fork forks now_reader now_workers con shed evs shutdown = (code, slept, stopped)"
    and "reader_fork \<noteq> 0" "0 \<notin> set forks" "reader_fork < 0 \<or> snd (start_workers n forks)"
  shows "code = 1 \<and> slept = [] \<and>
    (if reader_fork < 0 then stopped = [] else \<exists>k < n. stopped = reader_fork # take k forks)"
proof (cases "reader_fork < 0")
  case True
  then show ?thesis using assms(1) by (simp add: run_pool_def start_pool_def)
next
  case False
  obtain pids where p: "start_workers n forks = (pids, True)" using assms(4) False by (cases "start_workers n forks") auto
  obtain k where k: "k < n" "pids = take k forks @ replicate (n - k) (-1)" "\<forall>p \<in> set (take k forks). 0 \<le> p"
    using start_workers_failed [OF p] by blast
  have "0 < q" if "q \<in> set (take k forks)" for q
    using k(3) that assms(3) in_set_takeD [OF that] by (metis order_le_less)
  then have "filter (\<lambda>pid. pid > 0) pids = take k forks" unfolding k(2) by (simp add: filter_id_conv)
  then have "stop_children reader_fork pids = reader_fork # take k forks"
    using False assms(2) by (simp add: stop_children_def)
  then show ?thesis using assms(1) False p k(1) by (auto simp: run_pool_def start_pool_def)
qed

text \<open>
  (C8) The supervisor always knows its children: from the start of the pool on, whatever dies, whenever
  a fork fails, and however signals interrupt the wait, the processes in its table include all children
  that run, so a shutdown reaches every one of them.  Until a child dies during the shutdown itself the
  table is exactly the set of running children.
\<close>

theorem supervisor_tracks_children:
  assumes "start_pool n reader_fork forks now_reader now_workers con shed = Inr sp"
    and "distinct (reader_fork # forks)" "0 \<notin> set (reader_fork # forks)"
    and "possible_events evs (insert reader_fork (set (take n forks)))"
    and "supervise n evs sp = (slept, sp')"
  shows "os_children evs (insert reader_fork (set (take n forks)))
      \<subseteq> set (stop_children (sp_cache_reader_pid sp') (sp_worker_pids sp')) \<and>
    (\<not> list_ex we_shutdown evs \<longrightarrow>
      set (stop_children (sp_cache_reader_pid sp') (sp_worker_pids sp')) =
        os_children evs (insert reader_fork (set (take n forks))))"
proof -
  note st = start_pool_Inr [OF assms(1)]
  have pos: "0 < reader_fork" "\<forall>p \<in> set (take n forks). 0 < p"
    using st assms(3) by (auto simp: order_less_le dest: in_set_takeD)
  have known: "set (known_children sp) = insert reader_fork (set (take n forks))"
    "distinct (known_children sp)"
    using st pos assms(2) by (auto simp: stop_children_def dest: in_set_takeD)
  from supervise_known [OF assms(5) known(2)] assms(4) show ?thesis unfolding known(1) by auto
qed

definition example_crash :: "int \<Rightarrow> int \<Rightarrow> wait_event" where
  "example_crash pid fork_pid =
     \<lparr>we_shutdown_before = False, we_reaped = Child pid, we_shutdown = False, we_times = (0, 0), we_fork_pid = fork_pid\<rparr>"

theorem supervisor_tracks_children_witness:
  "\<exists>sp slept sp'. start_pool 2 10 [11, 12] 0 [0, 0] (Some 2) (Some 2) = Inr sp \<and>
     supervise 2 [example_crash 11 13, example_crash 10 (-1)] sp = (slept, sp') \<and>
     set (stop_children (sp_cache_reader_pid sp') (sp_worker_pids sp')) = {12, 13}"
proof -
  let ?sp = "start_supervisor 2 10 [11, 12] 0 [0, 0] (Some 2) (Some 2)"
  let ?evs = "[example_crash 11 13, example_crash 10 (-1)]"
  have sp: "start_pool 2 10 [11, 12] 0 [0, 0] (Some 2) (Some 2) = Inr ?sp"
    by (simp add: start_pool_def numeral_2_eq_2)
  obtain slept sp' where r: "supervise 2 ?evs ?sp = (slept, sp')" by (cases "supervise 2 ?evs ?sp")
  have "possible_events ?evs (insert 10 (set (take 2 [11, 12])))"
    by (simp add: example_crash_def numeral_2_eq_2)
  from supervisor_tracks_children [OF sp _ _ this r]
  have "set (stop_children (sp_cache_reader_pid sp') (sp_worker_pids sp')) =
      os_children ?evs (insert 10 (set (take 2 [11, 12])))"
    by (simp add: example_crash_def)
  also have "\<dots> = {12, 13}" by (auto simp: example_crash_def numeral_2_eq_2)
  finally show ?thesis using sp r by blast
qed

text \<open>
  Restarts are paced: from the start on, the supervisor waits between 100 ms and 30 s before every
  restart, and it always keeps one slot and one delay for every worker.
\<close>

lemma restarts_paced:
  assumes "start_pool n reader_fork forks now_reader now_workers con shed = Inr sp"
    and "length now_workers = n" "supervise n evs sp = (slept, sp')"
  shows "(\<forall>ms \<in> set slept. 100 \<le> ms \<and> ms \<le> 30000) \<and>
    length (sp_worker_pids sp') = n \<and> length (sp_worker_backoff sp') = n"
proof -
  have "sup_inv n sp"
    using start_pool_Inr [OF assms(1)] assms(2)
    by (auto simp: sup_inv_def restart_ok_def new_restart_backoff_def list_all_iff)
  from supervise_inv [OF assms(3) this] show ?thesis by (auto simp: sup_inv_def)
qed

lemma restarts_paced_witness:
  "\<exists>sp slept sp'. supervise 1 [example_crash 11 13, example_crash 13 14] sp = (slept, sp') \<and>
     slept = [100, 200] \<and> (\<forall>ms \<in> set slept. 100 \<le> ms \<and> ms \<le> 30000)"
proof -
  let ?sp = "start_supervisor 1 10 [11] 0 [0] None None"
  have sp: "start_pool 1 10 [11] 0 [0] None None = Inr ?sp" by (simp add: start_pool_def)
  obtain slept sp' where r: "supervise 1 [example_crash 11 13, example_crash 13 14] ?sp = (slept, sp')"
    by (cases "supervise 1 [example_crash 11 13, example_crash 13 14] ?sp")
  moreover have "slept = [100, 200]"
    using r by (auto simp: example_crash_def start_supervisor_def replace_child_def on_death_def on_spawn_def
        new_restart_backoff_def)
  moreover have "\<forall>ms \<in> set slept. 100 \<le> ms \<and> ms \<le> 30000" using restarts_paced [OF sp _ r] by simp
  ultimately show ?thesis by blast
qed

text \<open>A child that is started again and again and dies within a minute each time.\<close>

fun crash_loop :: "wait_event list \<Rightarrow> int \<Rightarrow> int \<Rightarrow> bool" where
  "crash_loop [] pid started \<longleftrightarrow> True"
| "crash_loop (ev # evs) pid started \<longleftrightarrow>
     \<not> we_shutdown_before ev \<and> we_reaped ev = Child pid \<and> \<not> we_shutdown ev \<and>
     started \<le> fst (we_times ev) \<and> fst (we_times ev) < started + 61 * 1000000000 \<and> we_fork_pid ev > 0 \<and>
     crash_loop evs (we_fork_pid ev) (snd (we_times ev))"

lemma on_death_quick:
  assumes "rb_started_at b \<le> now" "now < rb_started_at b + 61 * 1000000000"
  shows "on_death now b = (rb_delay_ms b, quick_death b)"
proof -
  have "(now - rb_started_at b) sdiv 1000000000 = (now - rb_started_at b) div 1000000000"
    using assms(1) by (simp add: signed_divide_int_def sgn_if)
  also have "\<dots> \<le> 60" using assms by linarith
  finally show ?thesis by (simp add: on_death_def quick_death_def Let_def)
qed

lemma crash_loop_slept:
  "crash_loop evs (sp_cache_reader_pid sp) (rb_started_at (sp_reader_backoff sp)) \<Longrightarrow>
     fst (supervise n evs sp) = map (\<lambda>i. rb_delay_ms ((quick_death ^^ i) (sp_reader_backoff sp))) [0..<length evs]"
proof (induction evs arbitrary: sp)
  case (Cons ev evs)
  let ?b = "sp_reader_backoff sp" and ?f = "we_fork_pid ev" and ?t = "snd (we_times ev)"
  let ?sp = "sp\<lparr>sp_cache_reader_pid := ?f, sp_reader_backoff := on_spawn ?t (quick_death ?b)\<rparr>"
  have ev: "\<not> we_shutdown_before ev" "we_reaped ev = Child (sp_cache_reader_pid sp)" "\<not> we_shutdown ev" "0 < ?f"
    "on_death (fst (we_times ev)) ?b = (rb_delay_ms ?b, quick_death ?b)"
    using Cons.prems by (auto intro!: on_death_quick)
  have step: "replace_child n (sp_cache_reader_pid sp) (fst (we_times ev)) ?f ?t sp = (Some (rb_delay_ms ?b), ?sp)"
    using ev by (simp add: replace_child_def Let_def)
  have delay: "rb_delay_ms ((quick_death ^^ i) (on_spawn t b)) = rb_delay_ms ((quick_death ^^ i) b)" for i t b
    by (induction i) (simp_all add: on_spawn_def restart.failure_delay)
  have "fst (supervise n evs ?sp) = map (\<lambda>i. rb_delay_ms ((quick_death ^^ i) (quick_death ?b))) [0..<length evs]"
    using Cons.IH [of ?sp] Cons.prems by (simp add: delay) (simp add: on_spawn_def)
  then show ?case
    using ev step by (simp add: case_prod_unfold Let_def map_upt_Suc funpow_Suc_right del: upt_Suc funpow.simps)
qed simp

text \<open>
  (C30) A reader that keeps crashing is restarted with doubling delays: in a crash loop the n-th restart
  waits 100 ms times 2 to the n, cut at 30 seconds.
\<close>

theorem crash_loop_backs_off:
  assumes "start_pool n reader_fork forks now_reader now_workers con shed = Inr sp"
    and "crash_loop evs reader_fork now_reader" "supervise n evs sp = (slept, sp')"
  shows "slept = map (\<lambda>i. min (100 * 2 ^ i) 30000) [0..<length evs]"
proof -
  have sp: "sp_cache_reader_pid sp = reader_fork" "sp_reader_backoff sp = new_restart_backoff now_reader"
    using start_pool_Inr [OF assms(1)] by auto
  have "slept = map (\<lambda>i. rb_delay_ms ((quick_death ^^ i) (new_restart_backoff now_reader))) [0..<length evs]"
    using crash_loop_slept [of evs sp n] assms(2,3) by (simp add: sp new_restart_backoff_def)
  also have "\<dots> = map (\<lambda>i. min (100 * 2 ^ i) 30000) [0..<length evs]"
    using restart.failures_delay [of "new_restart_backoff now_reader"] by (simp add: new_restart_backoff_def)
  finally show ?thesis .
qed

theorem crash_loop_backs_off_witness:
  "\<exists>sp slept sp'. supervise 0 [example_crash 10 11, example_crash 11 12, example_crash 12 13] sp = (slept, sp') \<and>
     slept = [100, 200, 400]"
proof -
  let ?sp = "start_supervisor 0 10 [] 0 [] None None"
  let ?evs = "[example_crash 10 11, example_crash 11 12, example_crash 12 13]"
  have sp: "start_pool 0 10 [] 0 [] None None = Inr ?sp" by (simp add: start_pool_def)
  obtain slept sp' where r: "supervise 0 ?evs ?sp = (slept, sp')" by (cases "supervise 0 ?evs ?sp")
  have "crash_loop ?evs 10 0" by (simp add: example_crash_def)
  from crash_loop_backs_off [OF sp this r] have "slept = [100, 200, 400]" by (simp add: upt_rec)
  then show ?thesis using r by blast
qed

end
