(* ===== verification/Worker_Pool.thy ===== *)
theory Worker_Pool
  imports Supervisor
begin

text \<open>
  The worker pool around its two semaphores: the workers take and return tokens as \<open>serve_request\<close> does
  (\<^verbatim>\<open>FcgiServer::run\<close> in \<^verbatim>\<open>src/fcgi/fcgi_server.cpp\<close>), any of them may die at any moment, and the supervisor
  of \<^verbatim>\<open>src/main.cpp\<close> restores tokens and starts new workers.  Every operation on a semaphore is one
  step, in any interleaving.
\<close>

section \<open>One worker\<close>

text \<open>
  Where a worker stands between two operations on the semaphores: between requests or serving one that
  needs no token, after taking the first token, after taking both, and before returning the first.
\<close>

datatype phase = Waiting | Holding_one | Holding_both | Returning | Dead | Absent

fun phase_step :: "phase \<Rightarrow> sem_op \<Rightarrow> phase option" where
  "phase_step Waiting (Trywait Concurrency ok) = Some (if ok then Holding_one else Waiting)"
| "phase_step Holding_one (Trywait Load_shed ok) = Some (if ok then Holding_both else Returning)"
| "phase_step Holding_both (Sem_post Load_shed) = Some Returning"
| "phase_step Returning (Sem_post Concurrency) = Some Waiting"
| "phase_step _ _ = None"

fun phase_run :: "phase \<Rightarrow> sem_op list \<Rightarrow> phase option" where
  "phase_run ph [] = Some ph"
| "phase_run ph (s # ss) = (case phase_step ph s of Some ph' \<Rightarrow> phase_run ph' ss | None \<Rightarrow> None)"

text \<open>The operations of every request lead from waiting to waiting.\<close>

lemma serve_request_phases:
  assumes "serve_request \<lparr>ss_concurrency = True, ss_load_shed = True\<rparr> available handler req s = (response, sem_ops, s')"
  shows "phase_run Waiting sem_ops = Some Waiting"
  using assms by (auto simp: serve_request_def Let_def split: if_splits prod.splits)

section \<open>The pool\<close>

record pool =
  po_concurrency :: nat
  po_load_shed :: nat
  po_workers :: "phase list"

definition start_tokens :: "nat \<Rightarrow> pool" where
  "start_tokens n = \<lparr>po_concurrency = n, po_load_shed = n, po_workers = replicate n Waiting\<rparr>"

fun sem_value :: "pool \<Rightarrow> semaphore \<Rightarrow> nat" where
  "sem_value p Concurrency = po_concurrency p"
| "sem_value p Load_shed = po_load_shed p"

fun set_sem :: "semaphore \<Rightarrow> nat \<Rightarrow> pool \<Rightarrow> pool" where
  "set_sem Concurrency v p = p\<lparr>po_concurrency := v\<rparr>"
| "set_sem Load_shed v p = p\<lparr>po_load_shed := v\<rparr>"

definition set_phase :: "nat \<Rightarrow> phase \<Rightarrow> pool \<Rightarrow> pool" where
  "set_phase i ph p = p\<lparr>po_workers := (po_workers p)[i := ph]\<rparr>"

definition restore :: "nat \<Rightarrow> nat \<Rightarrow> nat" where
  "restore n v = the (restore_semaphore n (Some v))"

text \<open>
  A worker tries to take a token, which succeeds exactly when there is one, or returns a token; it may
  die anywhere; the supervisor reaps it and restores both semaphores, and starts a new worker later.
\<close>

inductive pool_step :: "nat \<Rightarrow> pool \<Rightarrow> pool \<Rightarrow> bool" for n where
  trywait: "i < length (po_workers p) \<Longrightarrow>
     phase_step (po_workers p ! i) (Trywait sm (0 < sem_value p sm)) = Some ph \<Longrightarrow>
     pool_step n p (set_phase i ph (set_sem sm (sem_value p sm - 1) p))"
| post: "i < length (po_workers p) \<Longrightarrow> phase_step (po_workers p ! i) (Sem_post sm) = Some ph \<Longrightarrow>
     pool_step n p (set_phase i ph (set_sem sm (sem_value p sm + 1) p))"
| die: "i < length (po_workers p) \<Longrightarrow> po_workers p ! i \<notin> {Dead, Absent} \<Longrightarrow>
     pool_step n p (set_phase i Dead p)"
| reap: "i < length (po_workers p) \<Longrightarrow> po_workers p ! i = Dead \<Longrightarrow>
     pool_step n p (set_phase i Absent
       (set_sem Load_shed (restore n (sem_value p Load_shed))
         (set_sem Concurrency (restore n (sem_value p Concurrency)) p)))"
| respawn: "i < length (po_workers p) \<Longrightarrow> po_workers p ! i = Absent \<Longrightarrow>
     pool_step n p (set_phase i Waiting p)"

inductive pool_reachable :: "nat \<Rightarrow> pool \<Rightarrow> bool" for n where
  start: "pool_reachable n (start_tokens n)"
| step: "pool_reachable n p \<Longrightarrow> pool_step n p q \<Longrightarrow> pool_reachable n q"

section \<open>Counting tokens\<close>

fun holds :: "semaphore \<Rightarrow> phase \<Rightarrow> bool" where
  "holds Concurrency ph \<longleftrightarrow> ph \<in> {Holding_one, Holding_both, Returning}"
| "holds Load_shed ph \<longleftrightarrow> ph = Holding_both"

text \<open>Tokens in use, and tokens that may be lost with a worker that has not been reaped yet.\<close>

definition held :: "semaphore \<Rightarrow> phase list \<Rightarrow> nat" where
  "held sm ws = length (filter (holds sm) ws)"

definition at_risk :: "phase list \<Rightarrow> nat" where
  "at_risk ws = length (filter (\<lambda>ph. ph = Dead) ws)"

definition sem_inv :: "nat \<Rightarrow> semaphore \<Rightarrow> nat \<Rightarrow> phase list \<Rightarrow> bool" where
  "sem_inv n sm v ws \<longleftrightarrow> n \<le> v + held sm ws + at_risk ws \<and> v + held sm ws \<le> 2 * n"

definition token_inv :: "nat \<Rightarrow> pool \<Rightarrow> bool" where
  "token_inv n p \<longleftrightarrow> length (po_workers p) = n \<and> (\<forall>sm. sem_inv n sm (sem_value p sm) (po_workers p))"

lemma sem_value_set [simp]:
  "sem_value (set_sem sm v p) sm' = (if sm' = sm then v else sem_value p sm')"
  "sem_value (set_phase i ph p) sm = sem_value p sm"
  "po_workers (set_sem sm v p) = po_workers p" "po_workers (set_phase i ph p) = (po_workers p)[i := ph]"
  by (cases sm; cases sm'; simp_all add: set_phase_def; fail | cases sm; simp add: set_phase_def)+

lemma held_update:
  "i < length ws \<Longrightarrow> held sm (ws[i := ph]) + (if holds sm (ws ! i) then 1 else 0) = held sm ws + (if holds sm ph then 1 else 0)"
  unfolding held_def by (rule length_filter_update)

lemma at_risk_update:
  "i < length ws \<Longrightarrow>
     at_risk (ws[i := ph]) + (if ws ! i = Dead then 1 else 0) = at_risk ws + (if ph = Dead then 1 else 0)"
  unfolding at_risk_def by (rule length_filter_update)

lemma held_le: "held sm ws \<le> length ws"
  by (simp add: held_def)

lemma restore_cases: "restore n v = (if v < n then v + 1 else v)"
  by (simp add: restore_def restore_semaphore_def)

lemma held_at_risk: "held sm ws + at_risk ws \<le> length ws"
proof (induction ws)
  case (Cons w ws)
  then show ?case by (cases w; cases sm) (auto simp: held_def at_risk_def)
qed (simp add: held_def at_risk_def)

lemma holds_none [simp]: "\<not> holds sm Dead" "\<not> holds sm Absent" "\<not> holds sm Waiting"
  by (cases sm; simp)+

lemma held_at_risk_free:
  assumes "i < length ws" "\<not> holds sm (ws ! i)" "ws ! i \<noteq> Dead"
  shows "held sm ws + at_risk ws < length ws"
proof -
  have "held sm (ws[i := Dead]) = held sm ws" "at_risk (ws[i := Dead]) = at_risk ws + 1"
    using held_update [OF assms(1), of sm Dead] at_risk_update [OF assms(1), of Dead] assms(2,3) by auto
  then show ?thesis using held_at_risk [of sm "ws[i := Dead]"] by simp
qed

lemma phase_step_alive: "phase_step ph s = Some ph' \<Longrightarrow> ph \<noteq> Dead \<and> ph' \<noteq> Dead"
  by (induction ph s rule: phase_step.induct) (auto split: if_splits)

lemma phase_step_holds:
  "phase_step ph (Trywait sm ok) = Some ph' \<Longrightarrow> \<not> holds sm ph \<and> (holds sm ph' \<longleftrightarrow> ok)"
  "phase_step ph (Sem_post sm) = Some ph' \<Longrightarrow> holds sm ph \<and> \<not> holds sm ph'"
  "phase_step ph (Trywait sm ok) = Some ph' \<Longrightarrow> sm' \<noteq> sm \<Longrightarrow> holds sm' ph \<longleftrightarrow> holds sm' ph'"
  "phase_step ph (Sem_post sm) = Some ph' \<Longrightarrow> sm' \<noteq> sm \<Longrightarrow> holds sm' ph \<longleftrightarrow> holds sm' ph'"
  by (cases ph; cases sm; cases sm'; auto split: if_splits)+

text \<open>A live worker moves its tokens, a worker dies, a dead worker is reaped.\<close>

lemma sem_inv_move:
  assumes "sem_inv n sm v ws" "i < length ws" "ws ! i \<noteq> Dead" "ph \<noteq> Dead"
    and "v' + (if holds sm ph then 1 else 0) = v + (if holds sm (ws ! i) then 1 else 0)"
  shows "sem_inv n sm v' (ws[i := ph])"
proof -
  note up = held_update [OF assms(2), of sm ph] at_risk_update [OF assms(2), of ph]
  have "at_risk (ws[i := ph]) = at_risk ws" using up(2) assms(3,4) by simp
  moreover have "v' + held sm (ws[i := ph]) = v + held sm ws" using up(1) assms(5) by (auto split: if_splits)
  ultimately show ?thesis using assms(1) unfolding sem_inv_def by linarith
qed

lemma sem_inv_die:
  assumes "sem_inv n sm v ws" "i < length ws" "ws ! i \<noteq> Dead"
  shows "sem_inv n sm v (ws[i := Dead])"
  using held_update [OF assms(2), of sm Dead] at_risk_update [OF assms(2), of Dead] assms
  by (auto simp: sem_inv_def split: if_splits)

lemma sem_inv_reap:
  assumes "sem_inv n sm v ws" "i < length ws" "ws ! i = Dead" "length ws = n"
  shows "sem_inv n sm (restore n v) (ws[i := Absent])"
  using held_update [OF assms(2), of sm Absent] at_risk_update [OF assms(2), of Absent] assms held_le [of sm "ws[i := Absent]"]
  by (auto simp: sem_inv_def restore_cases)

lemma all_semaphores: "(\<forall>sm. P sm) \<longleftrightarrow> P Concurrency \<and> P Load_shed"
  by (metis semaphore.exhaust)

lemma token_step: "pool_step n p q \<Longrightarrow> token_inv n p \<Longrightarrow> token_inv n q"
proof (induction rule: pool_step.induct)
  case (trywait i p sm ph)
  have "sem_inv n sm' (if sm' = sm then sem_value p sm - 1 else sem_value p sm') ((po_workers p)[i := ph])" for sm'
    using trywait phase_step_alive [OF trywait(2)] phase_step_holds(1) [OF trywait(2)] phase_step_holds(3) [OF trywait(2)]
    by (intro sem_inv_move [of n sm' "sem_value p sm'"]) (auto simp: token_inv_def split: if_splits)
  then show ?case using trywait(3) by (simp only: token_inv_def sem_value_set length_list_update) blast
next
  case (post i p sm ph)
  have "sem_inv n sm' (if sm' = sm then sem_value p sm + 1 else sem_value p sm') ((po_workers p)[i := ph])" for sm'
    using post phase_step_alive [OF post(2)] phase_step_holds(2) [OF post(2)] phase_step_holds(4) [OF post(2)]
    by (intro sem_inv_move [of n sm' "sem_value p sm'"]) (auto simp: token_inv_def split: if_splits)
  then show ?case using post(3) by (simp only: token_inv_def sem_value_set length_list_update) blast
next
  case (die i p)
  then show ?case by (simp add: token_inv_def sem_inv_die)
next
  case (reap i p)
  then have "sem_inv n sm (restore n (sem_value p sm)) ((po_workers p)[i := Absent])" for sm
    by (intro sem_inv_reap) (simp_all add: token_inv_def)
  from this [of Load_shed] this [of Concurrency] show ?case
    using reap(3) by (simp add: token_inv_def all_semaphores)
next
  case (respawn i p)
  then show ?case by (auto simp: token_inv_def intro!: sem_inv_move)
qed

lemma token_reachable: "pool_reachable n p \<Longrightarrow> token_inv n p"
proof (induction rule: pool_reachable.induct)
  case start
  have "held sm (replicate n Waiting) = 0" for sm by (simp add: held_def)
  moreover have "sem_value (start_tokens n) sm = n" for sm by (cases sm) (simp_all add: start_tokens_def)
  ultimately show ?case by (simp add: token_inv_def sem_inv_def) (simp add: start_tokens_def)
qed (rule token_step)

section \<open>Properties of the pool\<close>

lemma free_token:
  assumes "pool_reachable n p" "i < n" "\<not> holds sm (po_workers p ! i)" "po_workers p ! i \<noteq> Dead"
  shows "0 < sem_value p sm"
proof -
  have inv: "length (po_workers p) = n" "sem_inv n sm (sem_value p sm) (po_workers p)"
    using token_reachable [OF assms(1)] by (simp_all add: token_inv_def)
  then have "held sm (po_workers p) + at_risk (po_workers p) < n"
    using held_at_risk_free [of i "po_workers p" sm] assms by simp
  then show ?thesis using inv(2) by (simp add: sem_inv_def)
qed

text \<open>
  (C7) Crashes never cost capacity: in every reachable state of the pool, however many workers died
  holding tokens and in whatever order steps interleave, a worker that asks for a token finds one, an idle
  pool has at least one token per worker in both semaphores, and never more than two per worker.
\<close>

theorem capacity_never_lost:
  assumes "pool_reachable n p" "i < n"
  shows "(po_workers p ! i = Waiting \<longrightarrow> 0 < po_concurrency p) \<and>
    (po_workers p ! i = Holding_one \<longrightarrow> 0 < po_load_shed p) \<and>
    (set (po_workers p) = {Waiting} \<longrightarrow> n \<le> po_concurrency p \<and> n \<le> po_load_shed p) \<and>
    po_concurrency p \<le> 2 * n \<and> po_load_shed p \<le> 2 * n"
proof -
  have inv: "sem_inv n sm (sem_value p sm) (po_workers p)" for sm
    using token_reachable [OF assms(1)] by (simp add: token_inv_def)
  have "held sm ws = 0 \<and> at_risk ws = 0" if "set ws = {Waiting}" for sm ws
    using that by (auto simp: held_def at_risk_def filter_empty_conv)
  then show ?thesis
    using inv [of Concurrency] inv [of Load_shed] free_token [OF assms, of Concurrency] free_token [OF assms, of Load_shed]
    by (auto simp: sem_inv_def)
qed

text \<open>One worker reads while the other dies between two requests and is reaped.\<close>

lemma example_run:
  "pool_reachable 2 \<lparr>po_concurrency = 2, po_load_shed = 2, po_workers = [Holding_both, Absent]\<rparr>"
proof -
  let ?p = "\<lambda>c l ws. \<lparr>po_concurrency = c, po_load_shed = l, po_workers = ws\<rparr>"
  have "pool_reachable 2 (?p 2 2 [Waiting, Waiting])"
    using pool_reachable.start [of 2] by (simp add: start_tokens_def numeral_2_eq_2)
  from pool_reachable.step [OF this pool_step.trywait [of 0 _ Concurrency Holding_one]]
  have "pool_reachable 2 (?p 1 2 [Holding_one, Waiting])" by (simp add: set_phase_def numeral_2_eq_2)
  from pool_reachable.step [OF this pool_step.trywait [of 0 _ Load_shed Holding_both]]
  have "pool_reachable 2 (?p 1 1 [Holding_both, Waiting])" by (simp add: set_phase_def numeral_2_eq_2)
  from pool_reachable.step [OF this pool_step.die [of 1]]
  have "pool_reachable 2 (?p 1 1 [Holding_both, Dead])" by (simp add: set_phase_def)
  from pool_reachable.step [OF this pool_step.reap [of 1]]
  show ?thesis by (simp add: set_phase_def restore_cases numeral_2_eq_2)
qed

theorem capacity_never_lost_witness:
  "\<exists>p. pool_reachable 2 p \<and> po_workers p = [Holding_one, Waiting] \<and> 0 < po_concurrency p \<and> 0 < po_load_shed p"
proof -
  let ?p = "\<lparr>po_concurrency = 1, po_load_shed = 2, po_workers = [Holding_one, Waiting]\<rparr>"
  have "pool_reachable 2 \<lparr>po_concurrency = 2, po_load_shed = 2, po_workers = [Waiting, Waiting]\<rparr>"
    using pool_reachable.start [of 2] by (simp add: start_tokens_def numeral_2_eq_2)
  from pool_reachable.step [OF this pool_step.trywait [of 0 _ Concurrency Holding_one]]
  have r: "pool_reachable 2 ?p" by (simp add: set_phase_def numeral_2_eq_2)
  then show ?thesis
    using capacity_never_lost [OF r, of 0] capacity_never_lost [OF r, of 1] by (intro exI [of _ ?p]) simp
qed

text \<open>
  The restored token may come on top of the initial number: a worker that dies without a token is taken
  for one that held both.
\<close>

lemma capacity_exceeds_workers:
  "\<exists>p. pool_reachable 2 p \<and> po_concurrency p = 3 \<and> po_load_shed p = 3"
proof -
  from pool_reachable.step [OF example_run pool_step.post [of 0 _ Load_shed Returning]]
  have "pool_reachable 2 \<lparr>po_concurrency = 2, po_load_shed = 3, po_workers = [Returning, Absent]\<rparr>"
    by (simp add: set_phase_def)
  from pool_reachable.step [OF this pool_step.post [of 0 _ Concurrency Waiting]]
  have "pool_reachable 2 \<lparr>po_concurrency = 3, po_load_shed = 3, po_workers = [Waiting, Absent]\<rparr>"
    by (simp add: set_phase_def)
  then show ?thesis by (intro exI conjI) auto
qed



end
