(* ===== verification/Crash_Recovery.thy ===== *)
theory Crash_Recovery
  imports Shared_Group_Cache
begin

text \<open>
  \<^verbatim>\<open>src/state/shared_group_cache.cpp\<close> when a process dies inside it: the region as a push leaves it that is
  cut off between two of its writes, and the robust mutex, which tells the next owner about the death.
\<close>

section \<open>A push that is cut off\<close>

text \<open>
  The copy of an entry into the table writes its fields in an unspecified order, the bytes of the value one by
  one; \<open>written\<close> are the parts that have been written.
\<close>

datatype entry_part = Addr_part | Len_part | Time_part | Pushed_part | Byte_part nat

definition torn_entry :: "entry_part list \<Rightarrow> shared_entry \<Rightarrow> shared_entry \<Rightarrow> shared_entry" where
  "torn_entry written new old = \<lparr>
     se_addr = (if Addr_part \<in> set written then se_addr new else se_addr old),
     se_value_len = (if Len_part \<in> set written then se_value_len new else se_value_len old),
     se_timestamp = (if Time_part \<in> set written then se_timestamp new else se_timestamp old),
     se_pushed_at = (if Pushed_part \<in> set written then se_pushed_at new else se_pushed_at old),
     se_value = map (\<lambda>i. if Byte_part i \<in> set written then se_value new ! i else se_value old ! i) [0..<kMaxSharedValueBytes]\<rparr>"

text \<open>How far the push had got.\<close>

datatype push_point = Position_taken | Entry_partly "entry_part list" | Entry_counted | Push_done

fun interrupted_push :: "push_point \<Rightarrow> u32 \<Rightarrow> u16 \<Rightarrow> bytes \<Rightarrow> shared_data \<Rightarrow> shared_data" where
  "interrupted_push Position_taken now addr value d = d\<lparr>sd_position := sd_position d + 1\<rparr>"
| "interrupted_push (Entry_partly written) now addr value d =
     (let d = d\<lparr>sd_position := sd_position d + 1\<rparr>; slot = find_slot addr d in
      if slot \<ge> kSharedCacheCapacity then d
      else d\<lparr>sd_entries := (sd_entries d)[slot :=
             torn_entry written (pushed_entry now addr value (sd_position d mod kPositionModulus)) (sd_entries d ! slot)]\<rparr>)"
| "interrupted_push Entry_counted now addr value d =
     (let d = d\<lparr>sd_position := sd_position d + 1\<rparr>
      in insert_locked addr (pushed_entry now addr value (sd_position d mod kPositionModulus)) d)"
| "interrupted_push Push_done now addr value d = push_locked now addr value d"

lemma torn_entry_ok: "entry_ok new \<Longrightarrow> entry_ok old \<Longrightarrow> entry_ok (torn_entry written new old)"
  by (simp add: entry_ok_def torn_entry_def)

text \<open>Nothing that is read from the table depends on the count of its entries.\<close>

lemma table_count [simp]:
  "find_slot a (d\<lparr>sd_num_entries := k\<rparr>) = find_slot a d"
  "sd_lookup (d\<lparr>sd_num_entries := k\<rparr>) = sd_lookup d"
  "sd_accepts (d\<lparr>sd_num_entries := k\<rparr>) = sd_accepts d"
  by (simp_all add: find_slot_def sd_lookup_def sd_accepts_def fun_eq_iff Let_def)

lemma push_locked_count: "sd_entries (push_locked t a v (d\<lparr>sd_num_entries := k\<rparr>)) = sd_entries (push_locked t a v d)"
  by (simp add: push_locked_alt insert_locked_def Let_def find_slot_def)

lemma lookup_entries: "sd_entries d = sd_entries d' \<Longrightarrow> sd_lookup d = sd_lookup d'"
  by (simp add: sd_lookup_def find_slot_def fun_eq_iff Let_def)

text \<open>The table up to the count.\<close>

definition table_usable :: "shared_data \<Rightarrow> bool" where
  "table_usable d \<longleftrightarrow> (\<exists>k. table_inv (d\<lparr>sd_num_entries := k\<rparr>))"

lemma table_usable_inv: "table_inv d \<Longrightarrow> table_usable d"
  unfolding table_usable_def by (intro exI [of _ "sd_num_entries d"]) simp

lemma usable_push_lookup:
  assumes "table_usable d" "sd_accepts d a" "b \<noteq> 0"
  shows "sd_lookup (push_locked t a v d) b =
    (if b = a then Some \<lparr>ce_value = clip14 v, ce_timestamp = t,
       ce_pushed_at = (sd_position d + 1) mod kPositionModulus\<rparr> else sd_lookup d b)"
proof -
  obtain k where k: "table_inv (d\<lparr>sd_num_entries := k\<rparr>)" using assms(1) by (auto simp: table_usable_def)
  from push_locked_lookup [OF k _ assms(3), of a t v] assms(2) show ?thesis
    using lookup_entries [OF push_locked_count [of t a v k d]] by simp
qed

lemma find_slot_addrs:
  assumes "\<And>s. addr_at (sd_entries d') s = addr_at (sd_entries d) s"
  shows "find_slot a d' = find_slot a d"
proof (cases rule: find_slot_cases [of a d])
  case (found k)
  then show ?thesis using find_slot_hit [of k d' a] assms by simp
next
  case full
  then show ?thesis by (cases rule: find_slot_cases [of a d']) (auto simp: assms)
qed

lemma lookup_accepts: "sd_lookup d a = Some x \<Longrightarrow> a \<noteq> 0 \<Longrightarrow> sd_accepts d a"
  by (auto simp: sd_lookup_def sd_accepts_def Let_def split: if_splits)

text \<open>Writing to a slot that stays empty.\<close>

lemma empty_slot_update:
  assumes "table_inv d" "s < kSharedCacheCapacity" "addr_at (sd_entries d) s = 0" "se_addr e = 0" "entry_ok e"
  shows "table_inv (d\<lparr>sd_entries := (sd_entries d)[s := e]\<rparr>)"
    and "a \<noteq> 0 \<Longrightarrow> sd_lookup (d\<lparr>sd_entries := (sd_entries d)[s := e]\<rparr>) a = sd_lookup d a"
    and "sd_accepts (d\<lparr>sd_entries := (sd_entries d)[s := e]\<rparr>) = sd_accepts d"
proof -
  let ?es = "(sd_entries d)[s := e]"
  have len: "length (sd_entries d) = kSharedCacheCapacity" using assms(1) by (simp add: table_inv_def)
  have addr: "addr_at ?es r = addr_at (sd_entries d) r" for r
    using assms(2-4) len by (cases "r = s") simp_all
  have "on_path ?es r = on_path (sd_entries d) r" for r unfolding on_path_def addr ..
  moreover have "used_slots ?es = used_slots (sd_entries d)" unfolding used_slots_def addr ..
  moreover have "\<forall>x \<in> set ?es. entry_ok x"
    using assms(1,5) set_update_subset_insert [of "sd_entries d" s e] by (auto simp: table_inv_def)
  ultimately show inv: "table_inv (d\<lparr>sd_entries := ?es\<rparr>)" using assms(1) by (simp add: table_inv_def)
  have "find_slot b (d\<lparr>sd_entries := ?es\<rparr>) = find_slot b d" for b by (rule find_slot_addrs) (simp add: addr)
  then show "sd_accepts (d\<lparr>sd_entries := ?es\<rparr>) = sd_accepts d" by (simp add: sd_accepts_def fun_eq_iff)
  show "sd_lookup (d\<lparr>sd_entries := ?es\<rparr>) a = sd_lookup d a" if a: "a \<noteq> 0"
  proof -
    have "r < kSharedCacheCapacity \<and> addr_at ?es r = a \<and> x = entry_abs (?es ! r) \<longleftrightarrow>
        r < kSharedCacheCapacity \<and> addr_at (sd_entries d) r = a \<and> x = entry_abs (sd_entries d ! r)" for r x
      unfolding addr using a assms(3) by (cases "r = s") auto
    then have "sd_lookup (d\<lparr>sd_entries := ?es\<rparr>) a = Some x \<longleftrightarrow> sd_lookup d a = Some x" for x
      unfolding sd_lookup_iff [OF inv a] sd_lookup_iff [OF assms(1) a] by simp
    then show ?thesis by (metis not_Some_eq)
  qed
qed

text \<open>A torn entry in the table: other addresses are not touched.\<close>

lemma torn_insert:
  assumes "table_inv d" "sd_accepts d a" "entry_ok e" "se_addr e = a \<or> se_addr e = addr_at (sd_entries d) (find_slot a d)"
  defines "d' \<equiv> d\<lparr>sd_entries := (sd_entries d)[find_slot a d := e]\<rparr>"
  shows "table_usable d'" and "b \<noteq> 0 \<Longrightarrow> b \<noteq> a \<Longrightarrow> sd_lookup d' b = sd_lookup d b"
    and "sd_lookup d' a = Some (entry_abs e) \<or> sd_lookup d' a = sd_lookup d a" and "sd_accepts d' a"
proof -
  have a: "a \<noteq> 0" and slot: "find_slot a d < kSharedCacheCapacity" using assms(2) by (simp_all add: sd_accepts_def)
  have hit: "addr_at (sd_entries d) (find_slot a d) \<in> {a, 0}"
    using slot by (cases rule: find_slot_cases [of a d]) auto
  have "table_usable d' \<and> (b \<noteq> 0 \<and> b \<noteq> a \<longrightarrow> sd_lookup d' b = sd_lookup d b) \<and>
      (sd_lookup d' a = Some (entry_abs e) \<or> sd_lookup d' a = sd_lookup d a) \<and> sd_accepts d' a"
  proof (cases "se_addr e = a")
    case True
    have eq: "sd_entries d' = sd_entries (insert_locked a e d)"
      using sd_entries_insert_locked [OF assms(2)] by (simp add: d'_def)
    then have "insert_locked a e d = d'\<lparr>sd_num_entries := sd_num_entries (insert_locked a e d)\<rparr>"
      by (simp add: d'_def insert_locked_def Let_def slot not_le)
    then have "table_usable d'"
      using insert_locked_inv [OF assms(1,2) True assms(3)] unfolding table_usable_def by metis
    then show ?thesis
      using sd_lookup_insert [OF assms(1,2) True assms(3)] lookup_entries [OF eq] a lookup_accepts [of d' a] by simp
  next
    case False
    then have "addr_at (sd_entries d) (find_slot a d) = 0" "se_addr e = 0" using assms(4) hit by auto
    from empty_slot_update [OF assms(1) slot this assms(3)] show ?thesis
      unfolding d'_def [symmetric] using table_usable_inv a assms(2) by auto
  qed
  then show "table_usable d'" and "b \<noteq> 0 \<Longrightarrow> b \<noteq> a \<Longrightarrow> sd_lookup d' b = sd_lookup d b"
    and "sd_lookup d' a = Some (entry_abs e) \<or> sd_lookup d' a = sd_lookup d a" and "sd_accepts d' a" by blast+
qed


definition all_parts :: "entry_part list" where
  "all_parts = [Addr_part, Len_part, Time_part, Pushed_part] @ map Byte_part [0..<kMaxSharedValueBytes]"

lemma torn_all: "entry_ok new \<Longrightarrow> torn_entry all_parts new old = new"
  by (auto simp: torn_entry_def all_parts_def entry_ok_def image_iff intro!: shared_entry.equality nth_equalityI)

text \<open>Every cut leaves the table as it was, or with the entry written in part or in full.\<close>

lemma interrupted_push_entry:
  fixes now :: u32 and v :: bytes
  assumes "table_inv d" "a \<noteq> 0"
  defines "new \<equiv> pushed_entry now a v ((sd_position d + 1) mod kPositionModulus)"
  shows "sd_entries (interrupted_push pt now a v d) = sd_entries d \<or>
    sd_accepts d a \<and> (\<exists>written. sd_entries (interrupted_push pt now a v d) =
      (sd_entries d)[find_slot a d := torn_entry written new (sd_entries d ! find_slot a d)])"
proof (cases "sd_accepts d a")
  case True
  then have slot: "\<not> find_slot a d \<ge> kSharedCacheCapacity" by (simp add: sd_accepts_def)
  have ok: "entry_ok new" by (simp add: new_def pushed_entry_ok)
  have full: "(sd_entries d)[find_slot a d := new] =
      (sd_entries d)[find_slot a d := torn_entry all_parts new (sd_entries d ! find_slot a d)]"
    by (simp add: torn_all [OF ok])
  show ?thesis
  proof (cases pt)
    case (Entry_partly written)
    then show ?thesis using True slot by (auto simp: Let_def new_def)
  next
    case Entry_counted
    then have "sd_entries (interrupted_push pt now a v d) = (sd_entries d)[find_slot a d := new]"
      using slot by (simp add: insert_locked_def Let_def new_def)
    then show ?thesis using True unfolding full by blast
  next
    case Push_done
    then have "sd_entries (interrupted_push pt now a v d) = (sd_entries d)[find_slot a d := new]"
      using slot by (simp add: push_locked_alt insert_locked_def Let_def new_def)
    then show ?thesis using True unfolding full by blast
  qed simp
next
  case False
  then have "find_slot a d \<ge> kSharedCacheCapacity" using assms(2) by (simp add: sd_accepts_def)
  then show ?thesis by (cases pt) (simp_all add: push_locked_alt insert_locked_def Let_def)
qed

lemma table_usable_entries: "sd_entries d = sd_entries d' \<Longrightarrow> table_usable d = table_usable d'"
  by (simp add: table_usable_def table_inv_def)

lemma accepts_entries: "sd_entries d = sd_entries d' \<Longrightarrow> sd_accepts d = sd_accepts d'"
  by (simp add: sd_accepts_def find_slot_def fun_eq_iff)

lemma interrupted_push_table:
  fixes now :: u32 and v :: bytes and pt :: push_point
  assumes "table_inv d" "a \<noteq> 0"
  defines "d' \<equiv> interrupted_push pt now a v d"
    and "new \<equiv> pushed_entry now a v ((sd_position d + 1) mod kPositionModulus)"
  shows "table_usable d'" and "b \<noteq> 0 \<Longrightarrow> b \<noteq> a \<Longrightarrow> sd_lookup d' b = sd_lookup d b"
    and "sd_accepts d a \<Longrightarrow> sd_accepts d' a"
    and "sd_lookup d' a = sd_lookup d a \<or>
      (\<exists>written. sd_lookup d' a = Some (entry_abs (torn_entry written new (sd_entries d ! find_slot a d))))"
proof -
  have "table_usable d' \<and> (b \<noteq> 0 \<and> b \<noteq> a \<longrightarrow> sd_lookup d' b = sd_lookup d b) \<and> (sd_accepts d a \<longrightarrow> sd_accepts d' a) \<and>
      (sd_lookup d' a = sd_lookup d a \<or>
       (\<exists>written. sd_lookup d' a = Some (entry_abs (torn_entry written new (sd_entries d ! find_slot a d)))))"
    using interrupted_push_entry [OF assms(1,2), of pt now v]
  proof
    assume "sd_entries (interrupted_push pt now a v d) = sd_entries d"
    then have "sd_entries d' = sd_entries d" by (simp add: d'_def)
    then show ?thesis
      using lookup_entries [of d' d] table_usable_entries [of d' d] accepts_entries [of d' d] table_usable_inv [OF assms(1)] by simp
  next
    assume "sd_accepts d a \<and> (\<exists>written. sd_entries (interrupted_push pt now a v d) =
      (sd_entries d)[find_slot a d :=
         torn_entry written (pushed_entry now a v ((sd_position d + 1) mod kPositionModulus)) (sd_entries d ! find_slot a d)])"
    then obtain written where acc: "sd_accepts d a" and es: "sd_entries d' =
        (sd_entries d)[find_slot a d := torn_entry written new (sd_entries d ! find_slot a d)]" (is "_ = ?es")
      by (auto simp: d'_def new_def)
    let ?e = "torn_entry written new (sd_entries d ! find_slot a d)"
    have "find_slot a d < length (sd_entries d)" using acc assms(1) by (simp add: sd_accepts_def table_inv_def)
    then have "entry_ok (sd_entries d ! find_slot a d)" using assms(1) by (simp add: table_inv_def)
    then have ok: "entry_ok ?e" by (intro torn_entry_ok) (simp_all add: new_def pushed_entry_ok)
    have addr: "se_addr ?e = a \<or> se_addr ?e = addr_at (sd_entries d) (find_slot a d)"
      by (simp add: torn_entry_def new_def)
    have eq: "sd_entries d' = sd_entries (d\<lparr>sd_entries := ?es\<rparr>)" using es by simp
    from torn_insert [OF assms(1) acc ok addr] show ?thesis
      unfolding lookup_entries [OF eq] table_usable_entries [OF eq] accepts_entries [OF eq] by blast
  qed
  then show "table_usable d'" and "b \<noteq> 0 \<Longrightarrow> b \<noteq> a \<Longrightarrow> sd_lookup d' b = sd_lookup d b"
    and "sd_accepts d a \<Longrightarrow> sd_accepts d' a"
    and "sd_lookup d' a = sd_lookup d a \<or>
      (\<exists>written. sd_lookup d' a = Some (entry_abs (torn_entry written new (sd_entries d ! find_slot a d))))" by blast+
qed

text \<open>The bytes of a torn entry.\<close>

lemma torn_bytes:
  assumes "entry_ok old" "i < length (entry_bytes (torn_entry written (pushed_entry now a v p) old))"
  shows "entry_bytes (torn_entry written (pushed_entry now a v p) old) ! i = (v @ replicate kMaxSharedValueBytes 0) ! i \<or>
    entry_bytes (torn_entry written (pushed_entry now a v p) old) ! i = se_value old ! i"
proof -
  have i: "i < kMaxSharedValueBytes" using assms(2) by (simp add: entry_bytes_def torn_entry_def)
  then have "se_value (pushed_entry now a v p) ! i = (v @ replicate kMaxSharedValueBytes 0) ! i"
    by (simp add: pushed_entry_def Let_def nth_append)
  then show ?thesis using assms(2) i by (simp add: entry_bytes_def torn_entry_def)
qed

section \<open>The robust mutex\<close>

text \<open>
  The states of a robust mutex, as POSIX defines them: an owner that dies leaves it abandoned; the next lock
  acquires it in an inconsistent state; unlocking it in that state loses it for good.
\<close>

datatype mutex = Free | Held | Held_inconsistent | Abandoned | Not_recoverable

text \<open>\<open>None\<close>: the call blocks.\<close>

fun mutex_lock :: "mutex \<Rightarrow> (lock_result \<times> mutex) option" where
  "mutex_lock Free = Some (Lock_ok, Held)"
| "mutex_lock Abandoned = Some (Lock_owner_dead, Held_inconsistent)"
| "mutex_lock Not_recoverable = Some (Lock_failed, Not_recoverable)"
| "mutex_lock _ = None"

fun mutex_consistent :: "mutex \<Rightarrow> mutex" where
  "mutex_consistent Held_inconsistent = Held"
| "mutex_consistent m = m"

fun mutex_unlock :: "mutex \<Rightarrow> mutex" where
  "mutex_unlock Held = Free"
| "mutex_unlock Held_inconsistent = Not_recoverable"
| "mutex_unlock m = m"

fun owner_dies :: "mutex \<Rightarrow> mutex" where
  "owner_dies Held = Abandoned"
| "owner_dies Held_inconsistent = Abandoned"
| "owner_dies m = m"

text \<open>How \<^verbatim>\<open>push\<close>, \<^verbatim>\<open>get\<close>, \<^verbatim>\<open>get_delta\<close> and \<^verbatim>\<open>wait_for_new_data\<close> begin.\<close>

definition cache_lock :: "mutex \<Rightarrow> (lock_result \<times> mutex) option" where
  "cache_lock m =
     (case mutex_lock m of
        Some (lock_result, m) \<Rightarrow>
          Some (lock_result, if lock_result = Lock_owner_dead then mutex_consistent m else m)
      | None \<Rightarrow> None)"

text \<open>
  Where a process stands: outside, in a critical section, in the condition wait, or in the wait's error exit.  A
  wait that ends takes the mutex again; the code checks the result only for a timeout.
\<close>

datatype user = Outside | Inside | In_cond_wait | Wait_failed

record lock_state =
  ls_mutex :: mutex
  ls_users :: "user list"

definition set_user :: "nat \<Rightarrow> user \<Rightarrow> mutex \<Rightarrow> lock_state \<Rightarrow> lock_state" where
  "set_user i u m s = s\<lparr>ls_mutex := m, ls_users := (ls_users s)[i := u]\<rparr>"

inductive lock_step :: "lock_state \<Rightarrow> lock_state \<Rightarrow> bool" where
  enter: "i < length (ls_users s) \<Longrightarrow> ls_users s ! i = Outside \<Longrightarrow> cache_lock (ls_mutex s) = Some (r, m) \<Longrightarrow>
     lock_step s (set_user i (if lock_acquired r then Inside else Outside) m s)"
| cond_wait: "i < length (ls_users s) \<Longrightarrow> ls_users s ! i = Inside \<Longrightarrow>
     lock_step s (set_user i In_cond_wait (mutex_unlock (ls_mutex s)) s)"
| wake: "i < length (ls_users s) \<Longrightarrow> ls_users s ! i = In_cond_wait \<Longrightarrow> mutex_lock (ls_mutex s) = Some (r, m) \<Longrightarrow>
     lock_step s (set_user i (case r of Lock_ok \<Rightarrow> Inside | Lock_owner_dead \<Rightarrow> Wait_failed | Lock_failed \<Rightarrow> Outside) m s)"
| unlock: "i < length (ls_users s) \<Longrightarrow> ls_users s ! i \<in> {Inside, Wait_failed} \<Longrightarrow>
     lock_step s (set_user i Outside (mutex_unlock (ls_mutex s)) s)"
| dies: "i < length (ls_users s) \<Longrightarrow>
     lock_step s (set_user i Outside (if ls_users s ! i \<in> {Inside, Wait_failed} then owner_dies (ls_mutex s) else ls_mutex s) s)"

definition start_lock :: "nat \<Rightarrow> lock_state" where
  "start_lock n = \<lparr>ls_mutex = Free, ls_users = replicate n Outside\<rparr>"

text \<open>
  Runs of n processes; the flag tells whether a condition wait ever ended on an abandoned mutex.
\<close>

inductive lock_run :: "nat \<Rightarrow> bool \<Rightarrow> lock_state \<Rightarrow> bool" for n where
  begin_run: "lock_run n False (start_lock n)"
| next_step: "lock_run n b s \<Longrightarrow> lock_step s t \<Longrightarrow> b' = (b \<or> Wait_failed \<in> set (ls_users t)) \<Longrightarrow> lock_run n b' t"

definition owners :: "user list \<Rightarrow> nat" where
  "owners us = length (filter (\<lambda>u. u \<in> {Inside, Wait_failed}) us)"

fun lock_inv :: "mutex \<Rightarrow> user list \<Rightarrow> bool" where
  "lock_inv Held us \<longleftrightarrow> owners us = 1 \<and> Wait_failed \<notin> set us"
| "lock_inv Held_inconsistent us \<longleftrightarrow> owners us = 1 \<and> Inside \<notin> set us"
| "lock_inv _ us \<longleftrightarrow> owners us = 0"

lemma owners_update:
  "i < length us \<Longrightarrow> owners (us[i := u]) + (if us ! i \<in> {Inside, Wait_failed} then 1 else 0) =
     owners us + (if u \<in> {Inside, Wait_failed} then 1 else 0)"
  unfolding owners_def by (rule length_filter_update)

lemma owners_0: "owners us = 0 \<longleftrightarrow> Inside \<notin> set us \<and> Wait_failed \<notin> set us"
  by (auto simp: owners_def filter_empty_conv)

lemma owners_0_nth: "owners us = 0 \<Longrightarrow> i < length us \<Longrightarrow> us ! i \<noteq> Inside \<and> us ! i \<noteq> Wait_failed"
  unfolding owners_0 by (metis nth_mem)

lemma owners_unique:
  assumes "owners us = 1" "i < length us" "us ! i \<in> {Inside, Wait_failed}"
  shows "owners (us[i := Outside]) = 0" "owners (us[i := In_cond_wait]) = 0"
  using owners_update [OF assms(2)] assms by auto

lemma lock_step_inv: "lock_step s t \<Longrightarrow> lock_inv (ls_mutex s) (ls_users s) \<Longrightarrow> lock_inv (ls_mutex t) (ls_users t)"
proof (induction rule: lock_step.induct)
  case (enter i s r m)
  then show ?case
    using owners_update [OF enter(1), of Inside] set_update_subset_insert [of "ls_users s" i Inside]
      set_update_subset_insert [of "ls_users s" i Outside]
    by (cases "ls_mutex s") (auto simp: set_user_def cache_lock_def owners_0)
next
  case (cond_wait i s)
  then show ?case
    using owners_unique(2) [of "ls_users s" i] owners_0_nth [of "ls_users s" i] nth_mem [OF cond_wait(1)]
    by (cases "ls_mutex s") (auto simp: set_user_def)
next
  case (wake i s r m)
  then show ?case
    using owners_update [OF wake(1), of Inside] owners_update [OF wake(1), of Wait_failed] owners_update [OF wake(1), of Outside]
      set_update_subset_insert [of "ls_users s" i Inside] set_update_subset_insert [of "ls_users s" i Wait_failed]
    by (cases "ls_mutex s") (auto simp: set_user_def owners_0)
next
  case (unlock i s)
  then show ?case
    using owners_unique(1) [of "ls_users s" i] owners_0_nth [of "ls_users s" i]
    by (cases "ls_mutex s") (auto simp: set_user_def)
next
  case (dies i s)
  show ?case
  proof (cases "ls_users s ! i \<in> {Inside, Wait_failed}")
    case True
    then show ?thesis
      using dies owners_unique(1) [of "ls_users s" i] owners_0_nth [of "ls_users s" i]
      by (cases "ls_mutex s") (auto simp: set_user_def)
  next
    case False
    then show ?thesis
      using dies owners_update [OF dies(1), of Outside] set_update_subset_insert [of "ls_users s" i Outside]
      by (cases "ls_mutex s") (auto simp: set_user_def)
  qed
qed

lemma lock_step_recoverable:
  "lock_step s t \<Longrightarrow> ls_mutex s \<notin> {Held_inconsistent, Not_recoverable} \<Longrightarrow> Wait_failed \<notin> set (ls_users s) \<Longrightarrow>
     Wait_failed \<notin> set (ls_users t) \<Longrightarrow> ls_mutex t \<notin> {Held_inconsistent, Not_recoverable}"
proof (induction rule: lock_step.induct)
  case (enter i s r m)
  then show ?case by (cases "ls_mutex s") (auto simp: set_user_def cache_lock_def)
next
  case (wake i s r m)
  then show ?case using set_update_memI [OF wake(1), of Wait_failed] by (cases "ls_mutex s") (auto simp: set_user_def)
next
  case (dies i s)
  then show ?case by (cases "ls_mutex s") (auto simp: set_user_def)
next
  case (cond_wait i s)
  then show ?case by (cases "ls_mutex s") (auto simp: set_user_def)
next
  case (unlock i s)
  then show ?case by (cases "ls_mutex s") (auto simp: set_user_def)
qed

lemma lock_run_inv:
  assumes "lock_run n b s"
  shows "lock_inv (ls_mutex s) (ls_users s) \<and>
    (\<not> b \<longrightarrow> ls_mutex s \<notin> {Held_inconsistent, Not_recoverable} \<and> Wait_failed \<notin> set (ls_users s))"
  using assms
proof (induction rule: lock_run.induct)
  case begin_run
  then show ?case by (simp add: start_lock_def owners_0)
next
  case (next_step b s t b')
  then show ?case using lock_step_inv [OF next_step(2)] lock_step_recoverable [OF next_step(2)] by blast
qed


section \<open>What a death inside the cache does\<close>

text \<open>
  (C10) A push that is cut off by the death of its process, between any two of its writes, does no harm beyond
  its own address: every other address gives what it gave before; a read of the address itself gives the old
  value or at most 14 bytes, each of them from the new value or from its old entry; and the
  next push to it, which finds the mutex abandoned, is stored as usual.
\<close>

theorem push_crash_contained:
  fixes pt :: push_point and now :: u32 and v :: bytes
  assumes "table_inv d" "a \<noteq> 0" "sgc_data c = Some d" "b \<noteq> a" "b \<noteq> 0"
  defines "c' \<equiv> c\<lparr>sgc_data := Some (interrupted_push pt now a v d)\<rparr>"
  shows "sgc_get Lock_owner_dead t b age c' = sgc_get Lock_ok t b age c \<and>
    (sgc_get Lock_owner_dead t a age c' = Some w \<longrightarrow>
      sgc_get Lock_ok t a age c = Some w \<or>
      length w \<le> 14 \<and> (\<forall>i < length w. w ! i = (v @ replicate 14 0) ! i \<or> w ! i = se_value (sd_entries d ! find_slot a d) ! i)) \<and>
    (sd_accepts d a \<longrightarrow> sgc_get Lock_ok t' a (-1) (sgc_push Lock_owner_dead t a v' c') = Some (clip14 v'))"
proof (intro conjI impI)
  let ?d = "interrupted_push pt now a v d" and ?old = "sd_entries d ! find_slot a d"
  note tab = interrupted_push_table [OF assms(1,2), where pt = pt and now = now and v = v]
  show "sgc_get Lock_owner_dead t b age c' = sgc_get Lock_ok t b age c"
    using tab(2) [OF assms(5,4)] assms(3) by (simp add: c'_def sgc_get_def get_locked_lookup)
  show "sgc_get Lock_ok t a age c = Some w \<or>
      length w \<le> 14 \<and> (\<forall>i < length w. w ! i = (v @ replicate 14 0) ! i \<or> w ! i = se_value ?old ! i)"
    if "sgc_get Lock_owner_dead t a age c' = Some w"
  proof (cases "sd_lookup ?d a = sd_lookup d a")
    case True
    then show ?thesis using that assms(3) by (simp add: c'_def sgc_get_def get_locked_lookup)
  next
    case False
    then obtain written where l: "sd_lookup ?d a =
        Some (entry_abs (torn_entry written (pushed_entry now a v ((sd_position d + 1) mod kPositionModulus)) ?old))"
      using tab(4) by blast
    have "find_slot a d < kSharedCacheCapacity"
      using False l interrupted_push_entry [OF assms(1,2), of pt now v] lookup_entries [of ?d d] by (auto simp: sd_accepts_def)
    then have ok: "entry_ok ?old" using assms(1) by (simp add: table_inv_def)
    have w: "w = entry_bytes (torn_entry written (pushed_entry now a v ((sd_position d + 1) mod kPositionModulus)) ?old)"
      using that l by (simp add: c'_def sgc_get_def get_locked_lookup entry_abs_def split: if_splits)
    have "length w \<le> 14" unfolding w by (simp add: entry_bytes_def torn_entry_def kMaxSharedValueBytes_def)
    then show ?thesis using torn_bytes [OF ok] unfolding w kMaxSharedValueBytes_def by blast
  qed
  show "sgc_get Lock_ok t' a (-1) (sgc_push Lock_owner_dead t a v' c') = Some (clip14 v')" if "sd_accepts d a"
    using usable_push_lookup [OF tab(1) tab(3) [OF that] assms(2)]
    by (simp add: c'_def sgc_get_def sgc_push_def get_locked_lookup fresh_def)
qed

text \<open>A push to the address 1 that is cut off after the address and the first byte were written.\<close>

theorem push_crash_contained_witness:
  "sgc_get Lock_owner_dead 6 2 (-1) (\<lparr>sgc_data = Some (interrupted_push (Entry_partly [Addr_part, Byte_part 0]) 5 1 [7, 8] zero_data), sgc_owns_mmap = True\<rparr>) = None \<and>
   sgc_get Lock_ok 0 1 (-1) (sgc_push Lock_owner_dead 6 1 [9]
     (\<lparr>sgc_data = Some (interrupted_push (Entry_partly [Addr_part, Byte_part 0]) 5 1 [7, 8] zero_data), sgc_owns_mmap = True\<rparr>)) = Some [9]"
proof -
  let ?c = "\<lparr>sgc_data = Some zero_data, sgc_owns_mmap = True\<rparr>" and ?pt = "Entry_partly [Addr_part, Byte_part 0]"
  have acc: "sd_accepts zero_data 1"
    by (rule sd_accepts_room [OF table_inv_zero]) (simp_all add: zero_data_def Suc_le_eq)
  have none: "get_locked 6 2 (-1) zero_data = None"
    using get_locked_abs [of 2 6 "-1" zero_data] by (simp add: sgc_abs_zero new_group_cache_def gc_get_def)
  note crash = push_crash_contained [OF table_inv_zero, of 1 ?c 2 6 "-1" ?pt 5 "[7, 8]" _ 0 "[9]"]
  show ?thesis using crash none acc by (simp add: sgc_get_def clip14_def kMaxSharedValueBytes_def)
qed

text \<open>
  (C11) The mutex survives deaths inside the cache: however many processes use it and wherever they die,
  at most one of them is inside, and while no condition wait ended on an abandoned mutex, a
  process that finds nobody inside always acquires it.
\<close>

theorem mutex_recovers:
  assumes "lock_run n b s"
  shows "owners (ls_users s) \<le> 1 \<and>
    (\<not> b \<and> owners (ls_users s) = 0 \<longrightarrow> (\<exists>r. cache_lock (ls_mutex s) = Some (r, Held) \<and> lock_acquired r))"
  using lock_run_inv [OF assms] by (cases "ls_mutex s") (auto simp: cache_lock_def)

text \<open>The first of two processes dies inside; the second recovers the mutex.\<close>

lemma example_abandoned: "lock_run 2 False \<lparr>ls_mutex = Abandoned, ls_users = [Outside, Outside]\<rparr>"
proof -
  have start: "lock_run 2 False \<lparr>ls_mutex = Free, ls_users = [Outside, Outside]\<rparr>"
    using lock_run.begin_run [of 2] by (simp add: start_lock_def numeral_2_eq_2)
  have "lock_step \<lparr>ls_mutex = Free, ls_users = [Outside, Outside]\<rparr> \<lparr>ls_mutex = Held, ls_users = [Inside, Outside]\<rparr>"
    using lock_step.enter [of 0 "\<lparr>ls_mutex = Free, ls_users = [Outside, Outside]\<rparr>"] by (simp add: set_user_def cache_lock_def)
  from start this have "lock_run 2 False \<lparr>ls_mutex = Held, ls_users = [Inside, Outside]\<rparr>"
    by (rule lock_run.next_step) simp
  moreover have "lock_step \<lparr>ls_mutex = Held, ls_users = [Inside, Outside]\<rparr> \<lparr>ls_mutex = Abandoned, ls_users = [Outside, Outside]\<rparr>"
    using lock_step.dies [of 0 "\<lparr>ls_mutex = Held, ls_users = [Inside, Outside]\<rparr>"] by (simp add: set_user_def)
  ultimately show ?thesis by (rule lock_run.next_step) simp
qed

theorem mutex_recovers_witness:
  "\<exists>s r. lock_run 2 False s \<and> ls_mutex s = Abandoned \<and> cache_lock (ls_mutex s) = Some (r, Held) \<and> lock_acquired r"
  using mutex_recovers [OF example_abandoned] example_abandoned by (fastforce simp: owners_def)

text \<open>
  The exception: a process sleeps in the condition wait while another dies inside.  The wait ends with
  \<^verbatim>\<open>EOWNERDEAD\<close>, which the code takes for an error: it unlocks without making the mutex consistent, and the mutex is
  lost.
\<close>

lemma wait_loses_mutex: "\<exists>s. lock_run 2 True s \<and> ls_mutex s = Not_recoverable"
proof -
  let ?s = "\<lambda>m a b. \<lparr>ls_mutex = m, ls_users = [a, b]\<rparr>"
  note next_run = lock_run.next_step [of 2]
  have "lock_run 2 False (?s Free Outside Outside)"
    using lock_run.begin_run [of 2] by (simp add: start_lock_def numeral_2_eq_2)
  moreover have "lock_step (?s Free Outside Outside) (?s Held Outside Inside)"
    using lock_step.enter [of 1 "?s Free Outside Outside"] by (simp add: set_user_def cache_lock_def)
  ultimately have "lock_run 2 False (?s Held Outside Inside)" by (rule next_run) simp
  moreover have "lock_step (?s Held Outside Inside) (?s Free Outside In_cond_wait)"
    using lock_step.cond_wait [of 1 "?s Held Outside Inside"] by (simp add: set_user_def)
  ultimately have "lock_run 2 False (?s Free Outside In_cond_wait)" by (rule next_run) simp
  moreover have "lock_step (?s Free Outside In_cond_wait) (?s Held Inside In_cond_wait)"
    using lock_step.enter [of 0 "?s Free Outside In_cond_wait"] by (simp add: set_user_def cache_lock_def)
  ultimately have "lock_run 2 False (?s Held Inside In_cond_wait)" by (rule next_run) simp
  moreover have "lock_step (?s Held Inside In_cond_wait) (?s Abandoned Outside In_cond_wait)"
    using lock_step.dies [of 0 "?s Held Inside In_cond_wait"] by (simp add: set_user_def)
  ultimately have "lock_run 2 False (?s Abandoned Outside In_cond_wait)" by (rule next_run) simp
  moreover have "lock_step (?s Abandoned Outside In_cond_wait) (?s Held_inconsistent Outside Wait_failed)"
    using lock_step.wake [of 1 "?s Abandoned Outside In_cond_wait"] by (simp add: set_user_def)
  ultimately have "lock_run 2 True (?s Held_inconsistent Outside Wait_failed)" by (rule next_run) simp
  moreover have "lock_step (?s Held_inconsistent Outside Wait_failed) (?s Not_recoverable Outside Outside)"
    using lock_step.unlock [of 1 "?s Held_inconsistent Outside Wait_failed"] by (simp add: set_user_def)
  ultimately have "lock_run 2 True (?s Not_recoverable Outside Outside)" by (rule next_run) simp
  then show ?thesis by (intro exI [of _ "?s Not_recoverable Outside Outside"]) simp
qed

text \<open>A lost mutex stays lost, and from then on no value is stored and none is read.\<close>

lemma lost_mutex_final: "lock_step s t \<Longrightarrow> ls_mutex s = Not_recoverable \<Longrightarrow> ls_mutex t = Not_recoverable"
  by (induction rule: lock_step.induct) (auto simp: set_user_def cache_lock_def)

lemma lost_mutex_operations:
  assumes "cache_lock Not_recoverable = Some (r, m)"
  shows "sgc_push r now a v c = c \<and> sgc_get r now a age c = None \<and> delta_values (sgc_get_delta r now since subs age c) = []"
  using assms by (auto simp: cache_lock_def sgc_push_def sgc_get_def sgc_get_delta_def split: option.splits)

end
