(* ===== verification/Shutdown.thy ===== *)
theory Shutdown
  imports Supervisor
begin

text \<open>
  The processes and the signal SIGTERM (\<^verbatim>\<open>src/main.cpp\<close>): the handler that sets the shutdown flag, the
  supervisor's loop between two signals, the set-up every child runs before it gives SIGTERM its default
  action, and the end of the program.  The parent, the children and the operating system take
  steps in any order.
\<close>

section \<open>The processes\<close>

text \<open>
  A child after the fork: it asks for a SIGTERM at its parent's death, then resets the action of SIGTERM.
  Before that it has the handler of its parent, which only sets the child's own copy of the flag.
\<close>

datatype stage = Forked | Death_signal | Default_action

record child =
  ch_pid :: int
  ch_reader :: bool
  ch_stage :: stage
  ch_shutdown_requested :: bool
  ch_ended :: bool

definition new_child :: "bool \<Rightarrow> bool \<Rightarrow> int \<Rightarrow> child" where
  "new_child shutdown_requested is_reader pid =
     \<lparr>ch_pid = pid, ch_reader = is_reader, ch_stage = Forked, ch_shutdown_requested = shutdown_requested, ch_ended = False\<rparr>"

text \<open>A SIGTERM that reaches a child.\<close>

definition sigterm :: "child \<Rightarrow> child" where
  "sigterm c =
     (if ch_ended c then c
      else if ch_stage c = Default_action then c\<lparr>ch_ended := True\<rparr>
      else c\<lparr>ch_shutdown_requested := True\<rparr>)"

text \<open>Where the parent stands: in the loop of the supervisor, at its end, or after the program.\<close>

datatype parent_pc =
  Test_flag | Before_wait | In_wait | Reaped int | Restarting int
  | After_loop | Killing "int list" | Final_wait | Done | Exited

record processes =
  pr_shutdown_requested :: bool
  pr_pc :: parent_pc
  pr_supervisor :: supervisor
  pr_children :: "child list"

text \<open>The handler of the parent; a wait that is blocked returns with \<^verbatim>\<open>EINTR\<close>.\<close>

definition handle_sigterm :: "processes \<Rightarrow> processes" where
  "handle_sigterm s =
     s\<lparr>pr_shutdown_requested := True,
       pr_pc := (case pr_pc s of In_wait \<Rightarrow> Test_flag | Final_wait \<Rightarrow> Done | pc \<Rightarrow> pc)\<rparr>"

definition set_child :: "nat \<Rightarrow> child \<Rightarrow> processes \<Rightarrow> processes" where
  "set_child i c s = s\<lparr>pr_children := (pr_children s)[i := c]\<rparr>"

definition reap :: "nat \<Rightarrow> processes \<Rightarrow> processes" where
  "reap i s = s\<lparr>pr_children := take i (pr_children s) @ drop (Suc i) (pr_children s)\<rparr>"

definition kill_pid :: "int \<Rightarrow> processes \<Rightarrow> processes" where
  "kill_pid p s = s\<lparr>pr_children := map (\<lambda>c. if ch_pid c = p then sigterm c else c) (pr_children s)\<rparr>"

text \<open>The restart of a dead child: it is the reader exactly when the dead child was.\<close>

definition restart_child :: "nat \<Rightarrow> int \<Rightarrow> int \<times> int \<Rightarrow> int \<Rightarrow> processes \<Rightarrow> processes" where
  "restart_child n waited tm fork_pid s =
     s\<lparr>pr_supervisor := snd (replace_child n waited (fst tm) fork_pid (snd tm) (pr_supervisor s)),
       pr_children := pr_children s @
         (if fork_pid > 0
          then [new_child (pr_shutdown_requested s) (waited = sp_cache_reader_pid (pr_supervisor s)) fork_pid] else [])\<rparr>"

text \<open>The end of the parent sends the signal that its children have asked for.\<close>

definition parent_exit :: "processes \<Rightarrow> processes" where
  "parent_exit s = s\<lparr>pr_pc := Exited,
     pr_children := map (\<lambda>c. if ch_stage c = Forked then c else sigterm c) (pr_children s)\<rparr>"

section \<open>Steps\<close>

datatype mover = Parent | Setup | Stop | Ends | Term

text \<open>
  \<open>Parent\<close>: the parent (or, after its end, the process that reaps orphans) goes on.  \<open>Setup\<close>: a child goes on
  with its set-up.  \<open>Stop\<close>: the cache reader sees its flag and returns.  \<open>Ends\<close>: a child ends by
  itself, for whatever reason.  \<open>Term\<close>: someone sends SIGTERM to the parent.
\<close>

inductive proc_step :: "nat \<Rightarrow> mover \<Rightarrow> processes \<Rightarrow> processes \<Rightarrow> bool" for n where
  flag_set: "pr_pc s = Test_flag \<Longrightarrow> pr_shutdown_requested s \<Longrightarrow> proc_step n Parent s (s\<lparr>pr_pc := After_loop\<rparr>)"
| flag_clear: "pr_pc s = Test_flag \<Longrightarrow> \<not> pr_shutdown_requested s \<Longrightarrow> proc_step n Parent s (s\<lparr>pr_pc := Before_wait\<rparr>)"
| call_wait: "pr_pc s = Before_wait \<Longrightarrow> proc_step n Parent s (s\<lparr>pr_pc := In_wait\<rparr>)"
| wait_child: "pr_pc s = In_wait \<Longrightarrow> i < length (pr_children s) \<Longrightarrow> ch_ended (pr_children s ! i) \<Longrightarrow>
     proc_step n Parent s ((reap i s)\<lparr>pr_pc := Reaped (ch_pid (pr_children s ! i))\<rparr>)"
| wait_none: "pr_pc s = In_wait \<Longrightarrow> pr_children s = [] \<Longrightarrow> proc_step n Parent s (s\<lparr>pr_pc := After_loop\<rparr>)"
| reaped_stop: "pr_pc s = Reaped p \<Longrightarrow> pr_shutdown_requested s \<Longrightarrow> proc_step n Parent s (s\<lparr>pr_pc := After_loop\<rparr>)"
| reaped_go: "pr_pc s = Reaped p \<Longrightarrow> \<not> pr_shutdown_requested s \<Longrightarrow> proc_step n Parent s (s\<lparr>pr_pc := Restarting p\<rparr>)"
| restart: "pr_pc s = Restarting p \<Longrightarrow> f \<noteq> 0 \<Longrightarrow> f \<notin> ch_pid ` set (pr_children s) \<Longrightarrow>
     proc_step n Parent s ((restart_child n p tm f s)\<lparr>pr_pc := Test_flag\<rparr>)"
| kill_all: "pr_pc s = After_loop \<Longrightarrow> pr_shutdown_requested s \<Longrightarrow>
     proc_step n Parent s (s\<lparr>pr_pc :=
       Killing (stop_children (sp_cache_reader_pid (pr_supervisor s)) (sp_worker_pids (pr_supervisor s)))\<rparr>)"
| no_kill: "pr_pc s = After_loop \<Longrightarrow> \<not> pr_shutdown_requested s \<Longrightarrow> proc_step n Parent s (s\<lparr>pr_pc := Done\<rparr>)"
| kill_next: "pr_pc s = Killing (p # ps) \<Longrightarrow> proc_step n Parent s ((kill_pid p s)\<lparr>pr_pc := Killing ps\<rparr>)"
| kill_end: "pr_pc s = Killing [] \<Longrightarrow> proc_step n Parent s (s\<lparr>pr_pc := Final_wait\<rparr>)"
| final_child: "pr_pc s = Final_wait \<Longrightarrow> i < length (pr_children s) \<Longrightarrow> ch_ended (pr_children s ! i) \<Longrightarrow>
     proc_step n Parent s (reap i s)"
| final_none: "pr_pc s = Final_wait \<Longrightarrow> pr_children s = [] \<Longrightarrow> proc_step n Parent s (s\<lparr>pr_pc := Done\<rparr>)"
| leave: "pr_pc s = Done \<Longrightarrow> proc_step n Parent s (parent_exit s)"
| orphan: "pr_pc s = Exited \<Longrightarrow> i < length (pr_children s) \<Longrightarrow> ch_ended (pr_children s ! i) \<Longrightarrow>
     proc_step n Parent s (reap i s)"
| death_signal: "i < length (pr_children s) \<Longrightarrow> \<not> ch_ended (pr_children s ! i) \<Longrightarrow>
     ch_stage (pr_children s ! i) = Forked \<Longrightarrow>
     proc_step n Setup s (set_child i ((pr_children s ! i)\<lparr>ch_stage := Death_signal\<rparr>) s)"
| default_action: "i < length (pr_children s) \<Longrightarrow> \<not> ch_ended (pr_children s ! i) \<Longrightarrow>
     ch_stage (pr_children s ! i) = Death_signal \<Longrightarrow>
     proc_step n Setup s (set_child i ((pr_children s ! i)\<lparr>ch_stage := Default_action\<rparr>) s)"
| reader_stop: "i < length (pr_children s) \<Longrightarrow> \<not> ch_ended (pr_children s ! i) \<Longrightarrow> ch_reader (pr_children s ! i) \<Longrightarrow>
     ch_stage (pr_children s ! i) = Default_action \<Longrightarrow> ch_shutdown_requested (pr_children s ! i) \<Longrightarrow>
     proc_step n Stop s (set_child i ((pr_children s ! i)\<lparr>ch_ended := True\<rparr>) s)"
| child_ends: "i < length (pr_children s) \<Longrightarrow> \<not> ch_ended (pr_children s ! i) \<Longrightarrow>
     proc_step n Ends s (set_child i ((pr_children s ! i)\<lparr>ch_ended := True\<rparr>) s)"
| term_signal: "pr_pc s \<noteq> Exited \<Longrightarrow> proc_step n Term s (handle_sigterm s)"

definition start_processes :: "supervisor \<Rightarrow> processes" where
  "start_processes sp = \<lparr>pr_shutdown_requested = False, pr_pc = Test_flag, pr_supervisor = sp,
     pr_children = map (\<lambda>p. new_child False (p = sp_cache_reader_pid sp) p) (known_children sp)\<rparr>"

inductive proc_reachable :: "nat \<Rightarrow> supervisor \<Rightarrow> processes \<Rightarrow> bool" for n sp where
  start: "proc_reachable n sp (start_processes sp)"
| step: "proc_reachable n sp s \<Longrightarrow> proc_step n a s t \<Longrightarrow> proc_reachable n sp t"

text \<open>Runs of a given length without a further signal to the parent.\<close>

inductive quiet_run :: "nat \<Rightarrow> nat \<Rightarrow> processes \<Rightarrow> processes \<Rightarrow> bool" for n where
  here: "quiet_run n 0 s s"
| more: "quiet_run n m s t \<Longrightarrow> proc_step n a t u \<Longrightarrow> a \<noteq> Term \<Longrightarrow> quiet_run n (Suc m) s u"

text \<open>Some process goes on without anyone's help.\<close>

definition moves :: "nat \<Rightarrow> processes \<Rightarrow> bool" where
  "moves n s \<longleftrightarrow> (\<exists>a t. a \<in> {Parent, Setup, Stop} \<and> proc_step n a s t)"

section \<open>What the parent knows of its children\<close>

abbreviation pids :: "processes \<Rightarrow> int list" where
  "pids s \<equiv> map ch_pid (pr_children s)"

abbreviation table :: "processes \<Rightarrow> int list" where
  "table s \<equiv> known_children (pr_supervisor s)"

definition told :: "child \<Rightarrow> bool" where
  "told c \<longleftrightarrow> ch_ended c \<or> ch_shutdown_requested c"

fun pc_inv :: "parent_pc \<Rightarrow> processes \<Rightarrow> bool" where
  "pc_inv (Reaped p) s \<longleftrightarrow> p \<notin> set (pids s) \<and> set (table s) = insert p (set (pids s))"
| "pc_inv (Restarting p) s \<longleftrightarrow> p \<notin> set (pids s) \<and> set (table s) = insert p (set (pids s))"
| "pc_inv Test_flag s \<longleftrightarrow> set (table s) = set (pids s)"
| "pc_inv Before_wait s \<longleftrightarrow> set (table s) = set (pids s)"
| "pc_inv In_wait s \<longleftrightarrow> set (table s) = set (pids s)"
| "pc_inv (Killing ps) s \<longleftrightarrow> length ps \<le> length (table s) \<and> (\<forall>c \<in> set (pr_children s). ch_pid c \<in> set ps \<or> told c)"
| "pc_inv Final_wait s \<longleftrightarrow> (\<forall>c \<in> set (pr_children s). told c)"
| "pc_inv _ s \<longleftrightarrow> True"

definition proc_inv :: "nat \<Rightarrow> processes \<Rightarrow> bool" where
  "proc_inv n s \<longleftrightarrow> distinct (pids s) \<and> distinct (table s) \<and> set (pids s) \<subseteq> set (table s) \<and>
     length (sp_worker_pids (pr_supervisor s)) = n \<and> pc_inv (pr_pc s) s"

lemma sigterm_simps [simp]:
  "ch_pid (sigterm c) = ch_pid c" "told (sigterm c)" "ch_stage (sigterm c) = ch_stage c"
  "ch_ended c \<Longrightarrow> ch_ended (sigterm c)" "told c \<Longrightarrow> told (sigterm c)"
  by (auto simp: sigterm_def told_def)

lemma pids_set_child [simp]:
  "ch_pid c = ch_pid (pr_children s ! i) \<Longrightarrow> map ch_pid ((pr_children s)[i := c]) = pids s"
  by (metis list_update_id map_update)

lemma pids_kill [simp]: "map (ch_pid \<circ> (\<lambda>c. if P c then sigterm c else c)) cs = map ch_pid cs"
  "map (ch_pid \<circ> (\<lambda>c. if P c then c else sigterm c)) cs = map ch_pid cs"
  by auto

lemma remove_nth:
  assumes "i < length xs"
  shows "set xs = insert (xs ! i) (set (take i xs @ drop (Suc i) xs))"
    and "distinct xs \<Longrightarrow> distinct (take i xs @ drop (Suc i) xs) \<and> xs ! i \<notin> set (take i xs @ drop (Suc i) xs)"
proof -
  have xs: "xs = take i xs @ xs ! i # drop (Suc i) xs" using assms by (rule id_take_nth_drop)
  show "set xs = insert (xs ! i) (set (take i xs @ drop (Suc i) xs))" by (subst xs) auto
  show "distinct xs \<Longrightarrow> distinct (take i xs @ drop (Suc i) xs) \<and> xs ! i \<notin> set (take i xs @ drop (Suc i) xs)"
    by (subst (asm) xs) auto
qed

lemma pids_reap: "map ch_pid (pr_children (reap i s)) = take i (pids s) @ drop (Suc i) (pids s)"
  by (simp add: reap_def take_map drop_map)

lemma reap_simps [simp]:
  "pr_pc (reap i s) = pr_pc s" "pr_supervisor (reap i s) = pr_supervisor s"
  "pr_shutdown_requested (reap i s) = pr_shutdown_requested s"
  by (simp_all add: reap_def)

lemma set_reap: "set (pr_children (reap i s)) \<subseteq> set (pr_children s)"
  by (auto simp: reap_def dest: in_set_takeD in_set_dropD)

text \<open>A child takes a step of its own.\<close>

lemma child_step_inv:
  assumes "proc_inv n s" "ch_pid c = ch_pid (pr_children s ! i)" "told (pr_children s ! i) \<longrightarrow> told c" "i < length (pr_children s)"
  shows "proc_inv n (set_child i c s)"
proof -
  let ?t = "set_child i c s"
  have p: "pids ?t = pids s" "pr_supervisor ?t = pr_supervisor s" "pr_pc ?t = pr_pc s"
    using assms(2) by (simp_all add: set_child_def)
  have old: "\<exists>d \<in> set (pr_children s). ch_pid c' = ch_pid d \<and> (told d \<longrightarrow> told c')" if "c' \<in> set (pr_children ?t)" for c'
  proof (cases "c' = c")
    case True
    then show ?thesis using assms(2-4) by (intro bexI [of _ "pr_children s ! i"]) auto
  next
    case False
    then show ?thesis using that set_update_subset_insert [of "pr_children s" i c] by (auto simp: set_child_def)
  qed
  have "pc_inv (pr_pc s) ?t"
  proof (cases "pr_pc s")
    case (Killing ps)
    then show ?thesis using assms(1) p(2) old by (fastforce simp: proc_inv_def)
  next
    case Final_wait
    then show ?thesis using assms(1) old by (fastforce simp: proc_inv_def)
  qed (use assms(1) p in \<open>auto simp: proc_inv_def\<close>)
  then show ?thesis using assms(1) unfolding proc_inv_def p by blast
qed

lemma replace_child_workers: "length (sp_worker_pids (snd (replace_child n p td f ts sp))) = length (sp_worker_pids sp)"
  by (auto simp: replace_child_def case_prod_unfold Let_def split: option.splits)

lemma restart_inv:
  assumes "proc_inv n s" "pr_pc s = Restarting p" "f \<noteq> 0" "f \<notin> set (pids s)"
  shows "proc_inv n ((restart_child n p tm f s)\<lparr>pr_pc := Test_flag\<rparr>)"
proof -
  let ?sp = "pr_supervisor s"
  obtain slept sp' where r: "replace_child n p (fst tm) f (snd tm) ?sp = (slept, sp')"
    by (cases "replace_child n p (fst tm) f (snd tm) ?sp")
  have inv: "p \<notin> set (pids s)" "set (table s) = insert p (set (pids s))" "distinct (table s)" "distinct (pids s)"
    "length (sp_worker_pids ?sp) = n"
    using assms(1,2) by (auto simp: proc_inv_def)
  have f: "f \<notin> set (table s) - {p}" using inv(2) assms(4) by auto
  have pt: "p \<in> set (table s)" using inv(2) by simp
  note known = replace_child_known [OF r inv(3) pt assms(3) f]
  have t: "set (known_children sp') = set (pids s) \<union> (if f > 0 then {f} else {})"
    unfolding known(1) using inv(1,2) by auto
  moreover have "length (sp_worker_pids sp') = n"
    using replace_child_workers [of n p "fst tm" f "snd tm" ?sp] r inv(5) by simp
  ultimately show ?thesis
    using r inv(4) assms(4) known(2) by (auto simp: proc_inv_def restart_child_def new_child_def)
qed



lemma reap_inv:
  assumes "proc_inv n s" "i < length (pr_children s)"
  shows "distinct (map ch_pid (pr_children (reap i s)))"
    and "ch_pid (pr_children s ! i) \<notin> set (map ch_pid (pr_children (reap i s)))"
    and "set (pids s) = insert (ch_pid (pr_children s ! i)) (set (map ch_pid (pr_children (reap i s))))"
proof -
  have d: "distinct (pids s)" and i: "i < length (pids s)" using assms by (simp_all add: proc_inv_def)
  show "distinct (map ch_pid (pr_children (reap i s)))"
    and "ch_pid (pr_children s ! i) \<notin> set (map ch_pid (pr_children (reap i s)))"
    unfolding pids_reap using remove_nth(2) [OF i d] assms(2) by auto
  show "set (pids s) = insert (ch_pid (pr_children s ! i)) (set (map ch_pid (pr_children (reap i s))))"
    unfolding pids_reap using remove_nth(1) [OF i] assms(2) by simp
qed

lemma proc_step_inv: "proc_step n a s t \<Longrightarrow> proc_inv n s \<Longrightarrow> proc_inv n t"
proof (induction rule: proc_step.induct)
  case (wait_child s i)
  note r = reap_inv [OF wait_child(4,2)]
  show ?case using wait_child(1,4) r by (auto simp: proc_inv_def)
next
  case (restart s p f tm)
  then show ?case by (intro restart_inv) auto
next
  case (kill_next s p ps)
  then show ?case by (auto simp: proc_inv_def kill_pid_def)
next
  case (final_child s i)
  note r = reap_inv [OF final_child(4,2)]
  show ?case using final_child(1,4) r set_reap [of i s] by (auto simp: proc_inv_def)
next
  case (leave s)
  then show ?case by (auto simp: proc_inv_def parent_exit_def)
next
  case (orphan s i)
  note r = reap_inv [OF orphan(4,2)]
  show ?case using orphan(1,4) r by (auto simp: proc_inv_def)
next
  case (term_signal s)
  then show ?case by (cases "pr_pc s") (auto simp: proc_inv_def handle_sigterm_def)
qed ((rule child_step_inv; simp add: told_def; fail) | (force simp: proc_inv_def))+


lemma start_inv:
  assumes "start_pool n reader_fork forks now_reader now_workers con shed = Inr sp"
    and "distinct (reader_fork # forks)" "0 \<notin> set (reader_fork # forks)"
  shows "proc_inv n (start_processes sp)"
proof -
  note st = start_pool_Inr [OF assms(1)]
  have "\<forall>p \<in> set (take n forks). 0 < p" "0 < reader_fork"
    using st assms(3) by (auto simp: order_less_le dest: in_set_takeD)
  then have "distinct (known_children sp)"
    using st assms(2) by (auto simp: stop_children_def dest: in_set_takeD)
  moreover have "ch_pid \<circ> (\<lambda>p. new_child False (p = r) p) = id" for r by (auto simp: new_child_def)
  moreover have "length (sp_worker_pids sp) = n" using st by blast
  ultimately show ?thesis by (simp add: proc_inv_def start_processes_def)
qed

lemma reachable_inv:
  assumes "proc_reachable n sp s" "proc_inv n (start_processes sp)"
  shows "proc_inv n s"
  using assms by (induction rule: proc_reachable.induct) (auto intro: proc_step_inv)

text \<open>
  The steps of the parent are rounds of \<open>supervise\<close>: in every reachable state its table is the result of the
  loop on the deaths that it has handled so far.
\<close>

definition death :: "int \<Rightarrow> int \<times> int \<Rightarrow> int \<Rightarrow> wait_event" where
  "death p tm f =
     \<lparr>we_shutdown_before = False, we_reaped = Child p, we_shutdown = False, we_times = tm, we_fork_pid = f\<rparr>"

lemma supervise_death:
  "snd (supervise n (map (\<lambda>(p, tm, f). death p tm f) ds @ [death p tm f]) sp) =
     snd (replace_child n p (fst tm) f (snd tm) (snd (supervise n (map (\<lambda>(p, tm, f). death p tm f) ds) sp)))"
  by (induction ds arbitrary: sp) (auto simp: death_def case_prod_unfold Let_def)

lemma run_supervises:
  assumes "proc_reachable n sp s"
  shows "\<exists>ds. pr_supervisor s = snd (supervise n (map (\<lambda>(p, tm, f). death p tm f) ds) sp)"
  using assms
proof (induction rule: proc_reachable.induct)
  case start
  show ?case by (intro exI [of _ "[]"]) (simp add: start_processes_def)
next
  case (step s a t)
  from step(2) have "pr_supervisor t = pr_supervisor s \<or>
      (\<exists>p tm f. pr_supervisor t = snd (replace_child n p (fst tm) f (snd tm) (pr_supervisor s)))"
  proof (induction rule: proc_step.induct)
    case (restart s p f tm)
    show ?case by (intro disjI2 exI [of _ p] exI [of _ tm] exI [of _ f]) (simp add: restart_child_def)
  qed (simp_all add: kill_pid_def parent_exit_def set_child_def handle_sigterm_def)
  then show ?case
  proof
    assume "\<exists>p tm f. pr_supervisor t = snd (replace_child n p (fst tm) f (snd tm) (pr_supervisor s))"
    then obtain p tm f where t: "pr_supervisor t = snd (replace_child n p (fst tm) f (snd tm) (pr_supervisor s))" by blast
    obtain ds where "pr_supervisor s = snd (supervise n (map (\<lambda>(p, tm, f). death p tm f) ds) sp)" using step.IH by blast
    then show ?thesis using t supervise_death [of n ds p tm f sp] by (intro exI [of _ "ds @ [(p, tm, f)]"]) simp
  qed (use step.IH in simp)
qed

section \<open>The end of every run\<close>

text \<open>What is left to do once the flag is set.\<close>

definition child_work :: "child \<Rightarrow> nat" where
  "child_work c = (if ch_ended c then 1 else case ch_stage c of Forked \<Rightarrow> 4 | Death_signal \<Rightarrow> 3 | Default_action \<Rightarrow> 2)"

fun pc_work :: "nat \<Rightarrow> parent_pc \<Rightarrow> nat" where
  "pc_work n Exited = 0"
| "pc_work n Done = 1"
| "pc_work n Final_wait = 2"
| "pc_work n (Killing ps) = 3 + length ps"
| "pc_work n After_loop = n + 5"
| "pc_work n Test_flag = n + 6"
| "pc_work n (Reaped p) = n + 6"
| "pc_work n In_wait = n + 7"
| "pc_work n Before_wait = n + 8"
| "pc_work n (Restarting p) = n + 11"

definition work :: "nat \<Rightarrow> processes \<Rightarrow> nat" where
  "work n s = pc_work n (pr_pc s) + (\<Sum>c \<leftarrow> pr_children s. child_work c)"

lemma child_work_bounds: "0 < child_work c" "child_work c \<le> 4"
  by (cases "ch_stage c"; simp add: child_work_def)+

lemma sigterm_work: "child_work (sigterm c) \<le> child_work c"
  by (cases "ch_stage c") (auto simp: child_work_def sigterm_def)

lemma sum_sigterm:
  "(\<Sum>c \<leftarrow> map (\<lambda>c. if P c then sigterm c else c) cs. child_work c) \<le> (\<Sum>c \<leftarrow> cs. child_work c)"
  "(\<Sum>c \<leftarrow> map (\<lambda>c. if P c then c else sigterm c) cs. child_work c) \<le> (\<Sum>c \<leftarrow> cs. child_work c)"
  unfolding map_map by (intro sum_list_mono; simp add: sigterm_work)+

lemma sum_reap:
  "i < length (pr_children s) \<Longrightarrow>
     (\<Sum>c \<leftarrow> pr_children (reap i s). child_work c) < (\<Sum>c \<leftarrow> pr_children s. child_work c)"
  using child_work_bounds(1) [of "pr_children s ! i"]
  by (subst (2) id_take_nth_drop) (auto simp: reap_def)

lemma sum_set_child:
  assumes "i < length (pr_children s)" "child_work c < child_work (pr_children s ! i)"
  shows "work n (set_child i c s) < work n s"
proof -
  have "(pr_children s)[i := c] = take i (pr_children s) @ c # drop (Suc i) (pr_children s)"
    using assms(1) by (rule upd_conv_take_nth_drop)
  moreover have "pr_children s = take i (pr_children s) @ pr_children s ! i # drop (Suc i) (pr_children s)"
    using assms(1) by (rule id_take_nth_drop)
  then have "(\<Sum>c \<leftarrow> pr_children s. child_work c) = (\<Sum>c \<leftarrow> take i (pr_children s). child_work c) +
      child_work (pr_children s ! i) + (\<Sum>c \<leftarrow> drop (Suc i) (pr_children s). child_work c)"
    by (metis map_append sum_list_append list.simps(9) sum_list.Cons add.assoc)
  ultimately show ?thesis using assms(2) by (simp add: work_def set_child_def)
qed

lemma length_table: "length (stop_children r ws) \<le> Suc (length ws)"
  by (simp add: stop_children_def le_SucI)

lemma quiet_step_work:
  "proc_step n a s t \<Longrightarrow> a \<noteq> Term \<Longrightarrow> pr_shutdown_requested s \<Longrightarrow> proc_inv n s \<Longrightarrow>
     pr_shutdown_requested t \<and> work n t < work n s"
proof (induction rule: proc_step.induct)
  case (restart s p f tm)
  then show ?case by (auto simp: work_def restart_child_def child_work_def new_child_def)
next
  case (kill_all s)
  then show ?case
    using length_table [of "sp_cache_reader_pid (pr_supervisor s)" "sp_worker_pids (pr_supervisor s)"]
    by (auto simp: work_def proc_inv_def)
next
  case (kill_next s p ps)
  then show ?case using sum_sigterm(1) [of "\<lambda>c. ch_pid c = p" "pr_children s"] by (simp add: work_def kill_pid_def)
next
  case (leave s)
  then show ?case
    using sum_sigterm(2) [of "\<lambda>c. ch_stage c = Forked" "pr_children s"] by (simp add: work_def parent_exit_def)
next
  case (wait_child s i)
  then show ?case using sum_reap [OF wait_child(2)] by (simp add: work_def)
next
  case (final_child s i)
  then show ?case using sum_reap [OF final_child(2)] by (simp add: work_def)
next
  case (orphan s i)
  then show ?case using sum_reap [OF orphan(2)] by (simp add: work_def)
next
  case (death_signal i s)
  then show ?case using sum_set_child [OF death_signal(1)] by (simp add: child_work_def) (simp add: set_child_def)
next
  case (default_action i s)
  then show ?case using sum_set_child [OF default_action(1)] by (simp add: child_work_def) (simp add: set_child_def)
next
  case (reader_stop i s)
  then show ?case using sum_set_child [OF reader_stop(1)] by (simp add: child_work_def) (simp add: set_child_def)
next
  case (child_ends i s)
  then show ?case
    using sum_set_child [OF child_ends(1)] child_work_bounds
    by (cases "ch_stage (pr_children s ! i)") (auto simp: child_work_def set_child_def)
qed (auto simp: work_def)


lemma quiet_run_work:
  assumes "quiet_run n m s t" "pr_shutdown_requested s" "proc_inv n s"
  shows "proc_inv n t \<and> pr_shutdown_requested t \<and> m + work n t \<le> work n s"
  using assms
proof (induction rule: quiet_run.induct)
  case (more m s t a u)
  then have t: "proc_inv n t" "pr_shutdown_requested t" "m + work n t \<le> work n s" by auto
  then show ?case using quiet_step_work [OF more(2,3) t(2,1)] proc_step_inv [OF more(2) t(1)] by auto
qed simp

lemma work_bound:
  assumes "proc_inv n s"
  shows "work n s \<le> 5 * n + 15"
proof -
  have "length (pids s) \<le> length (table s)"
    using assms card_mono [OF finite_set, of "set (pids s)" "table s"] unfolding proc_inv_def by (metis distinct_card)
  also have tab: "length (table s) \<le> Suc n" using assms length_table by (metis proc_inv_def)
  finally have len: "length (pr_children s) \<le> Suc n" by simp
  have "(\<Sum>c \<leftarrow> pr_children s. child_work c) \<le> (\<Sum>c \<leftarrow> pr_children s. 4)"
    by (rule sum_list_mono) (rule child_work_bounds)
  also have "\<dots> \<le> 4 * Suc n" using len by (simp add: sum_list_triv)
  finally show ?thesis using assms tab by (cases "pr_pc s") (auto simp: work_def proc_inv_def)
qed

text \<open>When nobody moves, every child that runs has done its set-up, and no child waits for being reaped.\<close>

lemma unmoved_child:
  assumes "\<not> moves n s" "c \<in> set (pr_children s)" "\<not> ch_ended c"
  shows "ch_stage c = Default_action" "\<not> (ch_reader c \<and> ch_shutdown_requested c)"
proof -
  obtain i where i: "i < length (pr_children s)" "pr_children s ! i = c" using assms(2) by (auto simp: in_set_conv_nth)
  have "\<not> proc_step n Setup s t" "\<not> proc_step n Stop s t" for t using assms(1) by (auto simp: moves_def)
  then show "ch_stage c = Default_action"
    using proc_step.death_signal [OF i(1)] proc_step.default_action [OF i(1)] i(2) assms(3)
    by (cases "ch_stage c") auto
  with \<open>\<And>t. \<not> proc_step n Stop s t\<close> show "\<not> (ch_reader c \<and> ch_shutdown_requested c)"
    using proc_step.reader_stop [OF i(1)] i(2) assms(3) by auto
qed

lemma unmoved_pc:
  assumes "\<not> moves n s" "pr_shutdown_requested s" "proc_inv n s"
  shows "pr_pc s = Exited \<or> pr_pc s \<in> {In_wait, Final_wait} \<and> pr_children s \<noteq> []"
    and "c \<in> set (pr_children s) \<Longrightarrow> \<not> ch_ended c"
proof -
  have stuck: "\<not> proc_step n Parent s t" for t using assms(1) by (auto simp: moves_def)
  have neg: "-1 \<notin> set (pids s)"
    using assms(3) stop_children_pos [of "-1"] by (fastforce simp: proc_inv_def)
  show pc: "pr_pc s = Exited \<or> pr_pc s \<in> {In_wait, Final_wait} \<and> pr_children s \<noteq> []"
  proof (cases "pr_pc s")
    case (Restarting p)
    then show ?thesis using proc_step.restart [OF Restarting, of "-1" n undefined] neg stuck by auto
  next
    case (Killing ps)
    then show ?thesis using stuck by (cases ps) (auto intro: proc_step.intros)
  qed (use stuck assms(2) in \<open>auto intro: proc_step.intros\<close>)
  show "\<not> ch_ended c" if c: "c \<in> set (pr_children s)"
  proof
    assume e: "ch_ended c"
    obtain i where "i < length (pr_children s)" "pr_children s ! i = c" using c by (auto simp: in_set_conv_nth)
    then show False
      using pc e stuck proc_step.wait_child [of s i n] proc_step.final_child [of s i n] proc_step.orphan [of s i n] by auto
  qed
qed

text \<open>The parent does not leave children behind.\<close>

lemma quiet_step_empty:
  assumes "proc_step n a s t" "a \<noteq> Term" "pr_shutdown_requested s"
    and "pr_pc s \<in> {Done, Exited} \<longrightarrow> pr_children s = []"
  shows "pr_pc t \<in> {Done, Exited} \<longrightarrow> pr_children t = []"
  using assms by (induction rule: proc_step.induct) (auto simp: parent_exit_def set_child_def)

lemma quiet_run_empty:
  assumes "quiet_run n m s t" "pr_shutdown_requested s" "proc_inv n s" "pr_pc s \<in> {Done, Exited} \<longrightarrow> pr_children s = []"
  shows "pr_pc t \<in> {Done, Exited} \<longrightarrow> pr_children t = []"
  using assms
proof (induction rule: quiet_run.induct)
  case (more m s t a u)
  have "pr_shutdown_requested t" using quiet_run_work [OF more(1,5,6)] by simp
  from quiet_step_empty [OF more(2,3) this more.IH [OF more(5-7)]] show ?case .
qed simp


text \<open>A shutdown that begins when every child has done its set-up.\<close>

fun settled_pc :: "parent_pc \<Rightarrow> processes \<Rightarrow> bool" where
  "settled_pc Test_flag s \<longleftrightarrow> True"
| "settled_pc After_loop s \<longleftrightarrow> True"
| "settled_pc (Killing ps) s \<longleftrightarrow> (\<forall>c \<in> set (pr_children s). ch_pid c \<in> set ps \<or> ch_ended c)"
| "settled_pc Final_wait s \<longleftrightarrow> (\<forall>c \<in> set (pr_children s). ch_ended c)"
| "settled_pc Done s \<longleftrightarrow> pr_children s = []"
| "settled_pc Exited s \<longleftrightarrow> pr_children s = []"
| "settled_pc _ s \<longleftrightarrow> False"

definition settled :: "processes \<Rightarrow> bool" where
  "settled s \<longleftrightarrow> settled_pc (pr_pc s) s \<and> (\<forall>c \<in> set (pr_children s). ch_ended c \<or> ch_stage c = Default_action)"

lemma sigterm_settled: "ch_ended c \<or> ch_stage c = Default_action \<Longrightarrow> ch_ended (sigterm c)"
  by (auto simp: sigterm_def)

lemma settled_set_child:
  assumes "settled s" "i < length (pr_children s)" "c = (pr_children s ! i)\<lparr>ch_ended := True\<rparr>"
  shows "settled (set_child i c s)"
proof -
  have c: "c' \<in> set (pr_children s) \<or> ch_ended c'" if "c' \<in> set (pr_children (set_child i c s))" for c'
    using that set_update_subset_insert [of "pr_children s" i c] assms(3) by (auto simp: set_child_def)
  have "pr_pc (set_child i c s) = pr_pc s" by (simp add: set_child_def)
  moreover have "pr_children s \<noteq> []" using assms(2) by auto
  ultimately show ?thesis using assms(1) c by (cases "pr_pc s") (auto simp: settled_def)
qed

lemma settled_step:
  "proc_step n a s t \<Longrightarrow> a \<noteq> Term \<Longrightarrow> pr_shutdown_requested s \<Longrightarrow> proc_inv n s \<Longrightarrow> settled s \<Longrightarrow> settled t"
proof (induction rule: proc_step.induct)
  case (kill_all s)
  then show ?case by (auto simp: settled_def proc_inv_def)
next
  case (kill_next s p ps)
  then show ?case by (auto simp: settled_def kill_pid_def sigterm_settled)
next
  case (final_child s i)
  then show ?case using set_reap [of i s] by (auto simp: settled_def)
next
  case (reader_stop i s)
  then show ?case by (intro settled_set_child) auto
next
  case (child_ends i s)
  then show ?case by (intro settled_set_child) auto
qed (auto simp: settled_def parent_exit_def dest: nth_mem)

lemma settled_run:
  assumes "quiet_run n m s t" "pr_shutdown_requested s" "proc_inv n s" "settled s"
  shows "settled t"
  using assms
proof (induction rule: quiet_run.induct)
  case (more m s t a u)
  have "pr_shutdown_requested t" "proc_inv n t" using quiet_run_work [OF more(1,5,6)] by simp_all
  from settled_step [OF more(2,3) this more.IH [OF more(5-7)]] show ?case .
qed simp

section \<open>Examples\<close>

text \<open>A reader with the number 10 and a worker with the number 11.\<close>

abbreviation example_supervisor :: supervisor where
  "example_supervisor \<equiv> start_supervisor 1 10 [11] 0 [0] None None"

definition example_processes :: "bool \<Rightarrow> parent_pc \<Rightarrow> child list \<Rightarrow> processes" where
  "example_processes flag pc cs =
     \<lparr>pr_shutdown_requested = flag, pr_pc = pc, pr_supervisor = example_supervisor, pr_children = cs\<rparr>"

abbreviation example_child :: "int \<Rightarrow> stage \<Rightarrow> bool \<Rightarrow> child" where
  "example_child pid st flag \<equiv>
     \<lparr>ch_pid = pid, ch_reader = (pid = 10), ch_stage = st, ch_shutdown_requested = flag, ch_ended = False\<rparr>"

lemma example_pool: "start_pool 1 10 [11] 0 [0] None None = Inr example_supervisor"
  by (simp add: start_pool_def)

lemmas example_simps = example_processes_def start_processes_def start_supervisor_def stop_children_def new_child_def
  set_child_def kill_pid_def sigterm_def reap_def handle_sigterm_def

lemma example_start:
  "proc_reachable 1 example_supervisor (example_processes False Test_flag [example_child 10 Forked False, example_child 11 Forked False])"
  using proc_reachable.start [of 1 example_supervisor] by (simp add: example_simps)

lemma setup_child:
  assumes "proc_reachable n sp s" "i < length (pr_children s)" "\<not> ch_ended (pr_children s ! i)"
    and "ch_stage (pr_children s ! i) = Forked"
  shows "proc_reachable n sp (set_child i ((pr_children s ! i)\<lparr>ch_stage := Default_action\<rparr>) s)"
proof -
  let ?t = "set_child i ((pr_children s ! i)\<lparr>ch_stage := Death_signal\<rparr>) s"
  have "proc_step n Setup s ?t" using assms(2-4) by (rule proc_step.death_signal)
  then have "proc_reachable n sp ?t" using proc_reachable.step [OF assms(1)] by simp
  moreover have "proc_step n Setup ?t (set_child i ((pr_children ?t ! i)\<lparr>ch_stage := Default_action\<rparr>) ?t)"
    by (rule proc_step.default_action) (use assms in \<open>simp_all add: set_child_def\<close>)
  ultimately have "proc_reachable n sp (set_child i ((pr_children ?t ! i)\<lparr>ch_stage := Default_action\<rparr>) ?t)"
    using proc_reachable.step by blast
  then show ?thesis using assms(2) by (simp add: set_child_def)
qed

lemma example_setup:
  assumes "proc_reachable 1 example_supervisor (example_processes b pc [example_child 10 Forked f, example_child 11 Forked g])"
  shows "proc_reachable 1 example_supervisor
    (example_processes b pc [example_child 10 Default_action f, example_child 11 Default_action g])"
  using setup_child [OF setup_child [OF assms, of 0], of 1] by (simp add: example_simps)

lemma example_waiting:
  "proc_reachable 1 example_supervisor
     (example_processes False In_wait [example_child 10 Default_action False, example_child 11 Default_action False])"
proof -
  let ?cs = "[example_child 10 Forked False, example_child 11 Forked False]"
  have "proc_step 1 Parent (example_processes False Test_flag ?cs) (example_processes False Before_wait ?cs)"
    using proc_step.flag_clear [of "example_processes False Test_flag ?cs" 1] by (simp add: example_simps)
  moreover have "proc_step 1 Parent (example_processes False Before_wait ?cs) (example_processes False In_wait ?cs)"
    using proc_step.call_wait [of "example_processes False Before_wait ?cs" 1] by (simp add: example_simps)
  ultimately show ?thesis using example_start by (blast intro: proc_reachable.step example_setup)
qed

lemma blocked:
  assumes "pr_pc s \<in> {In_wait, Final_wait}" "pr_children s \<noteq> []"
    and "\<forall>c \<in> set (pr_children s). \<not> ch_ended c \<and> ch_stage c = Default_action \<and> \<not> (ch_reader c \<and> ch_shutdown_requested c)"
  shows "\<not> moves n s"
proof
  assume "moves n s"
  then obtain a t where a: "proc_step n a s t" "a \<in> {Parent, Setup, Stop}" by (auto simp: moves_def)
  then show False using assms by (induction rule: proc_step.induct) auto
qed

text \<open>
  The missed signal: the flag is tested, the signal arrives, and the wait blocks.  The processes stay so
  until a child dies.
\<close>

lemma missed_signal:
  "\<exists>s. proc_reachable 1 example_supervisor s \<and> pr_shutdown_requested s \<and> pr_pc s = In_wait \<and> \<not> moves 1 s"
proof -
  let ?cs = "[example_child 10 Forked False, example_child 11 Forked False]"
  have "proc_step 1 Parent (example_processes False Test_flag ?cs) (example_processes False Before_wait ?cs)"
    using proc_step.flag_clear [of "example_processes False Test_flag ?cs" 1] by (simp add: example_simps)
  moreover have "proc_step 1 Term (example_processes False Before_wait ?cs) (example_processes True Before_wait ?cs)"
    using proc_step.term_signal [of "example_processes False Before_wait ?cs" 1] by (simp add: example_simps)
  moreover have "proc_step 1 Parent (example_processes True Before_wait ?cs) (example_processes True In_wait ?cs)"
    using proc_step.call_wait [of "example_processes True Before_wait ?cs" 1] by (simp add: example_simps)
  ultimately have r: "proc_reachable 1 example_supervisor (example_processes True In_wait ?cs)"
    using example_start by (blast intro: proc_reachable.step)
  let ?s = "example_processes True In_wait [example_child 10 Default_action False, example_child 11 Default_action False]"
  have "\<not> moves 1 ?s" by (rule blocked) (simp_all add: example_processes_def)
  then show ?thesis using example_setup [OF r] by (intro exI [of _ ?s]) (simp add: example_processes_def)
qed

text \<open>
  The lost signal: a worker that gets its SIGTERM before it has reset the action only notes it in its copy of the
  flag, which no worker reads.  It serves on, and the parent waits for it.
\<close>

lemma lost_signal:
  "\<exists>s. proc_reachable 1 example_supervisor s \<and> pr_pc s = Final_wait \<and> \<not> moves 1 s \<and>
     pr_children s = [example_child 11 Default_action True]"
proof -
  let ?a = "example_child 10 Forked" and ?b = "example_child 11 Forked"
  let ?st = "\<lambda>pc f g. example_processes True pc [?a f, ?b g]"
  have s1: "proc_step 1 Term (example_processes False Test_flag [?a False, ?b False]) (?st Test_flag False False)"
    using proc_step.term_signal [of "example_processes False Test_flag [?a False, ?b False]" 1] by (simp add: example_simps)
  have s2: "proc_step 1 Parent (?st Test_flag False False) (?st After_loop False False)"
    using proc_step.flag_set [of "?st Test_flag False False" 1] by (simp add: example_simps)
  have s3: "proc_step 1 Parent (?st After_loop False False) (?st (Killing [10, 11]) False False)"
    using proc_step.kill_all [of "?st After_loop False False" 1] by (simp add: example_simps)
  have s4: "proc_step 1 Parent (?st (Killing [10, 11]) False False) (?st (Killing [11]) True False)"
    using proc_step.kill_next [of "?st (Killing [10, 11]) False False" 10 "[11]" 1] by (simp add: example_simps)
  have s5: "proc_step 1 Parent (?st (Killing [11]) True False) (?st (Killing []) True True)"
    using proc_step.kill_next [of "?st (Killing [11]) True False" 11 "[]" 1] by (simp add: example_simps)
  have s6: "proc_step 1 Parent (?st (Killing []) True True) (?st Final_wait True True)"
    using proc_step.kill_end [of "?st (Killing []) True True" 1] by (simp add: example_simps)
  note step = proc_reachable.step
  have "proc_reachable 1 example_supervisor (?st Final_wait True True)"
    by (rule step [OF step [OF step [OF step [OF step [OF step [OF example_start s1] s2] s3] s4] s5] s6])
  then have r: "proc_reachable 1 example_supervisor
      (example_processes True Final_wait [example_child 10 Default_action True, example_child 11 Default_action True])"
    (is "proc_reachable _ _ ?s") by (rule example_setup)
  let ?e = "(example_child 10 Default_action True)\<lparr>ch_ended := True\<rparr>" and ?w = "example_child 11 Default_action True"
  have s7: "proc_step 1 Stop ?s (example_processes True Final_wait [?e, ?w])"
    using proc_step.reader_stop [of 0 ?s 1] by (simp add: example_simps)
  have s8: "proc_step 1 Parent (example_processes True Final_wait [?e, ?w]) (example_processes True Final_wait [?w])"
    using proc_step.final_child [of "example_processes True Final_wait [?e, ?w]" 0 1] by (simp add: example_simps)
  have "proc_reachable 1 example_supervisor (example_processes True Final_wait [?w])"
    by (rule step [OF step [OF r s7] s8])
  moreover have "\<not> moves 1 (example_processes True Final_wait [?w])"
    by (rule blocked) (simp_all add: example_processes_def)
  ultimately show ?thesis by (intro exI [of _ "example_processes True Final_wait [?w]"]) (simp add: example_processes_def)
qed

section \<open>Properties of the shutdown\<close>

text \<open>
  (C9) A SIGTERM that interrupts the supervisor's wait while every child has done its set-up stops the whole
  program: whatever the children do meanwhile, every run takes at most 5 n + 15 steps, and it
  can only end with the parent exited and every child reaped.
\<close>

theorem shutdown_completes:
  assumes "start_pool n reader_fork forks now_reader now_workers con shed = Inr sp"
    and "distinct (reader_fork # forks)" "0 \<notin> set (reader_fork # forks)"
    and "proc_reachable n sp s" "pr_pc s = In_wait"
    and "\<forall>c \<in> set (pr_children s). ch_ended c \<or> ch_stage c = Default_action"
    and "quiet_run n m (handle_sigterm s) t"
  shows "m \<le> 5 * n + 15 \<and> (moves n t \<or> pr_pc t = Exited \<and> pr_children t = [])"
proof -
  let ?s = "handle_sigterm s"
  have "proc_inv n s" using reachable_inv [OF assms(4) start_inv [OF assms(1-3)]] .
  then have s: "proc_inv n ?s" "pr_shutdown_requested ?s" "settled ?s"
    using assms(5,6) by (auto simp: proc_inv_def handle_sigterm_def settled_def)
  have t: "proc_inv n t" "pr_shutdown_requested t" "m + work n t \<le> work n ?s"
    using quiet_run_work [OF assms(7) s(2,1)] by auto
  have "settled t" using settled_run [OF assms(7) s(2,1,3)] .
  then have "pr_pc t = Exited \<and> pr_children t = []" if "\<not> moves n t"
    using unmoved_pc [OF that t(2,1)] by (auto simp: settled_def neq_Nil_conv)
  then show ?thesis using t(3) work_bound [OF s(1)] by auto
qed

theorem shutdown_completes_witness:
  "\<exists>s. proc_reachable 1 example_supervisor s \<and> pr_pc s = In_wait \<and>
     (\<forall>m t. quiet_run 1 m (handle_sigterm s) t \<longrightarrow> m \<le> 20 \<and> (moves 1 t \<or> pr_pc t = Exited \<and> pr_children t = []))"
proof -
  let ?s = "example_processes False In_wait [example_child 10 Default_action False, example_child 11 Default_action False]"
  have "m \<le> 20 \<and> (moves 1 t \<or> pr_pc t = Exited \<and> pr_children t = [])" if "quiet_run 1 m (handle_sigterm ?s) t" for m t
    using shutdown_completes [OF example_pool _ _ example_waiting _ _ that] by (simp add: example_processes_def)
  then show ?thesis using example_waiting by (intro exI [of _ ?s]) (simp add: example_processes_def)
qed

text \<open>
  (C28) What can become of a shutdown: once the flag is set, every run without a further SIGTERM is
  finite, and it ends in one of three ways.  The program has ended and all children are reaped; or the parent
  missed the signal between its test of the flag and the wait, and waits for a child to die; or a worker got its
  SIGTERM before it had reset the action and runs on, while the parent waits for it.
\<close>

theorem shutdown_outcome:
  assumes "start_pool n reader_fork forks now_reader now_workers con shed = Inr sp"
    and "distinct (reader_fork # forks)" "0 \<notin> set (reader_fork # forks)"
    and "proc_reachable n sp s" "pr_shutdown_requested s" "pr_pc s \<notin> {Done, Exited}" "quiet_run n m s t"
  shows "m \<le> 5 * n + 15 \<and>
    (moves n t \<or> pr_pc t = Exited \<and> pr_children t = [] \<or>
     pr_pc t = In_wait \<and> pr_children t \<noteq> [] \<and> (\<forall>c \<in> set (pr_children t). \<not> ch_ended c) \<or>
     pr_pc t = Final_wait \<and> pr_children t \<noteq> [] \<and>
       (\<forall>c \<in> set (pr_children t). \<not> ch_ended c \<and> \<not> ch_reader c \<and> ch_shutdown_requested c))"
proof -
  have s: "proc_inv n s" using reachable_inv [OF assms(4) start_inv [OF assms(1-3)]] .
  have t: "proc_inv n t" "pr_shutdown_requested t" "m + work n t \<le> work n s"
    using quiet_run_work [OF assms(7,5) s] by auto
  have empty: "pr_pc t \<in> {Done, Exited} \<longrightarrow> pr_children t = []"
    using quiet_run_empty [OF assms(7,5) s] assms(6) by blast
  have "pr_pc t = Exited \<and> pr_children t = [] \<or>
     pr_pc t = In_wait \<and> pr_children t \<noteq> [] \<and> (\<forall>c \<in> set (pr_children t). \<not> ch_ended c) \<or>
     pr_pc t = Final_wait \<and> pr_children t \<noteq> [] \<and>
       (\<forall>c \<in> set (pr_children t). \<not> ch_ended c \<and> \<not> ch_reader c \<and> ch_shutdown_requested c)" if nm: "\<not> moves n t"
  proof -
    note un = unmoved_pc [OF nm t(2,1)] unmoved_child(2) [OF nm]
    have "ch_shutdown_requested c" if "pr_pc t = Final_wait" "c \<in> set (pr_children t)" for c
      using t(1) that un(2) by (auto simp: proc_inv_def told_def)
    then show ?thesis using un empty by blast
  qed
  then show ?thesis using t(3) work_bound [OF s] by auto
qed

theorem shutdown_outcome_witness:
  "\<exists>s. proc_reachable 1 example_supervisor s \<and> pr_shutdown_requested s \<and> \<not> moves 1 s \<and> pr_pc s = In_wait \<and>
     pr_children s \<noteq> [] \<and> (\<forall>c \<in> set (pr_children s). \<not> ch_ended c)"
proof -
  obtain s where s: "proc_reachable 1 example_supervisor s" "pr_shutdown_requested s" "pr_pc s = In_wait" "\<not> moves 1 s"
    using missed_signal by blast
  from shutdown_outcome [OF example_pool _ _ s(1,2) _ quiet_run.here] s(3,4)
  have "pr_children s \<noteq> [] \<and> (\<forall>c \<in> set (pr_children s). \<not> ch_ended c)" by simp
  then show ?thesis using s by blast
qed

end
