(* ===== verification/Program.thy ===== *)
theory Program
  imports Shutdown Mock_Client
begin

text \<open>
  \<^verbatim>\<open>main\<close> of \<^verbatim>\<open>src/main.cpp\<close> as a whole: the options, the report of the configuration, the start, the pool of
  processes or the server on the standard streams, the clean-up, and the code with which the program ends.
  What the operating system answers is collected in one record.
\<close>

section \<open>What the program prints\<close>

definition newline :: string where
  "newline = [CHR 0x0A]"

definition help_lines :: "string list" where
  \<open>help_lines =
    [''FastCGI backend bridging CometVisu Protocol to knxd'',
     [],
     ''Usage: cometvisu-knxd-fcgi [OPTION]'',
     [],
     ''Options:'',
     ''  --version, -v   Print version information and exit'',
     ''  --help, -h      Print this help message and exit'',
     [],
     ''Environment variables:'',
     ''  KNXD_SOCKET           Path to the knxd Unix socket (default: /run/knx)'',
     ''  FCGI_SOCKET           Direct FCGI socket (unset = spawn-fcgi mode)'',
     ''  FCGI_WORKERS          Worker processes in direct socket mode (default: 20, max: 256)'',
     ''  LONGPOLL_TIMEOUT_SEC  Max seconds to wait in long-poll /r (default: 300)'',
     ''  ADDRESS_PREFIX        Namespace prefix for addresses without explicit prefix'',
     ''                        (default: empty = no prefix, e.g. set to "KNX")'',
     ''  BASE_URL              URL prefix advertised in login response (unset = omitted)'',
     ''                        (default: not set, e.g. /proxy/visu)'',
     ''  LOGIN_EXTRA_CONFIG    Raw JSON key-value pairs injected into login response'',
     ''                        "c" block (empty = none)'',
     ''  DEBUG_BACKEND         Set to 1 to enable debug logging to stderr'',
     [],
     ''When run without options, starts the FastCGI server loop.'']\<close>

definition help_text :: "build_info \<Rightarrow> string" where
  "help_text bi = version_line bi @ concat (map (\<lambda>l. l @ newline) help_lines)"

text \<open>The report of the configuration: a variable that is set but empty counts as set in the last two lines.\<close>

definition or_else :: "string \<Rightarrow> string \<Rightarrow> string" where
  "or_else text replacement = (if text \<noteq> [] then text else replacement)"

definition startup_report :: "environment \<Rightarrow> build_info \<Rightarrow> string" where
  "startup_report getenv bi =
     (let se = read_settings getenv; row = (\<lambda>name text. ''[INFO]   '' @ name @ text @ newline)
      in ''[INFO] cometvisu-knxd-fcgi '' @ app_version bi @ '' starting'' @ newline @
         ''[INFO] Configuration:'' @ newline @
         row ''KNXD_SOCKET           '' (se_knxd_socket se) @
         row ''FCGI_SOCKET           '' (or_else (se_fcgi_socket se) ''(not set, spawn-fcgi mode)'') @
         row ''FCGI_WORKERS          '' (to_string_int (se_num_workers se)) @
         row ''LONGPOLL_TIMEOUT_SEC  '' (to_string_int (se_longpoll_timeout se)) @
         row ''ADDRESS_PREFIX        '' (or_else (se_address_prefix se) ''(not set)'') @
         row ''BASE_URL              '' (case se_base_url se of Some u \<Rightarrow> or_else u ''(not set)'' | None \<Rightarrow> ''(not set)'') @
         row ''LOGIN_EXTRA_CONFIG    '' (case getenv ''LOGIN_EXTRA_CONFIG'' of Some x \<Rightarrow> x | None \<Rightarrow> ''(not set)'') @
         row ''DEBUG_BACKEND         '' (case getenv ''DEBUG_BACKEND'' of Some x \<Rightarrow> x | None \<Rightarrow> ''(not set)''))"

section \<open>The children\<close>

text \<open>The server of the cache reader: it does not listen.\<close>

definition reader_server :: "server \<Rightarrow> server" where
  "reader_server sv = (if is_listening sv then close_listen_socket sv else sv)"

text \<open>The handler of a worker over many requests; \<open>random i\<close> is the i-th number of its generator.\<close>

definition numbered_handler ::
    "'k knxd_ops \<Rightarrow> config \<Rightarrow> (nat \<Rightarrow> u64) \<Rightarrow> fcgi_request \<Rightarrow> nat \<times> 'k worker \<Rightarrow> (unit + fcgi_response) \<times> nat \<times> 'k worker" where
  "numbered_handler ops cfg random req s =
     (let (answer, wk) = worker_handler ops cfg (random (fst s)) req (snd s) in (answer, Suc (fst s), wk))"

text \<open>A worker from its start to its exit: the code, the responses, and its state.\<close>

definition worker_child ::
    "'k knxd_ops \<Rightarrow> config \<Rightarrow> (nat \<Rightarrow> u64) \<Rightarrow> string \<Rightarrow> int \<Rightarrow> int \<Rightarrow> debug_log \<Rightarrow> server
       \<Rightarrow> (nat \<times> 'k worker) accepted list \<Rightarrow> 'k worker \<Rightarrow> (int \<times> string list \<times> 'k worker) option" where
  "worker_child ops cfg random knxd_socket fcgx_init fcgx_init_request dl sv acs wk = do {
     k \<leftarrow> worker_connect ops knxd_socket (wk_knxd wk);
     case server_run fcgx_init fcgx_init_request dl sv (numbered_handler ops cfg random) acs [] (0, wk\<lparr>wk_knxd := k\<rparr>) of
       UB \<Rightarrow> None
     | Ret (child_result, out, _, wk) \<Rightarrow> Some (child_result, out, wk\<lparr>wk_knxd := kc_disconnect ops (wk_knxd wk)\<rparr>)
   }"

lemma accept_loop_length: "length (fst (accept_loop dl sems handler acs s)) = length acs"
  by (induction acs arbitrary: s) (simp_all add: case_prod_unfold Let_def)

text \<open>A worker answers every accepted request, in order, and leaves no connection behind.\<close>

context knxd_client
begin

lemma worker_child_answers:
  assumes "worker_child ops cfg random knxd_socket fcgx_init fcgx_init_request dl sv acs wk = Some (code, out, wk')"
    and "sv_has_handler sv" "is_listening sv"
  shows "(if fcgx_init = 0 \<and> fcgx_init_request = 0 then code = 0 \<and> length out = length acs else code = 1 \<and> out = []) \<and>
    \<not> kc_is_connected ops (wk_knxd wk')"
proof -
  obtain k where k: "worker_connect ops knxd_socket (wk_knxd wk) = Some k"
    using assms(1) by (cases "worker_connect ops knxd_socket (wk_knxd wk)") (auto simp: worker_child_def)
  note len = accept_loop_length [of dl "sv_sems sv" "numbered_handler ops cfg random" acs "(0, wk\<lparr>wk_knxd := k\<rparr>)"]
  show ?thesis
    using assms k len disconnect_closes
    by (auto simp: worker_child_def server_run_def run_direct_def is_listening_def case_prod_unfold Let_def split: if_splits)
qed

end

section \<open>The program\<close>

text \<open>
  The answers of the operating system to the calls of the parent: the results for the socket, the
  shared region and the two semaphores (the memory and the initialisation of each), the forks, the clocks, the
  events of the supervisor's loop, and the flag after it.
\<close>

record main_os =
  os_getenv :: environment
  os_open_socket :: "string \<Rightarrow> int \<Rightarrow> int"
  os_region :: "bool \<times> bool \<times> bool"
  os_load_shed :: "bool \<times> bool"
  os_concurrency :: "bool \<times> bool"
  os_reader_fork :: int
  os_forks :: "int list"
  os_now_reader :: int
  os_now_workers :: "int list"
  os_events :: "wait_event list"
  os_shutdown_flag :: bool

text \<open>
  \<^verbatim>\<open>sem_init\<close> refuses a value above \<^verbatim>\<open>SEM_VALUE_MAX\<close>; a negative number of workers is such a value after its
  conversion to \<^verbatim>\<open>unsigned\<close>.
\<close>

definition make_semaphore :: "bool \<times> bool \<Rightarrow> int \<Rightarrow> nat option" where
  "make_semaphore answers num_workers = create_semaphore (fst answers) (snd answers \<and> num_workers \<ge> 0) (nat num_workers)"

text \<open>The semaphores that the end of the program destroys.\<close>

definition cleanup_semaphores :: "nat option \<Rightarrow> nat option \<Rightarrow> semaphore list" where
  "cleanup_semaphores load_shed concurrency =
     (if load_shed \<noteq> None then [Load_shed] else []) @ (if concurrency \<noteq> None then [Concurrency] else [])"

text \<open>
  How \<^verbatim>\<open>main\<close> ends: with a code, the processes that were told to stop and the semaphores that were destroyed; or by an
  uncaught exception, when the vector of the workers gets a negative size.
\<close>

datatype main_end = Returns int "int list" "semaphore list" | Uncaught_exception

definition pool_main :: "main_os \<Rightarrow> int \<Rightarrow> main_end" where
  "pool_main e num_workers =
     (let load_shed = make_semaphore (os_load_shed e) num_workers;
          concurrency = make_semaphore (os_concurrency e) num_workers
      in if os_reader_fork e < 0 then Returns 1 [] []
         else if num_workers < 0 then Uncaught_exception
         else
           let (code, slept, stopped) = run_pool (nat num_workers) (os_reader_fork e) (os_forks e) (os_now_reader e)
                 (os_now_workers e) concurrency load_shed (os_events e) (os_shutdown_flag e)
           in Returns code stopped (cleanup_semaphores load_shed concurrency))"

text \<open>
  The whole of \<^verbatim>\<open>main\<close>: what it prints up to the start, and its end.  \<open>serve\<close> is what \<^verbatim>\<open>FcgiServer::run\<close> returns for the server
  that was set up; \<open>None\<close> when the check of the connection or the server has no defined result.
\<close>

definition program_main ::
    "'k knxd_ops \<Rightarrow> build_info \<Rightarrow> string list \<Rightarrow> main_os \<Rightarrow> (server \<Rightarrow> int outcome) \<Rightarrow> 'k \<Rightarrow> (string \<times> main_end) option" where
  "program_main ops bi args e serve k =
     (case parse_flag args of
        Print_version \<Rightarrow> Some (version_line bi, Returns 0 [] [])
      | Print_help \<Rightarrow> Some (help_text bi, Returns 0 [] [])
      | Start \<Rightarrow>
          let getenv = os_getenv e; se = read_settings getenv; report = startup_report getenv bi;
              has_sem = (\<lambda>answers. make_semaphore answers (se_num_workers se) \<noteq> None)
          in case startup args getenv (os_open_socket e) (os_region e) new_shared_group_cache
                    (has_sem (os_load_shed e), has_sem (os_concurrency e)) of
               Exits code \<Rightarrow> Some (report, Returns code [] [])
             | Stdio sv \<Rightarrow>
                 (case verify_knxd ops (se_knxd_socket se) k of
                    None \<Rightarrow> None
                  | Some _ \<Rightarrow> (case serve sv of UB \<Rightarrow> None | Ret code \<Rightarrow> Some (report, Returns code [] [])))
             | Pool sv cache \<Rightarrow>
                 (case verify_knxd ops (se_knxd_socket se) k of
                    None \<Rightarrow> None
                  | Some _ \<Rightarrow> Some (report, pool_main e (se_num_workers se))))"

section \<open>How the program ends\<close>

lemma startup_socket:
  assumes "parse_flag args = Start" "se_fcgi_socket (read_settings getenv) \<noteq> []"
  shows "startup args getenv open_socket region new_shared_group_cache sems =
    (if 0 \<le> open_socket (se_fcgi_socket (read_settings getenv)) 128 \<and> region = (True, True, True)
     then Pool \<lparr>sv_has_handler = True, sv_listen_fd = open_socket (se_fcgi_socket (read_settings getenv)) 128,
            sv_shutdown_requested = False, sv_sems = \<lparr>ss_concurrency = snd sems, ss_load_shed = fst sems\<rparr>\<rparr>
            \<lparr>sgc_data = Some zero_data, sgc_owns_mmap = True\<rparr>
     else Exits 1)"
  using assms
  by (cases region) (auto simp: startup_def server_listen_def listen_backlog_def sgc_create_def new_shared_group_cache_def
      new_server_def set_handler_def set_concurrency_semaphore_def set_load_shed_semaphore_def Let_def)

lemma start_workers_ok: "n \<le> length forks \<and> (\<forall>p \<in> set (take n forks). 0 \<le> p) \<longleftrightarrow> \<not> snd (start_workers n forks)"
  by (induction n forks rule: start_workers.induct) (auto split: prod.splits)

lemma run_pool_code:
  "fst (run_pool n r forks nr nw con shed evs flag) = (if 0 \<le> r \<and> \<not> snd (start_workers n forks) then 0 else 1)"
  by (auto simp: run_pool_def start_pool_def split: prod.splits)

lemma run_pool_stopped:
  assumes "run_pool n r forks nr nw con shed evs flag = (0, slept, stopped)" "distinct (r # forks)" "0 \<notin> set (r # forks)"
    and "possible_events evs (insert r (set (take n forks)))" "flag"
  shows "os_children evs (insert r (set (take n forks))) \<subseteq> set stopped"
proof -
  obtain sp where sp: "start_pool n r forks nr nw con shed = Inr sp"
    using assms(1) by (auto simp: run_pool_def start_pool_def split: if_splits prod.splits)
  obtain sl sp' where r: "supervise n evs sp = (sl, sp')" by (cases "supervise n evs sp")
  have "proc_inv n (start_processes sp)" using start_inv [OF sp assms(2,3)] .
  then have "distinct (known_children sp)" by (simp add: proc_inv_def start_processes_def)
  moreover have "set (known_children sp) = insert r (set (take n forks))"
    using start_pool_Inr [OF sp] assms(3) by (auto simp: stop_children_def order_less_le dest: in_set_takeD)
  ultimately have "os_children evs (insert r (set (take n forks))) \<subseteq> set (known_children sp')"
    using supervise_known [OF r] assms(4) by auto
  then show ?thesis using assms(1,5) sp r by (auto simp: run_pool_def)
qed

text \<open>
  (C29) How the program ends when it serves a socket: with code 0 exactly when the socket was
  opened, the shared region was created and every first fork succeeded, and then the semaphores it had
  created are destroyed, and after a shutdown every child that still runs was told to stop; otherwise
  with code 1, and every child that was started before a failed fork was told to stop.
\<close>

theorem program_ends:
  assumes "program_main ops bi args e serve k = Some (out, Returns code stopped sems)" "parse_flag args = Start"
    and "se_fcgi_socket (read_settings (os_getenv e)) = sock" "sock \<noteq> []"
    and "n = nat (se_num_workers (read_settings (os_getenv e)))"
    and "distinct (os_reader_fork e # os_forks e)" "0 \<notin> set (os_reader_fork e # os_forks e)"
    and "possible_events (os_events e) (insert (os_reader_fork e) (set (take n (os_forks e))))"
  shows "if 0 \<le> os_open_socket e sock 128 \<and> os_region e = (True, True, True) \<and> 0 \<le> os_reader_fork e \<and>
      n \<le> length (os_forks e) \<and> (\<forall>p \<in> set (take n (os_forks e)). 0 \<le> p)
    then code = 0 \<and> sems = (if os_load_shed e = (True, True) then [Load_shed] else []) @
        (if os_concurrency e = (True, True) then [Concurrency] else []) \<and>
      (os_shutdown_flag e \<longrightarrow> os_children (os_events e) (insert (os_reader_fork e) (set (take n (os_forks e)))) \<subseteq> set stopped)
    else code = 1 \<and> (if 0 \<le> os_open_socket e sock 128 \<and> os_region e = (True, True, True) \<and> 0 \<le> os_reader_fork e
      then \<exists>i < n. stopped = os_reader_fork e # take i (os_forks e) else stopped = [])"
proof -
  let ?num = "se_num_workers (read_settings (os_getenv e))" and ?r = "os_reader_fork e" and ?fs = "os_forks e"
  let ?up = "0 \<le> os_open_socket e sock 128 \<and> os_region e = (True, True, True)"
  show ?thesis
  proof (cases "?up \<and> 0 \<le> ?r")
    case False
    then show ?thesis
      using assms(1-4) by (auto simp: program_main_def startup_socket pool_main_def Let_def split: option.splits if_splits)
  next
    case True
    then have pool: "pool_main e ?num = Returns code stopped sems"
      using assms(1-4) by (auto simp: program_main_def startup_socket Let_def split: option.splits)
    then have num: "0 \<le> ?num" using True by (auto simp: pool_main_def Let_def split: if_splits)
    obtain c sl st where r: "run_pool n ?r ?fs (os_now_reader e) (os_now_workers e) (make_semaphore (os_concurrency e) ?num)
        (make_semaphore (os_load_shed e) ?num) (os_events e) (os_shutdown_flag e) = (c, sl, st)" (is "?run = _")
      by (cases ?run)
    have fin: "code = c" "stopped = st" "sems = cleanup_semaphores (make_semaphore (os_load_shed e) ?num) (make_semaphore (os_concurrency e) ?num)"
      using pool True num r assms(5) by (auto simp: pool_main_def Let_def)
    have code: "code = (if \<not> snd (start_workers n ?fs) then 0 else 1)"
      using run_pool_code [of n ?r ?fs] r True fin(1) by (metis fst_conv)
    show ?thesis
    proof (cases "snd (start_workers n ?fs)")
      case failed: True
      have "0 \<notin> set ?fs" "?r \<noteq> 0" using assms(7) by auto
      from failed_start_stops_children [OF r this(2,1)] failed True fin code show ?thesis
        unfolding start_workers_ok by auto
    next
      case ok: False
      have "os_children (os_events e) (insert ?r (set (take n ?fs))) \<subseteq> set stopped" if "os_shutdown_flag e"
        using run_pool_stopped [of n ?r ?fs] r fin code ok assms(6-8) that by auto
      then show ?thesis
        unfolding start_workers_ok using True ok code fin(3) num
        by (cases "os_load_shed e"; cases "os_concurrency e")
          (auto simp: cleanup_semaphores_def make_semaphore_def create_semaphore_def)
    qed
  qed
qed

text \<open>One worker, and a shutdown before anything happened.\<close>

definition example_os :: main_os where
  "example_os = \<lparr>
     os_getenv = (\<lambda>name. if name = ''FCGI_SOCKET'' then Some '':9000'' else if name = ''FCGI_WORKERS'' then Some ''1'' else None),
     os_open_socket = (\<lambda>path backlog. 3), os_region = (True, True, True), os_load_shed = (True, True),
     os_concurrency = (True, True), os_reader_fork = 10, os_forks = [11], os_now_reader = 0, os_now_workers = [0],
     os_events = [], os_shutdown_flag = True\<rparr>"

lemma example_settings:
  "se_fcgi_socket (read_settings (os_getenv example_os)) = '':9000''"
  "se_num_workers (read_settings (os_getenv example_os)) = 1"
proof -
  have "strtol10 ''1'' = Some (1, [])" by (simp add: strtol10_eval)
  then show "se_num_workers (read_settings (os_getenv example_os)) = 1"
    by (simp add: example_os_def read_settings_def parse_env_int_def)
qed (simp add: example_os_def read_settings_def get_env_default_def)

lemma mock_verified: "\<exists>k. verify_knxd mock_ops path new_mock = Some k"
proof -
  have "\<exists>slept k. connect_knxd_with_retry mock_ops path False None new_mock = Some (True, slept, k)"
    unfolding connect_knxd_with_retry_def Let_def
    by (subst retry_loop.simps) (simp add: mock_ops_def mock_connect_def new_mock_def Let_def)
  then obtain slept k where c: "connect_knxd_with_retry mock_ops path False None new_mock = Some (True, slept, k)" by blast
  have "kc_open_group_socket mock_ops False k = Some (mock_open_group_socket False k)" by (simp add: mock_ops_def)
  then show ?thesis using c by (cases "mock_open_group_socket False k") (simp add: verify_knxd_def)
qed

theorem program_ends_witness:
  "\<exists>out stopped. program_main mock_ops \<lparr>bi_app_version = None, bi_git_hash = None, bi_knxd_build_version = None,
     bi_knxd_build_git_hash = None\<rparr> [] example_os (\<lambda>sv. Ret 0) new_mock = Some (out, Returns 0 stopped [Load_shed, Concurrency]) \<and>
     {10, 11} \<subseteq> set stopped"
proof -
  let ?bi = "\<lparr>bi_app_version = None, bi_git_hash = None, bi_knxd_build_version = None, bi_knxd_build_git_hash = None\<rparr>"
  have os: "os_reader_fork example_os = 10" "os_forks example_os = [11]" "os_events example_os = []"
    "os_open_socket example_os = (\<lambda>path backlog. 3)" "os_region example_os = (True, True, True)" "os_shutdown_flag example_os"
    "os_load_shed example_os = (True, True)" "os_concurrency example_os = (True, True)"
    by (simp_all add: example_os_def)
  have flag: "parse_flag [] = Start" by (simp add: parse_flag_def)
  obtain code stopped sems where "pool_main example_os 1 = Returns code stopped sems"
    by (cases "pool_main example_os 1") (auto simp: pool_main_def os case_prod_unfold Let_def)
  then have run: "program_main mock_ops ?bi [] example_os (\<lambda>sv. Ret 0) new_mock =
      Some (startup_report (os_getenv example_os) ?bi, Returns code stopped sems)"
    using mock_verified
    by (auto simp: program_main_def flag startup_socket [OF flag] example_settings os Let_def split: option.splits)
  from program_ends [OF run flag example_settings(1)] have "code = 0 \<and> sems = [Load_shed, Concurrency] \<and> {10, 11} \<subseteq> set stopped"
    by (simp add: example_settings(2) os)
  then show ?thesis using run by blast
qed

text \<open>A number of workers that wraps around ends the program by an exception, after the cache reader was started.\<close>

lemma negative_workers_abort:
  assumes "0 \<le> os_reader_fork e" "se_num_workers (read_settings (os_getenv e)) < 0"
  shows "pool_main e (se_num_workers (read_settings (os_getenv e))) = Uncaught_exception"
  using assms by (simp add: pool_main_def Let_def)

end
