(* ===== verification/Spec2Isabelle.thy ===== *)
theory Spec2Isabelle
  imports Hex Json_Builder Query_String Session_Store Group_Cache Worker_World Knxd_Connector Cache_Reader
    Mock_Client Fcgi_Server Router Debug_Log Supervisor Worker_Pool Crash_Recovery Program
begin

text \<open>
  A verification development for cometvisu-knxd-fcgi, the FastCGI backend that connects the browser
  side of CometVisu to the KNX bus through the daemon knxd.

  \<^bold>\<open>The program.\<close>  A supervisor process (\<^verbatim>\<open>src/main.cpp\<close>) forks one cache reader and a pool of workers.  The
  cache reader (\<^verbatim>\<open>src/knxd/cache_reader.cpp\<close>) holds the only reading connection to knxd (\<^verbatim>\<open>src/knxd/knxd_client.cpp\<close>, \<^verbatim>\<open>src/knxd/knxd_protocol.cpp\<close>) and pushes the
  value of every group telegram into a hash table in shared memory (\<^verbatim>\<open>src/state/shared_group_cache.cpp\<close>).  Each worker accepts
  FastCGI requests (\<^verbatim>\<open>src/fcgi/fcgi_server.cpp\<close>), extracts the endpoint path (\<^verbatim>\<open>src/fcgi/fcgi_request.cpp\<close>), and dispatches it (\<^verbatim>\<open>src/router/router.cpp\<close>) to
  one of three handlers: login (\<^verbatim>\<open>src/handlers/login_handler.cpp\<close>) creates a session (\<^verbatim>\<open>src/state/session_store.cpp\<close>), write (\<^verbatim>\<open>src/handlers/write_handler.cpp\<close>) sends a group packet
  through the worker's own knxd connection, and read (\<^verbatim>\<open>src/handlers/read_handler.cpp\<close>) answers from the shared table, waiting
  for new telegrams when there are none.  Requests are decoded by \<^verbatim>\<open>src/util/query_string.cpp\<close> and \<^verbatim>\<open>src/util/hex.cpp\<close>, answers are written
  by \<^verbatim>\<open>src/util/json_builder.cpp\<close>; \<^verbatim>\<open>src/util/debug_log.cpp\<close> logs both sides.

  \<^bold>\<open>Theories and what they model.\<close>  Definitions carry the names of the functions they translate.

  \<^item> \<open>Prelude\<close>, \<open>Cpp_Std\<close>: word types for the fixed-width integers, results with undefined behaviour
    (\<open>outcome\<close>), and the library functions the sources call (\<open>std::to_string\<close>, \<open>from_chars\<close>, \<open>strtol\<close>,
    searching in strings).
  \<^item> \<open>Codec\<close>, \<open>Cache_Contract\<close>, \<open>Knxd_Interface\<close>, \<open>Backoff\<close>: the interfaces as locales.  \<open>codec\<close> is
    interpreted by hex strings, group addresses, eibd messages and JSON documents; \<open>telegram_cache\<close> by both
    caches; \<open>knxd_client\<close> by the real client and by the mock of the tests; \<open>doubling_backoff\<close> by the
    reader and by the restart delays of the supervisor; \<open>session_service\<close> (in \<open>Session_Store\<close>) by the store.
  \<^item> \<open>Hex\<close>, \<open>Query_String\<close>, \<open>Json_Builder\<close>, \<open>Debug_Log\<close>: the utilities.
  \<^item> \<open>Session_Store\<close>, \<open>Group_Cache\<close>, \<open>Shared_Group_Cache\<close>: the state, as records with one function per method.
    The shared table is a list of 2048 entries with linear probing, as in the source.
  \<^item> \<open>Knxd_Protocol\<close>, \<open>Knxd_Client\<close>, \<open>Mock_Client\<close>, \<open>Knxd_Connector\<close>, \<open>Cache_Reader\<close>: the bus side.  System
    calls are a record \<open>'e os\<close> of functions on an unknown environment; what the client relies on (a
    write accepts at most what it is given, time does not run backwards, polls end) are named
    predicates on that record.
  \<^item> \<open>Worker_World\<close>, \<open>Worker_State\<close>: one worker and everything around it.  Other processes act through an
    agenda of activities (pushes, clock values, lock results, wakeups) consumed wherever the worker locks,
    reads an atomic, reads a clock or waits; quantifying over agendas quantifies over interleavings.
  \<^item> \<open>Login_Handler\<close>, \<open>Write_Handler\<close>, \<open>Read_Handler\<close>, \<open>Fcgi_Request\<close>, \<open>Router\<close>, \<open>Fcgi_Server\<close>: the path of a
    request, from the environment array to the bytes of the response.
  \<^item> \<open>Crash_Recovery\<close>: a process that dies inside the shared cache.  \<open>interrupted_push\<close> is the memory that a push
    leaves when it is cut off after any of its writes; the robust mutex is a step relation on its users.
  \<^item> \<open>Supervisor\<close>, \<open>Worker_Pool\<close>, \<open>Shutdown\<close>, \<open>Program\<close>: \<^verbatim>\<open>src/main.cpp\<close>.  \<open>supervise\<close> folds the loop over the results
    of \<open>wait\<close>; the pool is a step relation on the two semaphores and the phases of the workers; \<open>proc_step\<close> interleaves
    the parent, its children and the SIGTERM signals; \<open>program_main\<close> is \<^verbatim>\<open>main\<close> from its options to its exit code.

  \<^bold>\<open>What the lemmas show.\<close>
  \<^item> Shared cache: the hashed table refines a plain map; a delta holds the last value of everything pushed
    since the client's position and nothing it has seen; a wait misses no push.  A push that dies half-way
    spoils at most its own address, and the mutex recovers unless a condition wait finds it abandoned.
  \<^item> knxd client: messages are reassembled from arbitrary reads, writes are complete or a proper prefix,
    all calls return, sends keep their distance.
  \<^item> Cache reader: draining fills the cache in order; the loop never spins, backs off as configured, and
    stops when told to.
  \<^item> Handlers: answers are well-formed JSON with values that were cached; a long poll loses nothing; a
    first read is complete; a write sends exactly its packets; every read returns.
  \<^item> Server, supervisor and pool: tokens are returned on every path, crashes never cost capacity, the table
    of children is the set of running children, restarts are paced and back off.  A shutdown of settled children
    ends the program within a bounded number of steps, and the three ways in which any shutdown can end are
    listed; the exit code of the program and what it has cleaned up are determined.
  \<^item> Utilities: round trips of hex, addresses, frames and JSON; the query parser equals a reference and is
    bounded.
  \<^item> This theory: values read are values that came from the bus, a value written by one browser is the
    value another one reads, and a read request travels unchanged from the FastCGI parameters through the
    accept loop and the router to the handler and its answer back into the bytes of the response.

  Several lemmas state where the code departs from its documentation; they are plain lemmas beside the
  definitions, e.g. \<open>push_address_0_lost\<close>, \<open>update_between_get_and_position_lost\<close>, \<open>failed_fork_final\<close>,
  \<open>capacity_exceeds_workers\<close>, \<open>parse_env_int_wraps\<close>, \<open>missed_signal\<close>, \<open>lost_signal\<close>, \<open>wait_loses_mutex\<close> and, below, \<open>stdio_mode_cannot_write\<close>.

  \<^bold>\<open>Termination and bounds.\<close>  Loops over data are total functions with a measure.  Loops that depend on the
  operating system are \<open>partial_function (option)\<close>, \<open>None\<close> meaning that the loop does not return or that
  the behaviour is undefined; that they return is proved under the laws of the environment
  (\<open>client_operations_return\<close>, \<open>reader_stops\<close>, \<open>read_returns\<close>).  There is no fuel: the long poll terminates because each
  wakeup consumes an activity of the finite agenda, and the supervisor is a fold over the given events,
  so its facts hold for every prefix of a run;
  the step relations bound the length of a shutdown by \<open>5 n + 15\<close> steps for \<open>n\<close> workers.  The delta facts need fewer than \<open>kPositionModulus\<close> =
  100000 pushes between two polls, the capacity facts at most 2048 addresses; the lemmas on full tables
  and on address 0 show what happens beyond.

  \<^bold>\<open>Parameters.\<close>  The numbers of \<open>eibtypes.h\<close>, the functions of libfcgi, the order in which an
  \<open>unordered_map\<close> is iterated, the macros of the build, clocks, random numbers and all system calls are
  arguments.

  \<^bold>\<open>Not modelled.\<close>  The wording of log lines on the standard streams outside \<open>DebugLog\<close>, the options and the start-up report,
  since nothing reads them; the failure of \<^verbatim>\<open>sigaction\<close>, \<^verbatim>\<open>signal\<close> and \<^verbatim>\<open>prctl\<close>, whose effects \<open>Shutdown\<close> takes for granted; the
  growth of vectors, of which only \<open>shrink_if_large\<close> is a definition; the move operations of the client
  object, which no code of the program calls; a SIGTERM during the first forks, before the
  supervisor's loop begins.  The test programs call the modelled operations and hold no logic of the program.  The delays of the
  reader are unbounded integers; with options above \<open>2^30\<close> ms the doubling would overflow an \<open>int\<close>, which
  the values that \<open>main\<close> passes (at most 30000 ms) exclude.
\<close>


section \<open>From the bus to the browser\<close>

lemma cached_last:
  assumes "0 \<notin> addrs ps" "card (addrs ps) \<le> kSharedCacheCapacity" "last_push a ps = Some v"
    and "sgc_data c = Some (push_all push_locked ps zero_data)"
  shows "cached c a w \<longleftrightarrow> w = take kMaxSharedValueBytes v"
proof -
  obtain xs t ys where ps: "ps = xs @ (t, a, v) # ys" "a \<notin> addrs ys" using assms(3) by (rule last_push_split)
  have "get_locked 0 a (-1) (push_all push_locked ps zero_data) = Some (take kMaxSharedValueBytes v)"
    using sgc.lookup_last [OF table_inv_zero, of xs t a v ys 0 "-1"] pushes_accepted [OF assms(1,2)] ps
    by (simp add: fresh_def clip14_def)
  then show ?thesis using assms(4) by (auto simp: cached_def sgc_get_def)
qed

lemma drained_region:
  assumes "delivers ops (rd_knxd rd) tgs k'" "lock_works env" "sgc_data (rd_cache rd) = Some zero_data"
    and "drain_telegrams ops env rd = Some (m, rd')"
  shows "\<exists>ps. map snd ps = telegram_values tgs \<and> m = length ps \<and> sgc_data (rd_cache rd') = Some (push_all push_locked ps zero_data)"
proof -
  obtain ps where "drain_telegrams ops env rd = Some (length (telegram_values tgs), rd')" "m = length (telegram_values tgs)"
    and ps: "map snd ps = telegram_values tgs" "rd_cache rd' = push_all (sgc_push Lock_ok) ps (rd_cache rd)"
    using drain_loop_delivers [OF assms(1,2) refl, of 0] assms(4) by (auto simp: drain_telegrams_def)
  moreover have "length ps = length (telegram_values tgs)" using arg_cong [OF ps(1), of length] by simp
  ultimately show ?thesis using assms(3) by (auto simp: push_all_data)
qed

lemma addrs_snd: "addrs ps = fst ` set (map snd ps)"
  by (simp add: image_image)

text \<open>A first read while nobody pushes to the address gives the last value pushed to it before.\<close>

lemma first_read_last:
  assumes "read_handle ops cfg qs wk = Some (r, wk')" "rr_http_status r = 200" "hash_order_law cfg"
    and "qs_get (query_string qs) ''t'' = None" "request_index (query_string qs) = 0"
    and "history ps (wk_world wk)" "locks_work (wk_world wk)"
    and "a \<in> set (targets (cf_default_namespace cfg) (qs_get_all (query_string qs) ''a''))"
    and "last_push a ps = Some v" "ordinary (ps @ all_pushes (w_agenda (wk_world wk)))"
    and "a \<notin> addrs (all_pushes (w_agenda (wk_world wk)))"
  shows "\<exists>vs i. rr_body r = render (JObject (read_document (cf_default_namespace cfg) vs i)) \<and>
    (a, take kMaxSharedValueBytes v) \<in> set vs"
proof -
  let ?w = "wk_world wk"
  have small: "0 \<notin> addrs (ps @ all_pushes as) \<and> card (addrs (ps @ all_pushes as)) \<le> kSharedCacheCapacity \<and>
      last_push a (ps @ all_pushes as) = Some v" if "evolves as ?w w2" for as w2
  proof -
    have "w_agenda ?w = as @ w_agenda w2" using that by (simp add: evolves_def)
    then have sub: "addrs (all_pushes as) \<subseteq> addrs (all_pushes (w_agenda ?w))" by auto
    then have all: "addrs (ps @ all_pushes as) \<subseteq> addrs (ps @ all_pushes (w_agenda ?w))"
      unfolding set_append image_Un by blast
    have "card (addrs (ps @ all_pushes as)) \<le> card (addrs (ps @ all_pushes (w_agenda ?w)))"
      by (rule card_mono [OF _ all]) (intro finite_imageI finite_set)
    moreover have "last_push a (all_pushes as) = None"
      unfolding last_push_None by (rule contra_subsetD [OF sub assms(11)])
    then have "last_push a (ps @ all_pushes as) = Some v" using assms(9) by (simp add: last_push_def map_add_def)
    moreover have "0 \<notin> addrs (ps @ all_pushes as)"
      using assms(10) contra_subsetD [OF all, of 0] unfolding ordinary_def by simp
    ultimately show ?thesis using assms(10) unfolding ordinary_def by linarith
  qed
  have c: "cached (w_cache wm) a u \<longleftrightarrow> u = take kMaxSharedValueBytes v" if "evolves as ?w wm" for as wm u
    using small [OF that] cached_last [of "ps @ all_pushes as" a v "w_cache wm" u] history_evolves [OF assms(6) that]
    by (simp add: history_def)
  have "a \<noteq> 0" using small [OF evolves_refl] assms(9) last_push_None [of a ps] by force
  from first_read_answer [OF assms(1-8) this] c [OF evolves_refl]
  obtain vs i w' where vs: "rr_body r = render (JObject (read_document (cf_default_namespace cfg) vs i))"
    "a \<in> fst ` set vs" "\<forall>av \<in> set vs. seen_during ?w w' av" by blast
  obtain u where u: "(a, u) \<in> set vs" using vs(2) by auto
  then have "u = take kMaxSharedValueBytes v" using vs(3) c by (fastforce simp: seen_during_def)
  then show ?thesis using vs(1) u by blast
qed

lemma telegram_values_append: "telegram_values (xs @ ys) = telegram_values xs @ telegram_values ys"
  by (induction xs rule: telegram_values.induct) (auto split: option.split)

lemma telegram_values_same:
  assumes "parse_apdu apdu = Some (ty, v)" "ty \<noteq> ApduRead"
  shows "telegram_values (map (\<lambda>a. (a, apdu)) ts) = map (\<lambda>a. (a, v)) ts"
  by (induction ts) (simp_all add: assms)

lemma last_value_written:
  assumes "map snd ps = telegram_values tgs @ map (\<lambda>a. (a, v)) ts" "a \<in> set ts"
  shows "last_push a ps = Some v"
proof -
  have "map_of (map (\<lambda>a. (a, v)) (rev ts)) a = Some v" using assms(2) by (simp add: map_of_map_restrict)
  then show ?thesis by (simp add: last_push_def assms(1) rev_map map_add_def)
qed

lemma all_sent:
  assumes "False \<notin> set sents" "length sents = length ts"
  shows "map (\<lambda>as. (fst as, apdu)) (filter snd (zip ts sents)) = map (\<lambda>a. (a, apdu)) ts"
  using assms(2,1) by (induction sents ts rule: list_induct2) auto

definition payload :: "byte \<Rightarrow> bytes \<Rightarrow> bytes" where
  "payload b bs = (if bs = [] then [b AND 0x3F] else bs)"

text \<open>The status of a write whose sends have returned.\<close>

lemma write_handle_status:
  assumes "qs_get_all (query_string qs) ''a'' = addresses" "qs_get (query_string qs) ''v'' = Some v"
    and "write_apdu v = Some apdu" "check_session (query_string qs) wk = (True, wk1)"
    and "ts = targets (cf_default_namespace cfg) addresses" "ts \<noteq> []"
    and "send_each ops apdu ts (wk_knxd wk1) = Some (sents, k)"
  shows "\<exists>w. write_handle ops cfg qs wk = Some (w, wk1\<lparr>wk_knxd := k\<rparr>) \<and>
    wr_http_status w = (if False \<in> set sents then 503 else 200)"
proof -
  obtain b bs where h: "hex_decode v = b # bs" "b AND 0x80 = 0x80" "apdu = 0 # b # bs"
    using assms(3) by (auto simp: write_apdu_def split: list.splits if_splits)
  have "addresses \<noteq> []" using assms(5,6) by auto
  then show ?thesis
    using assms h by (simp add: write_handle_def write_loop_send_each new_write_result_def Let_def)
qed


definition example_drain :: "(mock, nat) reader" where
  "example_drain = example_reader (new_mock\<lparr>mk_telegram_queue := [(0x0A03, [0, 0x80, 0x42])]\<rparr>)"

lemma example_write_query:
  "query_string ''a=1/2/3&v=8042'' = [(''a'', [''1/2/3'']), (''v'', [''8042''])]" "write_apdu ''8042'' = Some [0, 0x80, 0x42]"
  by code_simp+

lemma example_drain_delivers:
  "\<exists>k'. delivers mock_ops (rd_knxd example_drain) [(0x0A03, [0, 0x80, 0x42])] k'"
  by (simp add: delivers_Cons delivers_Nil mock_ops_def mock_poll_group_telegram_def start_reader_def example_drain_def)

lemma example_read_ok:
  assumes "sgc_data c \<noteq> None"
  shows "\<exists>r wk'. read_handle mock_ops example_config ''a=1/2/3''
      ((example_worker [] open_mock)\<lparr>wk_world := (example_world [])\<lparr>w_cache := c\<rparr>\<rparr>) = Some (r, wk') \<and> rr_http_status r = 200"
proof -
  let ?wk = "(example_worker [] open_mock)\<lparr>wk_world := (example_world [])\<lparr>w_cache := c\<rparr>\<rparr>"
  have q: "qs_get_all (query_string ''a=1/2/3'') ''a'' = [''1/2/3'']" "qs_get (query_string ''a=1/2/3'') ''s'' = None"
    "qs_get (query_string ''a=1/2/3'') ''t'' = None"
    by (simp_all add: example_queries qs_get_all_def qs_get_def)
  have e: "eib_addrs (cf_default_namespace example_config) [''1/2/3''] [] \<noteq> []" by code_simp
  have t: "read_timing_of example_config (query_string ''a=1/2/3'') = Some \<lparr>rt_timeout_sec = 300, rt_max_age_sec = -1,
      rt_lastpos = request_index (query_string ''a=1/2/3''), rt_bus_read = False\<rparr>"
    using q(3) by (simp add: read_timing_of_def example_config_def)
  let ?t = "w_steady (example_world [])"
  have c: "clock_ok ?t ?t (wk_world ?wk)" by (simp add: clock_ok_def agenda_clock_def)
  show ?thesis by (rule read_handle_ok [OF q(1,2) t _ e _ _ c]) (use assms in \<open>simp_all add: mock_ops_def\<close>)
qed


text \<open>
  (C6) Nothing is made up: whatever a successful read answers, for every address but 0/0/0, is the value of
  a telegram for that very address, delivered to the cache reader before the request or, in any
  interleaving, while it runs.
\<close>

theorem answers_come_from_bus:
  assumes "delivers ops1 (rd_knxd rd) tgs k'" "lock_works env" "sgc_data (rd_cache rd) = Some zero_data"
    and "drain_telegrams ops1 env rd = Some (m, rd')" "w_cache (wk_world wk) = rd_cache rd'"
    and "map snd (all_pushes (w_agenda (wk_world wk))) = telegram_values tgs2"
    and "read_handle ops2 cfg qs wk = Some (r, wk')" "rr_http_status r = 200" "hash_order_law cfg"
  shows "\<exists>vs i. rr_body r = render (JObject (read_document (cf_default_namespace cfg) vs i)) \<and>
    (\<forall>(a, v) \<in> set vs. a \<noteq> 0 \<longrightarrow>
      (\<exists>u. (a, u) \<in> set (telegram_values (tgs @ tgs2)) \<and> v = take kMaxSharedValueBytes u))"
proof -
  let ?w = "wk_world wk"
  obtain ps where ps: "map snd ps = telegram_values tgs" "sgc_data (rd_cache rd') = Some (push_all push_locked ps zero_data)"
    using drained_region [OF assms(1-4)] by blast
  have h: "history ps ?w" using ps(2) assms(5) by (simp add: history_def)
  have pushed: "\<exists>u. (a, u) \<in> set (telegram_values (tgs @ tgs2)) \<and> v = take kMaxSharedValueBytes u"
    if av: "evolves as ?w wm" "cached (w_cache wm) a v" "a \<noteq> 0" for as wm a v
  proof -
    have "get_locked 0 a (-1) (push_all push_locked (ps @ all_pushes as) zero_data) = Some v"
      using av(2) history_evolves [OF h av(1)] by (simp add: history_def cached_def sgc_get_def)
    then obtain t u where u: "(t, a, u) \<in> set (ps @ all_pushes as)" "v = take kMaxSharedValueBytes u"
      using cached_pushed [OF _ av(3)] by blast
    have "set (all_pushes as) \<subseteq> set (all_pushes (w_agenda ?w))" using av(1) by (auto simp: evolves_def)
    then have "(t, a, u) \<in> set ps \<union> set (all_pushes (w_agenda ?w))" using u(1) unfolding set_append by blast
    then have "snd (t, a, u) \<in> snd ` (set ps \<union> set (all_pushes (w_agenda ?w)))" by (rule imageI)
    then have "(a, u) \<in> set (map snd ps) \<union> set (map snd (all_pushes (w_agenda ?w)))"
      unfolding image_Un set_map snd_conv .
    then show ?thesis using u(2) unfolding ps(1) assms(6) telegram_values_append set_append by blast
  qed
  obtain vs i where vs: "rr_body r = render (JObject (read_document (cf_default_namespace cfg) vs i))"
    "\<forall>av \<in> set vs. seen_during ?w (wk_world wk') av"
    using read_answer [OF assms(7-9)] by blast
  have "\<forall>(a, v) \<in> set vs. a \<noteq> 0 \<longrightarrow> (\<exists>u. (a, u) \<in> set (telegram_values (tgs @ tgs2)) \<and> v = take kMaxSharedValueBytes u)"
    using vs(2) pushed by (fastforce simp: seen_during_def)
  with vs(1) show ?thesis by blast
qed

theorem answers_come_from_bus_witness:
  "\<exists>m rd' r wk' vs i. drain_telegrams mock_ops countdown_env example_drain = Some (m, rd') \<and>
     read_handle mock_ops example_config ''a=1/2/3''
       ((example_worker [] open_mock)\<lparr>wk_world := (example_world [])\<lparr>w_cache := rd_cache rd'\<rparr>\<rparr>) = Some (r, wk') \<and>
     rr_body r = render (JObject (read_document [] vs i)) \<and> (\<forall>(a, v) \<in> set vs. a \<noteq> 0 \<longrightarrow> v = [0x42])"
proof -
  let ?tgs = "[(0x0A03, [0, 0x80, 0x42])] :: (u16 \<times> bytes) list"
  obtain k' where k': "delivers mock_ops (rd_knxd example_drain) ?tgs k'" using example_drain_delivers by blast
  have z: "sgc_data (rd_cache example_drain) = Some zero_data" by (simp add: example_drain_def start_reader_def)
  obtain m rd' where dr: "drain_telegrams mock_ops countdown_env example_drain = Some (m, rd')"
    using drain_loop_delivers [OF k' example_envs(2) refl, of 0] by (auto simp: drain_telegrams_def)
  have "sgc_data (rd_cache rd') \<noteq> None" using drained_region [OF k' example_envs(2) z dr] by auto
  from example_read_ok [OF this] obtain r wk' where r: "read_handle mock_ops example_config ''a=1/2/3''
      ((example_worker [] open_mock)\<lparr>wk_world := (example_world [])\<lparr>w_cache := rd_cache rd'\<rparr>\<rparr>) = Some (r, wk')"
    "rr_http_status r = 200" by blast
  have "\<exists>vs i. rr_body r = render (JObject (read_document (cf_default_namespace example_config) vs i)) \<and>
      (\<forall>(a, v) \<in> set vs. a \<noteq> 0 \<longrightarrow>
        (\<exists>u. (a, u) \<in> set (telegram_values (?tgs @ [])) \<and> v = take kMaxSharedValueBytes u))"
    by (rule answers_come_from_bus [OF k' example_envs(2) z dr _ _ r example_reading_state(3)]) simp_all
  then obtain vs i where vs: "rr_body r = render (JObject (read_document (cf_default_namespace example_config) vs i))"
    "\<forall>(a, v) \<in> set vs. a \<noteq> 0 \<longrightarrow>
      (\<exists>u. (a, u) \<in> set (telegram_values (?tgs @ [])) \<and> v = take kMaxSharedValueBytes u)" by blast
  have tv: "telegram_values (?tgs @ []) = [(0x0A03, [0x42])]" by code_simp
  have "\<forall>(a, v) \<in> set vs. a \<noteq> 0 \<longrightarrow> v = [0x42]"
    using vs(2) unfolding tv by (auto simp: kMaxSharedValueBytes_def)
  then show ?thesis using dr r(1) vs(1) unfolding example_reading_state(4) by blast
qed

section \<open>From the web server and back\<close>

definition get_env :: "string \<Rightarrow> string \<Rightarrow> string list \<Rightarrow> bool" where
  "get_env path qs env \<longleftrightarrow> envp_lookup env ''REQUEST_METHOD'' = Some ''GET'' \<and>
     envp_lookup env ''PATH_INFO'' = Some path \<and> envp_lookup env ''QUERY_STRING'' = Some qs"

lemma read_request_get:
  assumes "get_env path qs env" "path \<noteq> []" "read_request_envp fread (Some env) s = (req, s')"
  shows "s' = s \<and> request_path req = path \<and> rq_query_string req = qs"
proof -
  let ?req = "request_of (\<lambda>name. env_or_empty (envp_lookup env name))"
  have "rq_request_method ?req = ''GET''" "rq_path_info ?req = path" "rq_query_string ?req = qs"
    using assms(1) by (simp_all add: get_env_def request_of_def env_or_empty_def)
  then show ?thesis using assms(2,3) by (simp add: read_request_envp_def has_body_def request_path_def)
qed

text \<open>
  (C18) A read request over FastCGI: when the parameters of an accepted request name the path of the read
  endpoint and tokens are available, the bytes written back split at the first blank line into headers with the
  status of the read handler and exactly the body of the read handler; the worker is left as the handler
  leaves it.
\<close>

theorem read_over_fastcgi:
  assumes "ac_envp ac = Some env" "get_env ''/r'' qs env" "\<forall>sm. ac_available ac sm"
    and "read_handle ops cfg qs wk = Some (r, wk')"
  shows "\<exists>out log sem_ops hdr. accept_loop dl sems (worker_handler ops cfg num) [ac] wk = ([(out, log, sem_ops)], wk') \<and>
    http_split out = Some (''Status: '' @ to_string_int (rr_http_status r) @ crlf @ hdr, rr_body r)"
proof -
  obtain req s where q: "read_request_envp (ac_fread ac) (Some env) wk = (req, s)"
    by (cases "read_request_envp (ac_fread ac) (Some env) wk")
  have req: "s = wk" "request_path req = ''/r''" "rq_query_string req = qs"
    using read_request_get [OF assms(2) _ q] by auto
  let ?resp = "new_response\<lparr>rs_status_code := rr_http_status r, rs_body := rr_body r\<rparr>"
  have h: "worker_handler ops cfg num req wk = (Inr ?resp, wk')"
    using assms(4) req by (simp add: worker_handler_def route_def)
  have "\<exists>sem_ops. serve_request sems (ac_available ac) (worker_handler ops cfg num) req wk = (?resp, sem_ops, wk')"
    using assms(3) req(2) h by (auto simp: serve_request_def invoke_handler_def Let_def)
  then obtain sem_ops where
    s: "serve_request sems (ac_available ac) (worker_handler ops cfg num) req wk = (?resp, sem_ops, wk')" ..
  have "CHR 0x0D \<notin> set (rs_content_type ?resp)" by (simp add: new_response_def)
  from response_framed [OF this] show ?thesis using q req(1) s assms(1) by (simp add: Let_def)
qed

definition example_accepted :: "'s accepted" where
  "example_accepted = \<lparr>ac_envp = Some [''REQUEST_METHOD=GET'', ''PATH_INFO=/r'', ''QUERY_STRING=a=1/2/3''],
     ac_fread = (\<lambda>n s. ([], s)), ac_available = (\<lambda>_. True), ac_timestamps = ([], [])\<rparr>"

theorem read_over_fastcgi_witness:
  "\<exists>out log sem_ops hdr body wk'. accept_loop default_debug_log \<lparr>ss_concurrency = True, ss_load_shed = True\<rparr>
       (worker_handler mock_ops example_config 0) [example_accepted] example_reading = ([(out, log, sem_ops)], wk') \<and>
     http_split out = Some (''Status: 200'' @ crlf @ hdr, body)"
proof -
  obtain r wk' where r: "read_handle mock_ops example_config ''a=1/2/3'' example_reading = Some (r, wk')"
    "rr_http_status r = 200" using example_reading_ok example_queries(2) by blast
  have env: "ac_envp example_accepted = Some [''REQUEST_METHOD=GET'', ''PATH_INFO=/r'', ''QUERY_STRING=a=1/2/3'']"
    "\<forall>sm. ac_available example_accepted sm" by (simp_all add: example_accepted_def)
  have "get_env ''/r'' ''a=1/2/3'' [''REQUEST_METHOD=GET'', ''PATH_INFO=/r'', ''QUERY_STRING=a=1/2/3'']"
    by (simp add: get_env_def)
  from read_over_fastcgi [OF env(1) this env(2) r(1), of default_debug_log "\<lparr>ss_concurrency = True, ss_load_shed = True\<rparr>" 0]
  obtain out log sem_ops hdr where o: "accept_loop default_debug_log \<lparr>ss_concurrency = True, ss_load_shed = True\<rparr>
      (worker_handler mock_ops example_config 0) [example_accepted] example_reading = ([(out, log, sem_ops)], wk')"
    "http_split out = Some (''Status: '' @ to_string_int 200 @ crlf @ hdr, rr_body r)" unfolding r(2) by blast
  have "to_string_int 200 = ''200''" by code_simp
  then show ?thesis using o by auto
qed

section \<open>Without a socket of its own\<close>

lemma unconnected_send:
  assumes "ci_socket_path c = []" "ci_fd c < 0" "ci_last_group_write c \<le> 0"
  shows "client_send_group_packet os et a apdu (c, e) = Some (False, c, e)"
  using assms
  by (simp add: client_send_group_packet.simps client_reconnect.simps rate_limit_def client_is_connected_def)

lemma unconnected_sends:
  assumes "ci_socket_path c = []" "ci_fd c < 0" "ci_last_group_write c \<le> 0"
  shows "send_each (knxd_client_ops os et) apdu as (c, e) = Some (replicate (length as) False, c, e)"
  by (induction as) (simp_all add: knxd_client_ops_def unconnected_send [OF assms])

text \<open>
  Without \<^verbatim>\<open>FCGI_SOCKET\<close> no write ever reaches the bus: the process that serves its standard input
  never gives its knxd client a socket, so the client cannot connect on demand either, and every valid
  write request is answered with 503 and leaves the client as it was.
\<close>

lemma stdio_mode_cannot_write:
  assumes "startup args getenv open_socket region cache sems = st" "parse_flag args = Start"
    and "se_fcgi_socket (read_settings getenv) = []" "sgc_data cache = None" "region = (True, True, True)"
    and "serving_client (knxd_client_ops os et) knxd_socket st (new_client_impl, e) = Some (wk_knxd wk)"
    and "qs_get_all (query_string qs) ''a'' = addresses" "qs_get (query_string qs) ''v'' = Some v"
    and "write_apdu v = Some apdu" "check_session (query_string qs) wk = (True, wk1)"
    and "targets (cf_default_namespace cfg) addresses \<noteq> []"
  shows "\<exists>w wk'. write_handle (knxd_client_ops os et) cfg qs wk = Some (w, wk') \<and> wr_http_status w = 503 \<and>
    wk_knxd wk' = (new_client_impl, e)"
proof -
  let ?ts = "targets (cf_default_namespace cfg) addresses"
  have "st = Stdio (set_handler True new_server)"
    using assms(1-5) by (simp add: startup_def sgc_create_def)
  then have "wk_knxd wk1 = (new_client_impl, e)"
    using assms(6) check_session_spec [OF assms(10)] by (simp add: serving_client_def)
  then have s: "send_each (knxd_client_ops os et) apdu ?ts (wk_knxd wk1) =
      Some (replicate (length ?ts) False, new_client_impl, e)"
    using unconnected_sends [of new_client_impl] by (simp add: new_client_impl_def)
  have "False \<in> set (replicate (length ?ts) False)" using assms(11) by simp
  then show ?thesis using write_handle_status [OF assms(7-10) refl assms(11) s] by auto
qed

end
